(* ===== verification/Prelude.thy ===== *)
theory Prelude
  imports Main "HOL-Library.AList" "HOL-Library.Multiset" "HOL-Library.Sublist"
begin

text \<open>
  Shared vocabulary of the webchan development.  The Go runtime primitives the
  package relies on are modelled here once: a buffered Go channel is the list of
  its buffered elements (head = next element received) together with its
  capacity.  \<open>ch <- x\<close> either appends or blocks (\<open>chan_put\<close>, \<open>None\<close> = the
  sender is suspended), and the non-blocking \<open>select { case ch <- x: default: }\<close>
  used by \<open>tryPushError\<close> appends or drops (\<open>chan_try_put\<close>).  The named
  collections gather the equations and invariant facts the component theories
  share, so that their proofs are \<open>simp add: go_chan\<close> and \<open>auto simp: wc_inv\<close>.
\<close>

named_theorems go_chan "equations of the Go channel primitives"
named_theorems wc_inv "facts that keep the state invariants of the components"

type_synonym 'a chan_buf = "'a list"

definition chan_put :: "nat \<Rightarrow> 'a \<Rightarrow> 'a chan_buf \<Rightarrow> 'a chan_buf option" where
  "chan_put cap x q = (if length q < cap then Some (q @ [x]) else None)"

definition chan_try_put :: "nat \<Rightarrow> 'a \<Rightarrow> 'a chan_buf \<Rightarrow> 'a chan_buf" where
  "chan_try_put cap x q = (case chan_put cap x q of Some q' \<Rightarrow> q' | None \<Rightarrow> q)"

text \<open>The decimal form of an integer, as \<open>fmt\<close> prints it with \<open>%d\<close> and
  \<open>encoding/json\<close> writes it (\<open>strconv.AppendInt\<close>).\<close>

fun nat_text :: "nat \<Rightarrow> string" where
  "nat_text n = (if n < 10 then [char_of (48 + n)] else nat_text (n div 10) @ [char_of (48 + n mod 10)])"

definition int_text :: "int \<Rightarrow> string" where
  "int_text i = (if i < 0 then ''-'' @ nat_text (nat (- i)) else nat_text (nat i))"

lemma chan_put_Some_iff [go_chan]:
  "chan_put cap x q = Some q' \<longleftrightarrow> length q < cap \<and> q' = q @ [x]"
  by (auto simp: chan_put_def)

lemma chan_put_None_iff [go_chan]:
  "chan_put cap x q = None \<longleftrightarrow> cap \<le> length q"
  by (auto simp: chan_put_def)

lemma chan_try_put_eq [go_chan]:
  "chan_try_put cap x q = (if length q < cap then q @ [x] else q)"
  by (simp add: chan_try_put_def chan_put_def)

lemma chan_put_length_le [wc_inv]:
  "chan_put cap x q = Some q' \<Longrightarrow> length q' \<le> cap"
  by (auto simp: chan_put_def split: if_splits)

lemma chan_try_put_length_le [wc_inv]:
  "length q \<le> cap \<Longrightarrow> length (chan_try_put cap x q) \<le> cap"
  by (simp add: chan_try_put_eq)

lemma chan_try_put_prefix [wc_inv]:
  "prefix q (chan_try_put cap x q)"
  by (simp add: chan_try_put_eq)

lemma chan_try_put_full [simp]:
  "cap \<le> length q \<Longrightarrow> chan_try_put cap x q = q"
  by (simp add: chan_try_put_eq)

lemma chan_try_put_room [simp]:
  "length q < cap \<Longrightarrow> chan_try_put cap x q = q @ [x]"
  by (simp add: chan_try_put_eq)

lemma chan_try_put_replicate [go_chan]:
  assumes "length q \<le> cap"
  shows "chan_try_put cap x q @ replicate (min m (cap - length (chan_try_put cap x q))) x =
         q @ replicate (min (Suc m) (cap - length q)) x"
proof (cases "length q < cap")
  case True
  then have "min (Suc m) (cap - length q) = Suc (min m (cap - Suc (length q)))" by linarith
  with True show ?thesis by simp
next
  case False
  with assms show ?thesis by simp
qed

lemma map_of_Some_snd:
  "map_of al k = Some v \<Longrightarrow> v \<in> snd ` set al"
  by (force dest: map_of_SomeD)

lemma set_update_subset_insert:
  "set (AList.update k v al) \<subseteq> insert (k, v) (set al)"
  by (induction al) auto

lemma find_append_eq:
  "find P (xs @ ys) = (case find P xs of None \<Rightarrow> find P ys | Some x \<Rightarrow> Some x)"
  by (induction xs) auto

lemma update_fresh_append:
  "k \<notin> fst ` set al \<Longrightarrow> AList.update k v al = al @ [(k, v)]"
  by (induction al) auto

text \<open>Association lists whose keys and whose values are both distinct: the
  shape of an unambiguous two-way table.\<close>

definition bijective_alist :: "('k \<times> 'v) list \<Rightarrow> bool" where
  "bijective_alist al \<longleftrightarrow> distinct (map fst al) \<and> distinct (map snd al)"

lemma bijective_alist_Cons [simp]:
  "bijective_alist ((k, v) # al) \<longleftrightarrow>
     k \<notin> fst ` set al \<and> v \<notin> snd ` set al \<and> bijective_alist al"
  by (auto simp: bijective_alist_def)

lemma bijective_alist_Nil [simp]: "bijective_alist []"
  by (simp add: bijective_alist_def)

lemma bijective_alist_key_unique:
  assumes "bijective_alist al" and "(k, v) \<in> set al" and "(k', v) \<in> set al"
  shows "k = k'"
proof -
  from assms(1) have "inj_on snd (set al)"
    by (simp add: bijective_alist_def distinct_map)
  then have "(k, v) = (k', v)"
    using inj_onD [of snd "set al" "(k, v)" "(k', v)"] assms(2,3) by simp
  then show ?thesis by simp
qed

lemma bijective_alist_map_of:
  "bijective_alist al \<Longrightarrow> map_of al k = Some v \<longleftrightarrow> (k, v) \<in> set al"
  by (simp add: bijective_alist_def)

lemma bijective_alist_perm:
  assumes "mset al = mset al'"
  shows "bijective_alist al \<longleftrightarrow> bijective_alist al'"
proof -
  from assms have "mset (map fst al) = mset (map fst al')" and "mset (map snd al) = mset (map snd al')"
    by simp_all
  then show ?thesis
    unfolding bijective_alist_def by (metis mset_eq_imp_distinct_iff)
qed

end
