(* ===== verification/Errors.thy ===== *)
theory Errors
  imports Prelude
begin

text \<open>
  The error values of the package (\<open>errors.go\<close>: \<open>sendError\<close>, \<open>recvError\<close>
  and their \<open>Error()\<close> methods) and the causes they wrap.  The causes are the
  errors the Go standard library hands the worker goroutines: \<open>io.EOF\<close>,
  \<open>net.ErrClosed\<close> and the other failures of \<open>encoding/json\<close> and
  \<open>net.Conn\<close>, plus the \<open>fmt.Errorf("type not allowed: ...")\<close> values the
  package builds itself.  \<open>closed_class\<close> is the test
  \<open>errors.Is(err, net.ErrClosed) || errors.Is(err, io.EOF)\<close> that decides
  whether the receive goroutine stops.
\<close>

datatype io_error =
    EOF                          \<comment> \<open>\<open>io.EOF\<close>: the peer closed its end, nothing buffered\<close>
  | ErrUnexpectedEOF             \<comment> \<open>\<open>io.ErrUnexpectedEOF\<close>: the stream ended inside a value\<close>
  | ErrClosed                    \<comment> \<open>\<open>net.ErrClosed\<close>: the local socket was closed\<close>
  | ErrClosedPipe                \<comment> \<open>write to a connection whose peer has closed\<close>
  | SyntaxError string           \<comment> \<open>\<open>*json.SyntaxError\<close>: malformed bytes on the wire\<close>
  | UnmarshalTypeError string    \<comment> \<open>\<open>*json.UnmarshalTypeError\<close>: a JSON value of the wrong kind\<close>
  | MarshalError string          \<comment> \<open>\<open>json.Marshal\<close> refused the value\<close>
  | TypeNotAllowed string        \<comment> \<open>\<open>fmt.Errorf("type not allowed: ...")\<close>\<close>
  | OtherIO string               \<comment> \<open>any other transport failure (timeouts, resets)\<close>

datatype wc_error =
    SendError io_error
  | RecvError io_error

text \<open>Go panics the package can raise: \<open>make\<close> with a negative size, a send on
  or a second close of a closed channel (Go runtime), and the package's own
  \<open>panic(&sendError{...})\<close> for a value of a type that was not registered.\<close>

datatype go_panic =
    MakeChanSizeOutOfRange
  | SendOnClosedChannel
  | CloseOfClosedChannel
  | SendPanic wc_error

fun closed_class :: "io_error \<Rightarrow> bool" where
  "closed_class ErrClosed = True"
| "closed_class EOF = True"
| "closed_class _ = False"

fun io_error_text :: "io_error \<Rightarrow> string" where
  "io_error_text EOF = ''EOF''"
| "io_error_text ErrUnexpectedEOF = ''unexpected EOF''"
| "io_error_text ErrClosed = ''use of closed network connection''"
| "io_error_text ErrClosedPipe = ''io: read/write on closed pipe''"
| "io_error_text (SyntaxError s) = s"
| "io_error_text (UnmarshalTypeError s) = s"
| "io_error_text (MarshalError s) = s"
| "io_error_text (TypeNotAllowed s) = ''type not allowed: '' @ s"
| "io_error_text (OtherIO s) = s"

fun wc_error_text :: "wc_error \<Rightarrow> string" where
  "wc_error_text (SendError e) = ''send error: '' @ io_error_text e"
| "wc_error_text (RecvError e) = ''recv error: '' @ io_error_text e"

fun is_send_error :: "wc_error \<Rightarrow> bool" where
  "is_send_error (SendError _) = True"
| "is_send_error (RecvError _) = False"

lemma closed_class_iff: "closed_class e \<longleftrightarrow> e = EOF \<or> e = ErrClosed"
  by (cases e) simp_all



end
