(* ===== verification/Codec.thy ===== *)
theory Codec
  imports Errors
begin

text \<open>
  The interface between the package and \<open>encoding/json\<close> + \<open>reflect\<close>, which
  the package only calls.  A codec bundles what the worker goroutines use:
  \<^item> \<open>type_of\<close>: \<open>reflect.TypeOf\<close>, the dynamic type of a value;
  \<^item> \<open>type_name\<close>: \<open>fmt.Sprintf("%T", ...)\<close> of a type;
  \<^item> \<open>marshal\<close>: what \<open>encoder.Encode(data)\<close> serialises (it may refuse the
    value: functions, channels);
  \<^item> \<open>marshal_name\<close>: \<open>encoder.Encode(typeName)\<close> of a string, which never fails;
  \<^item> \<open>unmarshal_name\<close>: \<open>decoder.Decode(&typeName)\<close> applied to one JSON document;
  \<^item> \<open>unmarshal\<close>: \<open>decoder.Decode(reflect.New(t).Interface())\<close> followed by
    \<open>.Elem().Interface()\<close>: the document decoded into a fresh zero value of \<open>t\<close>.
  The components are proved for every codec; the laws they need are stated as
  predicates here, and \<open>GoJson\<close> gives a concrete codec that satisfies them.
\<close>

record ('v, 'ty, 'd) codec =
  type_of :: "'v \<Rightarrow> 'ty"
  type_name :: "'ty \<Rightarrow> string"
  marshal :: "'v \<Rightarrow> io_error + 'd"
  marshal_name :: "string \<Rightarrow> 'd"
  unmarshal_name :: "'d \<Rightarrow> io_error + string"
  unmarshal :: "'ty \<Rightarrow> 'd \<Rightarrow> io_error + 'v"

text \<open>A string marshalled as a type name reads back as itself.\<close>

definition names_roundtrip :: "('v, 'ty, 'd) codec \<Rightarrow> bool" where
  "names_roundtrip c \<longleftrightarrow> (\<forall>n. unmarshal_name c (marshal_name c n) = Inr n)"

text \<open>A value is sendable when it marshals, and decoding its document into a
  fresh value of its own dynamic type gives it back.\<close>

definition sendable :: "('v, 'ty, 'd) codec \<Rightarrow> 'v \<Rightarrow> bool" where
  "sendable c v \<longleftrightarrow> (\<exists>d. marshal c v = Inr d \<and> unmarshal c (type_of c v) d = Inr v)"

text \<open>Decoding into a fresh value of type \<open>t\<close> (\<open>reflect.New(t)\<close>) gives a value
  of type \<open>t\<close>.\<close>

definition unmarshal_typed :: "('v, 'ty, 'd) codec \<Rightarrow> bool" where
  "unmarshal_typed c \<longleftrightarrow> (\<forall>t d v. unmarshal c t d = Inr v \<longrightarrow> type_of c v = t)"

lemma sendableE:
  assumes "sendable c v"
  obtains d where "marshal c v = Inr d" and "unmarshal c (type_of c v) d = Inr v"
  using assms by (auto simp: sendable_def)

lemma names_roundtripD [simp]:
  "names_roundtrip c \<Longrightarrow> unmarshal_name c (marshal_name c n) = Inr n"
  by (simp add: names_roundtrip_def)

lemma unmarshal_typedD:
  "unmarshal_typed c \<Longrightarrow> unmarshal c t d = Inr v \<Longrightarrow> type_of c v = t"
  by (simp add: unmarshal_typed_def)

end
