(* ===== verification/Wire.thy ===== *)
theory Wire
  imports Errors
begin

text \<open>
  The connection (\<open>soc net.Conn\<close>) and the \<open>json.Encoder\<close>/\<open>json.Decoder\<close> the
  package wraps around it; both are library code the package only calls, so they
  are modelled from their documented behaviour.  What one endpoint sees of its
  connection is a record: the documents received and not yet read (\<open>rx\<close>),
  whether the peer has closed (\<open>rx_eof\<close>, \<open>peer_closed\<close>), the documents this
  endpoint has written (\<open>tx\<close>), whether \<open>soc.Close()\<close> has run
  (\<open>local_closed\<close>), and which error a read or write on the locally closed
  connection returns (\<open>local_err\<close>: a TCP \<open>*net.OpError\<close> wrapping
  \<open>net.ErrClosed\<close>, but \<open>io.ErrClosedPipe\<close> for the \<open>net.Pipe\<close> of the
  package's test).  The wire carries whole JSON documents; \<open>Junk\<close> stands for
  bytes that do not parse and \<open>Cut\<close> for a document the peer stopped writing
  half-way.  Both the encoder and the decoder keep the first transport error
  and return it from every later call (\<open>enc.err\<close>, \<open>dec.err\<close> in
  \<open>encoding/json/stream.go\<close>); a marshalling or unmarshalling error is not kept.
\<close>

datatype 'd item = Doc 'd | Junk string | Cut

record 'd conn =
  rx :: "'d item list"
  rx_eof :: bool
  tx :: "'d item list"
  peer_closed :: bool
  local_closed :: bool
  local_err :: io_error

datatype 'a read_result = Got 'a | ReadErr io_error | Blocked

text \<open>\<open>soc.Write\<close> of one serialised document.\<close>

definition conn_write :: "'d \<Rightarrow> 'd conn \<Rightarrow> io_error option \<times> 'd conn" where
  "conn_write d c =
     (if local_closed c then (Some (local_err c), c)
      else if peer_closed c then (Some ErrClosedPipe, c)
      else (None, c\<lparr>tx := tx c @ [Doc d]\<rparr>))"

text \<open>\<open>Encoder.Encode\<close>: the kept error first, then marshalling, then the write.
  The result is the returned error, the encoder's kept error, and the connection.\<close>

definition json_encode ::
  "io_error + 'd \<Rightarrow> io_error option \<Rightarrow> 'd conn \<Rightarrow> io_error option \<times> io_error option \<times> 'd conn" where
  "json_encode m err c =
     (case err of
        Some e \<Rightarrow> (Some e, err, c)
      | None \<Rightarrow>
          (case m of
             Inl e \<Rightarrow> (Some e, None, c)
           | Inr d \<Rightarrow>
               (case conn_write d c of
                  (None, c') \<Rightarrow> (None, None, c')
                | (Some e, c') \<Rightarrow> (Some e, Some e, c'))))"

text \<open>\<open>Decoder.Decode\<close> into a target whose unmarshalling is \<open>f\<close>: the kept
  error first; a read on the locally closed connection fails; a complete document
  is consumed whether or not it unmarshals; malformed bytes, the end of the stream
  and a truncated last document are kept errors; with nothing to read and the
  stream still open the call blocks.\<close>

definition json_decode ::
  "('d \<Rightarrow> io_error + 'a) \<Rightarrow> io_error option \<Rightarrow> 'd conn \<Rightarrow> 'a read_result \<times> io_error option \<times> 'd conn" where
  "json_decode f err c =
     (case err of
        Some e \<Rightarrow> (ReadErr e, err, c)
      | None \<Rightarrow>
          (if local_closed c then (ReadErr (local_err c), Some (local_err c), c)
           else
             (case rx c of
                [] \<Rightarrow> (if rx_eof c then (ReadErr EOF, Some EOF, c) else (Blocked, None, c))
              | Doc d # rest \<Rightarrow>
                  ((case f d of Inl e \<Rightarrow> ReadErr e | Inr a \<Rightarrow> Got a), None, c\<lparr>rx := rest\<rparr>)
              | Junk m # rest \<Rightarrow> (ReadErr (SyntaxError m), Some (SyntaxError m), c\<lparr>rx := rest\<rparr>)
              | Cut # rest \<Rightarrow>
                  (if rx_eof c then (ReadErr ErrUnexpectedEOF, Some ErrUnexpectedEOF, c)
                   else (Blocked, None, c)))))"

text \<open>When a \<open>Decode\<close> call blocks: no kept error, the connection open at both
  ends as far as this endpoint knows, and no complete document to read.\<close>

definition read_blocks :: "io_error option \<Rightarrow> 'd conn \<Rightarrow> bool" where
  "read_blocks err c \<longleftrightarrow> err = None \<and> \<not> local_closed c \<and> \<not> rx_eof c \<and>
     (case rx c of [] \<Rightarrow> True | Cut # _ \<Rightarrow> True | _ \<Rightarrow> False)"

lemma conn_rx_update_same [simp]: "rx c = r \<Longrightarrow> c\<lparr>rx := r\<rparr> = c"
  by (cases c) simp

lemma json_encode_local_closed:
  "json_encode m err c = (r, k, c') \<Longrightarrow> local_closed c' = local_closed c"
  by (auto simp: json_encode_def conn_write_def split: option.splits sum.splits if_splits)

lemma json_decode_local_closed:
  "json_decode f err c = (r, k, c') \<Longrightarrow> local_closed c' = local_closed c"
  by (auto simp: json_decode_def split: option.splits if_splits list.splits item.splits)

lemma json_encode_ok:
  "\<not> local_closed c \<Longrightarrow> \<not> peer_closed c \<Longrightarrow>
   json_encode (Inr d) None c = (None, None, c\<lparr>tx := tx c @ [Doc d]\<rparr>)"
  by (simp add: json_encode_def conn_write_def)

lemma json_encode_kept [simp]:
  "json_encode m (Some e) c = (Some e, Some e, c)"
  by (simp add: json_encode_def)

lemma json_encode_marshal_error [simp]:
  "json_encode (Inl e) None c = (Some e, None, c)"
  by (simp add: json_encode_def)

lemma json_decode_doc:
  "\<not> local_closed c \<Longrightarrow> rx c = Doc d # rest \<Longrightarrow>
   json_decode f None c = ((case f d of Inl e \<Rightarrow> ReadErr e | Inr a \<Rightarrow> Got a), None, c\<lparr>rx := rest\<rparr>)"
  by (simp add: json_decode_def)

lemma json_decode_kept [simp]:
  "json_decode f (Some e) c = (ReadErr e, Some e, c)"
  by (simp add: json_decode_def)

lemma json_decode_eof:
  "\<not> local_closed c \<Longrightarrow> rx c = [] \<Longrightarrow> rx_eof c \<Longrightarrow> json_decode f None c = (ReadErr EOF, Some EOF, c)"
  by (simp add: json_decode_def)

lemma json_decode_Blocked_iff:
  "fst (json_decode f err c) = Blocked \<longleftrightarrow> read_blocks err c"
  by (auto simp: json_decode_def read_blocks_def split: option.splits list.splits item.splits sum.splits)

lemma json_decode_closed:
  "local_closed c \<Longrightarrow> \<exists>e. json_decode f err c = (ReadErr e, Some e, c)"
  by (cases err) (auto simp: json_decode_def)

lemma json_decode_Got:
  "json_decode f err c = (Got a, k, c') \<Longrightarrow> \<exists>d. f d = Inr a"
  by (auto simp: json_decode_def split: option.splits if_splits list.splits item.splits sum.splits)

end
