(* ===== verification/GoJson.thy ===== *)
theory GoJson
  imports Codec Wire
begin

text \<open>
  A concrete codec: Go values of the shapes the package's documentation and test
  use (strings, ints, structs of them such as \<open>testType{A int; B string}\<close>, and
  function values, which \<open>json.Marshal\<close> refuses), their \<open>reflect\<close> types, and
  JSON documents.  Marshalling and unmarshalling follow \<open>encoding/json\<close>: a
  struct becomes an object keyed by field name; decoding into a struct takes
  each field from the object's last member of that name and leaves a missing
  field at its zero value; \<open>null\<close> leaves the target at its zero value; an
  integer outside Go's 64-bit \<open>int\<close> or a document of the wrong kind is an
  \<open>*json.UnmarshalTypeError\<close>.  Field names are matched exactly (Go also
  accepts a case-insensitive match) and all fields are exported.  This theory
  supplies the concrete inputs of the witnesses and shows that every
  well-formed value is sendable.
\<close>

datatype gtype = TString | TInt | TFunc | TStruct string "(string \<times> gtype) list"

datatype gval = VString string | VInt int | VFunc string | VStruct string "(string \<times> gval) list"

text \<open>JSON values as \<open>encoding/json\<close> reads them: an integer literal is a
  \<open>JNumber\<close>; a number with a fraction or an exponent keeps its text
  (\<open>JFloat\<close>), since no type of the model decodes it.\<close>

datatype jval = JString string | JNumber int | JObject "(string \<times> jval) list"
  | JNull | JBool bool | JArray "jval list" | JFloat string

primrec gtype_of :: "gval \<Rightarrow> gtype"
  and gtype_of_fields :: "(string \<times> gval) list \<Rightarrow> (string \<times> gtype) list"
  and gtype_of_field :: "string \<times> gval \<Rightarrow> string \<times> gtype" where
  "gtype_of (VString s) = TString"
| "gtype_of (VInt i) = TInt"
| "gtype_of (VFunc f) = TFunc"
| "gtype_of (VStruct n fs) = TStruct n (gtype_of_fields fs)"
| "gtype_of_fields [] = []"
| "gtype_of_fields (fv # fs) = gtype_of_field fv # gtype_of_fields fs"
| "gtype_of_field (f, v) = (f, gtype_of v)"

fun gtype_name :: "gtype \<Rightarrow> string" where
  "gtype_name TString = ''string''"
| "gtype_name TInt = ''int''"
| "gtype_name TFunc = ''func()''"
| "gtype_name (TStruct n fs) = ''webchan.'' @ n"

primrec zero_val :: "gtype \<Rightarrow> gval"
  and zero_fields :: "(string \<times> gtype) list \<Rightarrow> (string \<times> gval) list"
  and zero_field :: "string \<times> gtype \<Rightarrow> string \<times> gval" where
  "zero_val TString = VString ''''"
| "zero_val TInt = VInt 0"
| "zero_val TFunc = VFunc ''nil''"
| "zero_val (TStruct n fts) = VStruct n (zero_fields fts)"
| "zero_fields [] = []"
| "zero_fields (ft # fts) = zero_field ft # zero_fields fts"
| "zero_field (f, t) = (f, zero_val t)"

primrec json_marshal :: "gval \<Rightarrow> io_error + jval"
  and marshal_fields :: "(string \<times> gval) list \<Rightarrow> io_error + (string \<times> jval) list"
  and marshal_field :: "string \<times> gval \<Rightarrow> io_error + (string \<times> jval)" where
  "json_marshal (VString s) = Inr (JString s)"
| "json_marshal (VInt i) = Inr (JNumber i)"
| "json_marshal (VFunc f) = Inl (MarshalError ''json: unsupported type: func()'')"
| "json_marshal (VStruct n fs) =
     (case marshal_fields fs of Inl e \<Rightarrow> Inl e | Inr kvs \<Rightarrow> Inr (JObject kvs))"
| "marshal_fields [] = Inr []"
| "marshal_fields (fv # fs) =
     (case marshal_field fv of Inl e \<Rightarrow> Inl e
      | Inr kv \<Rightarrow> (case marshal_fields fs of Inl e \<Rightarrow> Inl e | Inr kvs \<Rightarrow> Inr (kv # kvs)))"
| "marshal_field (f, v) = (case json_marshal v of Inl e \<Rightarrow> Inl e | Inr j \<Rightarrow> Inr (f, j))"

text \<open>Go's \<open>int\<close> is 64 bits wide; a literal outside its range does not
  decode into it.\<close>

definition int64_range :: "int \<Rightarrow> bool" where
  "int64_range i \<longleftrightarrow> - (2 ^ 63) \<le> i \<and> i < 2 ^ 63"

definition type_mismatch :: "gtype \<Rightarrow> io_error" where
  "type_mismatch t = UnmarshalTypeError (''json: cannot unmarshal into Go value of type '' @ gtype_name t)"

primrec json_unmarshal :: "gtype \<Rightarrow> jval \<Rightarrow> io_error + gval"
  and unmarshal_fields :: "(string \<times> gtype) list \<Rightarrow> (string \<times> jval) list \<Rightarrow> io_error + (string \<times> gval) list"
  and unmarshal_field :: "string \<times> gtype \<Rightarrow> (string \<times> jval) list \<Rightarrow> io_error + (string \<times> gval)" where
  "json_unmarshal TString j =
     (case j of JString s \<Rightarrow> Inr (VString s) | JNull \<Rightarrow> Inr (VString '''') | _ \<Rightarrow> Inl (type_mismatch TString))"
| "json_unmarshal TInt j =
     (case j of
        JNumber i \<Rightarrow> (if int64_range i then Inr (VInt i) else Inl (type_mismatch TInt))
      | JNull \<Rightarrow> Inr (VInt 0)
      | _ \<Rightarrow> Inl (type_mismatch TInt))"
| "json_unmarshal TFunc j = (case j of JNull \<Rightarrow> Inr (VFunc ''nil'') | _ \<Rightarrow> Inl (type_mismatch TFunc))"
| "json_unmarshal (TStruct n fts) j =
     (case j of
        JObject kvs \<Rightarrow> (case unmarshal_fields fts kvs of Inl e \<Rightarrow> Inl e | Inr fvs \<Rightarrow> Inr (VStruct n fvs))
      | JNull \<Rightarrow> Inr (VStruct n (zero_fields fts))
      | _ \<Rightarrow> Inl (type_mismatch (TStruct n fts)))"
| "unmarshal_fields [] kvs = Inr []"
| "unmarshal_fields (ft # fts) kvs =
     (case unmarshal_field ft kvs of Inl e \<Rightarrow> Inl e
      | Inr fv \<Rightarrow> (case unmarshal_fields fts kvs of Inl e \<Rightarrow> Inl e | Inr fvs \<Rightarrow> Inr (fv # fvs)))"
| "unmarshal_field (f, t) kvs =
     (case map_of (rev kvs) f of
        None \<Rightarrow> Inr (f, zero_val t)
      | Some j \<Rightarrow> (case json_unmarshal t j of Inl e \<Rightarrow> Inl e | Inr v \<Rightarrow> Inr (f, v)))"

fun json_unmarshal_name :: "jval \<Rightarrow> io_error + string" where
  "json_unmarshal_name (JString s) = Inr s"
| "json_unmarshal_name JNull = Inr ''''"
| "json_unmarshal_name _ = Inl (type_mismatch TString)"

definition go_json :: "(gval, gtype, jval) codec" where
  "go_json = \<lparr>type_of = gtype_of, type_name = gtype_name, marshal = json_marshal,
     marshal_name = JString, unmarshal_name = json_unmarshal_name, unmarshal = json_unmarshal\<rparr>"

text \<open>Fixtures from the package's README and test (\<open>NewWebChan(a, 100, "strings",
  testType{})\<close>, sending \<open>"Hello"\<close> and \<open>testType{A: 42, B: "Hello"}\<close>) and
  from the spec's scenario (\<open>"greeting"\<close> for strings, \<open>"point"\<close> for
  \<open>{X int; Y int}\<close>).  \<open>pipe_conn\<close> is a fresh end of a \<open>net.Pipe\<close>, whose
  operations after a local \<open>Close\<close> fail with \<open>io.ErrClosedPipe\<close>.\<close>

definition test_prototypes :: "gval list" where
  "test_prototypes = [VString ''strings'', VStruct ''testType'' [(''A'', VInt 0), (''B'', VString '''')]]"

definition test_value :: gval where
  "test_value = VStruct ''testType'' [(''A'', VInt 42), (''B'', VString ''Hello'')]"

definition point_prototypes :: "(string \<times> gval) list" where
  "point_prototypes = [(''greeting'', VString ''''), (''point'', VStruct ''point'' [(''X'', VInt 0), (''Y'', VInt 0)])]"

definition pipe_conn :: "jval conn" where
  "pipe_conn = \<lparr>rx = [], rx_eof = False, tx = [], peer_closed = False, local_closed = False,
                 local_err = ErrClosedPipe\<rparr>"

lemmas fixture_defs = test_prototypes_def test_value_def point_prototypes_def pipe_conn_def

text \<open>Well-formed values: no function values (which \<open>json.Marshal\<close> refuses),
  integers in the range of Go's \<open>int\<close>, and no struct with two fields of one name (which Go rejects at compile time).\<close>

primrec wf_val :: "gval \<Rightarrow> bool"
  and wf_fields :: "(string \<times> gval) list \<Rightarrow> bool"
  and wf_field :: "string \<times> gval \<Rightarrow> bool" where
  "wf_val (VString s) = True"
| "wf_val (VInt i) = int64_range i"
| "wf_val (VFunc f) = False"
| "wf_val (VStruct n fs) = (distinct (map fst fs) \<and> wf_fields fs)"
| "wf_fields [] = True"
| "wf_fields (fv # fs) = (wf_field fv \<and> wf_fields fs)"
| "wf_field (f, v) = wf_val v"

declare int64_range_def [simp]

lemma go_json_simps [simp]:
  "type_of go_json = gtype_of" "type_name go_json = gtype_name" "marshal go_json = json_marshal"
  "marshal_name go_json = JString" "unmarshal_name go_json = json_unmarshal_name"
  "unmarshal go_json = json_unmarshal"
  by (simp_all add: go_json_def)

lemma go_json_names_roundtrip: "names_roundtrip go_json"
  by (simp add: names_roundtrip_def)

subsection \<open>Every well-formed value is sendable\<close>

lemma gtype_of_fields_map: "gtype_of_fields fs = map (\<lambda>(f, v). (f, gtype_of v)) fs"
  by (induction fs) auto

lemma wf_fields_all: "wf_fields fs \<longleftrightarrow> (\<forall>(f, v) \<in> set fs. wf_val v)"
  by (induction fs) auto

lemma marshal_fields_all:
  "\<forall>(f, v) \<in> set fs. json_marshal v = Inr (J v) \<Longrightarrow>
   marshal_fields fs = Inr (map (\<lambda>(f, v). (f, J v)) fs)"
  by (induction fs) auto

lemma unmarshal_fields_lookup:
  "\<forall>(f, v) \<in> set fs. \<exists>j. map_of (rev kvs) f = Some j \<and> json_unmarshal (gtype_of v) j = Inr v \<Longrightarrow>
   unmarshal_fields (gtype_of_fields fs) kvs = Inr fs"
  by (induction fs) auto

lemma json_roundtrip:
  "wf_val v \<Longrightarrow> \<exists>j. json_marshal v = Inr j \<and> json_unmarshal (gtype_of v) j = Inr v"
proof (induction v rule: gval.induct)
  case (VStruct n fs)
  define J where "J v = projr (json_marshal v)" for v
  let ?kvs = "map (\<lambda>(f, v). (f, J v)) fs"
  have IH: "\<forall>(f, v) \<in> set fs. json_marshal v = Inr (J v) \<and> json_unmarshal (gtype_of v) (J v) = Inr v"
    using VStruct by (fastforce simp: wf_fields_all J_def)
  then have m: "marshal_fields fs = Inr ?kvs"
    by (intro marshal_fields_all) auto
  have keys: "distinct (map fst ?kvs)"
    using VStruct.prems by (simp add: case_prod_beta comp_def)
  have "\<forall>(f, v) \<in> set fs. \<exists>j. map_of (rev ?kvs) f = Some j \<and> json_unmarshal (gtype_of v) j = Inr v"
  proof (intro ballI, clarify)
    fix f v
    assume fv: "(f, v) \<in> set fs"
    then have "(f, J v) \<in> set ?kvs" by force
    with keys have "map_of (rev ?kvs) f = Some (J v)" by (metis distinct_rev map_of_is_SomeI rev_map set_rev)
    with fv IH show "\<exists>j. map_of (rev ?kvs) f = Some j \<and> json_unmarshal (gtype_of v) j = Inr v"
      by auto
  qed
  then have "unmarshal_fields (gtype_of_fields fs) ?kvs = Inr fs"
    by (rule unmarshal_fields_lookup)
  with m show ?case by simp
qed simp_all

lemma wf_val_sendable: "wf_val v \<Longrightarrow> sendable go_json v"
  using json_roundtrip unfolding sendable_def by simp


subsection \<open>Decoding yields a value of the requested type\<close>

lemma zero_fields_map: "zero_fields fts = map (\<lambda>(f, t). (f, zero_val t)) fts"
  by (induction fts) auto

lemma zero_val_type: "gtype_of (zero_val t) = t"
proof (induction t)
  case (TStruct n fts)
  then have "\<forall>(f, t) \<in> set fts. gtype_of (zero_val t) = t" by fastforce
  then have "map (\<lambda>(f, t). (f, gtype_of (zero_val t))) fts = fts"
    by (intro map_idI) auto
  then show ?case by (simp add: zero_fields_map gtype_of_fields_map comp_def split_def)
qed simp_all

lemma unmarshal_fields_type:
  assumes "\<forall>(f, t) \<in> set fts. \<forall>j v. json_unmarshal t j = Inr v \<longrightarrow> gtype_of v = t"
    and "unmarshal_fields fts kvs = Inr fvs"
  shows "gtype_of_fields fvs = fts"
  using assms
proof (induction fts arbitrary: fvs)
  case (Cons ft fts)
  obtain f t where ft: "ft = (f, t)" by fastforce
  from Cons.prems(2) ft obtain fv fvs' where fvs: "fvs = fv # fvs'"
    and fv: "unmarshal_field (f, t) kvs = Inr fv" and rest: "unmarshal_fields fts kvs = Inr fvs'"
    by (auto split: sum.splits)
  have "gtype_of_fields fvs' = fts" using Cons.IH Cons.prems(1) rest by simp
  moreover have "gtype_of_field fv = (f, t)"
    using fv Cons.prems(1) ft by (auto simp: zero_val_type split: option.splits sum.splits)
  ultimately show ?case using fvs ft by simp
qed simp

lemma json_unmarshal_type: "json_unmarshal t j = Inr v \<Longrightarrow> gtype_of v = t"
proof (induction t arbitrary: j v)
  case (TStruct n fts)
  have "\<forall>(f, t) \<in> set fts. \<forall>j v. json_unmarshal t j = Inr v \<longrightarrow> gtype_of v = t"
    using TStruct.IH by fastforce
  with TStruct.prems show ?case
    using zero_val_type [of "TStruct n fts"]
    by (auto simp: unmarshal_fields_type split: jval.splits sum.splits)
qed (auto split: jval.splits if_splits)

lemma go_json_unmarshal_typed: "unmarshal_typed go_json"
  by (simp add: unmarshal_typed_def json_unmarshal_type)

end
