(* ===== verification/Registry.thy ===== *)
theory Registry
  imports GoJson
begin

text \<open>
  The type registry: the field \<open>allowedTypes map[string]reflect.Type\<close> of
  \<open>WebChan\<close>, built by \<open>NewWebChan\<close>/\<open>NewNamedWebChan\<close> and read by
  \<open>getAllowedTypeName\<close> (outbound: value to name) and
  \<open>createTypeInterfaceReflectPointer\<close> (inbound: name to type).  A Go map is an
  association list with distinct keys, listed in one iteration order; Go
  randomises that order on every \<open>range\<close>, so every permutation of the list
  (same multiset) is an equally possible run.  Values are of a type \<open>'v\<close>, their
  dynamic types (\<open>reflect.TypeOf\<close>) of a type \<open>'ty\<close>, and \<open>%T\<close> formatting is a
  function \<open>tname\<close> (the codec's \<open>type_name\<close>).
\<close>

type_synonym 'ty registry = "(string \<times> 'ty) list"

text \<open>\<open>NewWebChan\<close>: \<open>allowedTypesMap[fmt.Sprintf("%T", v)] = v\<close> for each
  prototype in turn; a later prototype with the same type name overwrites.\<close>

definition new_webchan_types ::
  "('ty \<Rightarrow> string) \<Rightarrow> ('v \<Rightarrow> 'ty) \<Rightarrow> 'v list \<Rightarrow> (string \<times> 'v) list" where
  "new_webchan_types tname tyof allowed =
     fold (\<lambda>v m. AList.update (tname (tyof v)) v m) allowed []"

text \<open>\<open>NewNamedWebChan\<close>: \<open>allowedTypesReflect[k] = reflect.TypeOf(v)\<close>.\<close>

definition new_named_registry :: "('v \<Rightarrow> 'ty) \<Rightarrow> (string \<times> 'v) list \<Rightarrow> 'ty registry" where
  "new_named_registry tyof allowed =
     fold (\<lambda>(k, v) m. AList.update k (tyof v) m) allowed []"

text \<open>\<open>getAllowedTypeName\<close>: the first key, in iteration order, whose type is the
  dynamic type of the value.\<close>

fun get_allowed_type_name :: "('v \<Rightarrow> 'ty) \<Rightarrow> 'ty registry \<Rightarrow> 'v \<Rightarrow> string option" where
  "get_allowed_type_name tyof [] data = None"
| "get_allowed_type_name tyof ((k, t) # r) data =
     (if t = tyof data then Some k else get_allowed_type_name tyof r data)"

text \<open>\<open>createTypeInterfaceReflectPointer\<close>: the registered type of a name; the
  fresh pointer \<open>reflect.New(t)\<close> is the decoder's business.\<close>

definition create_type_interface_reflect_pointer :: "'ty registry \<Rightarrow> string \<Rightarrow> 'ty option" where
  "create_type_interface_reflect_pointer r tname = map_of r tname"

text \<open>A registry is unambiguous when no name and no type occurs twice: then
  lookup by value is a function, as the spec requires.\<close>

abbreviation registry_ok :: "'ty registry \<Rightarrow> bool" where
  "registry_ok r \<equiv> bijective_alist r"

subsection \<open>Lookup by value\<close>

lemma get_allowed_type_name_Some:
  "get_allowed_type_name tyof r data = Some k \<Longrightarrow> (k, tyof data) \<in> set r"
  by (induction r) (auto split: if_splits)

lemma get_allowed_type_name_None:
  "get_allowed_type_name tyof r data = None \<longleftrightarrow> tyof data \<notin> snd ` set r"
  by (induction r) (auto simp: image_iff split: if_splits)

lemma get_allowed_type_name_unique:
  assumes "registry_ok r" and "(k, tyof data) \<in> set r"
  shows "get_allowed_type_name tyof r data = Some k"
proof -
  have "tyof data \<in> snd ` set r"
    by (rule rev_image_eqI [OF assms(2)]) simp
  then have "get_allowed_type_name tyof r data \<noteq> None"
    by (simp add: get_allowed_type_name_None)
  then obtain k' where "get_allowed_type_name tyof r data = Some k'"
    by blast
  moreover from this have "(k', tyof data) \<in> set r"
    by (rule get_allowed_type_name_Some)
  ultimately show ?thesis
    using bijective_alist_key_unique [OF assms(1) _ assms(2)] by simp
qed

lemma create_type_pointer_Some:
  "registry_ok r \<Longrightarrow> create_type_interface_reflect_pointer r k = Some t \<longleftrightarrow> (k, t) \<in> set r"
  by (simp add: create_type_interface_reflect_pointer_def bijective_alist_map_of)

subsection \<open>Construction\<close>

lemma new_webchan_types_fold_keys:
  "\<forall>(k, v) \<in> set m. k = tname (tyof v) \<Longrightarrow> distinct (map fst m) \<Longrightarrow>
   (\<forall>(k, v) \<in> set (fold (\<lambda>v m. AList.update (tname (tyof v)) v m) vs m).
       k = tname (tyof v)) \<and>
   distinct (map fst (fold (\<lambda>v m. AList.update (tname (tyof v)) v m) vs m))"
proof (induction vs arbitrary: m)
  case Nil
  then show ?case by simp
next
  case (Cons v vs)
  have "\<forall>(k, w) \<in> set (AList.update (tname (tyof v)) v m). k = tname (tyof w)"
  proof
    fix p
    assume "p \<in> set (AList.update (tname (tyof v)) v m)"
    then have "p \<in> insert (tname (tyof v), v) (set m)"
      using set_update_subset_insert by fast
    then show "case p of (k, w) \<Rightarrow> k = tname (tyof w)"
      using Cons.prems(1) by auto
  qed
  moreover have "distinct (map fst (AList.update (tname (tyof v)) v m))"
    using Cons.prems(2) by (rule distinct_update)
  ultimately show ?case
    using Cons.IH by simp
qed

lemma new_webchan_types_keys:
  "(k, v) \<in> set (new_webchan_types tname tyof vs) \<Longrightarrow> k = tname (tyof v)"
  "distinct (map fst (new_webchan_types tname tyof vs))"
  using new_webchan_types_fold_keys [of "[]" tname tyof vs]
  unfolding new_webchan_types_def by fastforce+

lemma new_webchan_types_fold_lookup:
  "map_of (fold (\<lambda>v m. AList.update (tname (tyof v)) v m) vs m) k =
     (case find (\<lambda>v. tname (tyof v) = k) (rev vs) of
        None \<Rightarrow> map_of m k
      | Some v \<Rightarrow> Some v)"
  by (induction vs arbitrary: m) (auto simp: update_conv' find_append_eq split: option.splits)

lemma new_named_registry_fold_distinct:
  "distinct (map fst al) \<Longrightarrow> fst ` set al \<inter> fst ` set m = {} \<Longrightarrow>
   fold (\<lambda>(k, v) m. AList.update k (tyof v) m) al m = m @ map (\<lambda>(k, v). (k, tyof v)) al"
proof (induction al arbitrary: m)
  case Nil
  then show ?case by simp
next
  case (Cons p al)
  obtain k v where p: "p = (k, v)" by fastforce
  with Cons.prems have "AList.update k (tyof v) m = m @ [(k, tyof v)]"
    by (auto intro: update_fresh_append)
  moreover have "fst ` set al \<inter> fst ` set (m @ [(k, tyof v)]) = {}"
    using Cons.prems p by auto
  ultimately show ?case
    using Cons.IH Cons.prems p by simp
qed

lemma new_named_registry_distinct:
  "distinct (map fst al) \<Longrightarrow> new_named_registry tyof al = map (\<lambda>(k, v). (k, tyof v)) al"
  using new_named_registry_fold_distinct [of al "[]" tyof]
  by (simp add: new_named_registry_def add_mset_commute)

lemma new_webchan_registry_entries:
  "new_named_registry tyof (new_webchan_types tname tyof vs) =
     map (\<lambda>(k, v). (k, tyof v)) (new_webchan_types tname tyof vs)"
  using new_webchan_types_keys(2) by (rule new_named_registry_distinct)

lemma get_allowed_type_name_set_eq:
  assumes "registry_ok r" and "registry_ok r'" and "set r = set r'"
  shows "get_allowed_type_name tyof r data = get_allowed_type_name tyof r' data"
proof (cases "tyof data \<in> snd ` set r")
  case True
  then obtain k where k: "(k, tyof data) \<in> set r" by force
  have "get_allowed_type_name tyof r data = Some k"
    using assms(1) k by (rule get_allowed_type_name_unique)
  moreover have "get_allowed_type_name tyof r' data = Some k"
    using assms(2) k assms(3) by (simp add: get_allowed_type_name_unique)
  ultimately show ?thesis by simp
next
  case False
  then show ?thesis
    using assms(3) by (metis get_allowed_type_name_None)
qed

lemma new_webchan_registry_bijective:
  "registry_ok (new_named_registry tyof (new_webchan_types tname tyof vs))"
proof -
  let ?m = "new_webchan_types tname tyof vs"
  have keys: "distinct (map fst ?m)"
    by (rule new_webchan_types_keys(2))
  have "inj_on (\<lambda>(k, v). tyof v) (set ?m)"
  proof (rule inj_onI)
    fix p q
    assume "p \<in> set ?m" "q \<in> set ?m" "(case p of (k, v) \<Rightarrow> tyof v) = (case q of (k, v) \<Rightarrow> tyof v)"
    moreover from this have "fst p = fst q"
      using new_webchan_types_keys(1) [of "fst p" "snd p" tname tyof vs]
        new_webchan_types_keys(1) [of "fst q" "snd q" tname tyof vs]
      by (simp add: case_prod_beta)
    ultimately show "p = q"
      using keys by (metis distinct_map inj_onD)
  qed
  then have types: "distinct (map (\<lambda>(k, v). tyof v) ?m)"
    using keys by (simp add: distinct_map)
  have s: "map snd (map (\<lambda>(k, v). (k, tyof v)) ?m) = map (\<lambda>(k, v). tyof v) ?m"
    and f: "map fst (map (\<lambda>(k, v). (k, tyof v)) ?m) = map fst ?m"
    by (simp_all add: case_prod_beta)
  show ?thesis
    unfolding new_webchan_registry_entries bijective_alist_def s f
    using keys types by simp
qed

lemma new_webchan_lookup:
  "create_type_interface_reflect_pointer (new_named_registry tyof (new_webchan_types tname tyof vs)) k =
     map_option tyof (find (\<lambda>v. tname (tyof v) = k) (rev vs))"
proof -
  have "map_of (map (\<lambda>(k, v). (k, tyof v)) (new_webchan_types tname tyof vs)) k =
        map_option tyof (map_of (new_webchan_types tname tyof vs) k)"
    by (simp add: map_of_map case_prod_beta)
  moreover have "map_of (new_webchan_types tname tyof vs) k = find (\<lambda>v. tname (tyof v) = k) (rev vs)"
    using new_webchan_types_fold_lookup [of tname tyof vs "[]" k]
    by (simp add: new_webchan_types_def split: option.splits)
  ultimately show ?thesis
    by (simp add: create_type_interface_reflect_pointer_def new_webchan_registry_entries)
qed

subsection \<open>Properties of the registry\<close>

text \<open>C11: on an unambiguous registry, the name \<open>getAllowedTypeName\<close> chooses for an
  outgoing value and the type \<open>createTypeInterfaceReflectPointer\<close> finds for an
  incoming name are inverse to each other.\<close>

theorem registry_roundtrip:
  assumes "registry_ok r"
  shows "get_allowed_type_name tyof r data = Some k \<longleftrightarrow>
         create_type_interface_reflect_pointer r k = Some (tyof data)"
  using assms get_allowed_type_name_Some get_allowed_type_name_unique create_type_pointer_Some
  by metis

theorem registry_roundtrip_witness:
  "registry_ok [(''greeting'', TString), (''point'', TInt)] \<and>
   (get_allowed_type_name id [(''greeting'', TString), (''point'', TInt)] TInt = Some ''point'' \<longleftrightarrow>
    create_type_interface_reflect_pointer [(''greeting'', TString), (''point'', TInt)] ''point'' = Some (id TInt))"
proof -
  have h: "registry_ok [(''greeting'', TString), (''point'', TInt)]"
    by (simp add: bijective_alist_def)
  show ?thesis
    by (rule conjI [OF h registry_roundtrip [OF h, of id TInt "''point''"]])
qed

text \<open>C35: Go iterates a map in a random order; on an unambiguous registry every
  iteration order gives \<open>getAllowedTypeName\<close> the same answer.\<close>

theorem registry_iteration_order:
  assumes "registry_ok r" and "mset r' = mset r"
  shows "get_allowed_type_name tyof r' data = get_allowed_type_name tyof r data"
proof -
  have "registry_ok r'"
    using bijective_alist_perm [OF assms(2)] assms(1) by simp
  moreover have "set r' = set r"
    using assms(2) by (rule mset_eq_setD)
  ultimately show ?thesis
    by (rule get_allowed_type_name_set_eq [OF _ assms(1)])
qed

theorem registry_iteration_order_witness:
  "registry_ok [(''greeting'', TString), (''point'', TInt)] \<and>
   mset [(''point'', TInt), (''greeting'', TString)] = mset [(''greeting'', TString), (''point'', TInt)] \<and>
   get_allowed_type_name id [(''point'', TInt), (''greeting'', TString)] TString =
   get_allowed_type_name id [(''greeting'', TString), (''point'', TInt)] TString"
proof -
  have h1: "registry_ok [(''greeting'', TString), (''point'', TInt)]"
    by (simp add: bijective_alist_def)
  have h2: "mset [(''point'', TInt), (''greeting'', TString)] = mset [(''greeting'', TString), (''point'', TInt)]"
    by (simp add: add_mset_commute)
  show ?thesis
    by (rule conjI [OF h1 conjI [OF h2 registry_iteration_order [OF h1 h2, of id TString]]])
qed

text \<open>C36: the registry \<open>NewWebChan\<close> builds is always unambiguous, and each
  name maps to the type of the last prototype with that name: duplicate
  prototypes are merged silently, never refused.\<close>

theorem new_webchan_registry:
  "registry_ok (new_named_registry tyof (new_webchan_types tname tyof vs)) \<and>
   create_type_interface_reflect_pointer (new_named_registry tyof (new_webchan_types tname tyof vs)) k =
     map_option tyof (find (\<lambda>v. tname (tyof v) = k) (rev vs))"
  using new_webchan_registry_bijective new_webchan_lookup by blast


end
