(* ===== verification/WebChan.thy ===== *)
theory WebChan
  imports Registry Codec Wire
begin

text \<open>
  The \<open>WebChan\<close> struct (\<open>webchan.go\<close>), its constructors and
  \<open>tryPushError\<close>.  Each Go channel field is its buffer plus a closed flag;
  \<open>closeRecvChan\<close>, which is never sent on, is just its closed flag.  The
  encoder and decoder contribute their kept errors (\<open>enc_err\<close>, \<open>dec_err\<close>),
  the socket its connection record.  \<open>bufLength\<close> is an \<open>int\<close> in Go and
  \<open>make\<close> panics on a negative one, so the constructor returns that panic as
  \<open>Inl\<close>.
\<close>

definition error_buffer :: nat where
  "error_buffer = 100"

record ('v, 'ty, 'd) webchan =
  send_q :: "'v chan_buf"
  send_closed :: bool
  recv_q :: "'v chan_buf"
  recv_closed :: bool
  err_q :: "wc_error chan_buf"
  close_recv_chan :: bool
  soc :: "'d conn"
  allowed_types :: "'ty registry"
  buf_length :: nat
  enc_err :: "io_error option"
  dec_err :: "io_error option"

definition new_named_webchan ::
  "('v, 'ty, 'd) codec \<Rightarrow> 'd conn \<Rightarrow> int \<Rightarrow> (string \<times> 'v) list \<Rightarrow> go_panic + ('v, 'ty, 'd) webchan" where
  "new_named_webchan c s buf allowed =
     (let reg = new_named_registry (type_of c) allowed in
      if buf < 0 then Inl MakeChanSizeOutOfRange
      else Inr \<lparr>send_q = [], send_closed = False, recv_q = [], recv_closed = False, err_q = [],
                close_recv_chan = False, soc = s, allowed_types = reg, buf_length = nat buf,
                enc_err = None, dec_err = None\<rparr>)"

definition new_webchan ::
  "('v, 'ty, 'd) codec \<Rightarrow> 'd conn \<Rightarrow> int \<Rightarrow> 'v list \<Rightarrow> go_panic + ('v, 'ty, 'd) webchan" where
  "new_webchan c s buf allowed =
     new_named_webchan c s buf (new_webchan_types (type_name c) (type_of c) allowed)"

definition try_push_error :: "wc_error \<Rightarrow> ('v, 'ty, 'd) webchan \<Rightarrow> ('v, 'ty, 'd) webchan" where
  "try_push_error e w = w\<lparr>err_q := chan_try_put error_buffer e (err_q w)\<rparr>"

text \<open>A frame on the wire: the type name, then the payload (two documents).\<close>

abbreviation wire_frame :: "('v, 'ty, 'd) codec \<Rightarrow> string \<times> 'd \<Rightarrow> 'd item list" where
  "wire_frame c nd \<equiv> [Doc (marshal_name c (fst nd)), Doc (snd nd)]"

abbreviation conn_open :: "'d conn \<Rightarrow> bool" where
  "conn_open s \<equiv> \<not> local_closed s \<and> \<not> peer_closed s"

text \<open>The endpoint of the package's test right after
  \<open>NewWebChan(a, 100, "strings", testType{})\<close> on one end of a \<open>net.Pipe\<close>.\<close>

definition test_wc :: "(gval, gtype, jval) webchan" where
  "test_wc = \<lparr>send_q = [], send_closed = False, recv_q = [], recv_closed = False, err_q = [],
     close_recv_chan = False, soc = pipe_conn,
     allowed_types = [(''string'', TString), (''webchan.testType'', TStruct ''testType'' [(''A'', TInt), (''B'', TString)])],
     buf_length = 100, enc_err = None, dec_err = None\<rparr>"

text \<open>The bounds every reachable state keeps: no channel holds more than its
  capacity.\<close>

definition bounded :: "('v, 'ty, 'd) webchan \<Rightarrow> bool" where
  "bounded w \<longleftrightarrow> length (send_q w) \<le> buf_length w \<and> length (recv_q w) \<le> buf_length w \<and>
     length (err_q w) \<le> error_buffer"

lemma try_push_error_fields [simp]:
  "send_q (try_push_error e w) = send_q w" "recv_q (try_push_error e w) = recv_q w"
  "send_closed (try_push_error e w) = send_closed w" "recv_closed (try_push_error e w) = recv_closed w"
  "close_recv_chan (try_push_error e w) = close_recv_chan w" "soc (try_push_error e w) = soc w"
  "allowed_types (try_push_error e w) = allowed_types w" "buf_length (try_push_error e w) = buf_length w"
  "enc_err (try_push_error e w) = enc_err w" "dec_err (try_push_error e w) = dec_err w"
  "err_q (try_push_error e w) = chan_try_put error_buffer e (err_q w)"
  by (simp_all add: try_push_error_def)

lemma webchan_update_same [simp]:
  "dec_err w = k \<Longrightarrow> w\<lparr>dec_err := k\<rparr> = w"
  "enc_err w = k \<Longrightarrow> w\<lparr>enc_err := k\<rparr> = w"
  "soc w = s \<Longrightarrow> w\<lparr>soc := s\<rparr> = w"
  "dec_err w = k \<Longrightarrow> w\<lparr>dec_err := k, soc := s\<rparr> = w\<lparr>soc := s\<rparr>"
  "enc_err w = k \<Longrightarrow> w\<lparr>enc_err := k, soc := s\<rparr> = w\<lparr>soc := s\<rparr>"
  by (cases w; simp)+

lemma bounded_try_push_error [wc_inv]:
  "bounded w \<Longrightarrow> bounded (try_push_error e w)"
  by (simp add: bounded_def chan_try_put_length_le)

lemma new_named_webchan_Inr:
  "new_named_webchan c s buf allowed = Inr w \<longleftrightarrow>
     0 \<le> buf \<and> w = \<lparr>send_q = [], send_closed = False, recv_q = [], recv_closed = False, err_q = [],
       close_recv_chan = False, soc = s, allowed_types = new_named_registry (type_of c) allowed,
       buf_length = nat buf, enc_err = None, dec_err = None\<rparr>"
  by (auto simp: new_named_webchan_def Let_def)

lemma new_named_webchan_bounded [wc_inv]:
  "new_named_webchan c s buf allowed = Inr w \<Longrightarrow> bounded w"
  by (auto simp: new_named_webchan_Inr bounded_def)


lemma new_webchan_test: "new_webchan go_json pipe_conn 100 test_prototypes = Inr test_wc"
  by (simp add: new_webchan_def new_named_webchan_def new_webchan_types_def new_named_registry_def
                test_prototypes_def test_wc_def)


subsection \<open>Properties of construction and error reporting\<close>



text \<open>C39: \<open>tryPushError\<close> never blocks and never overfills the error channel: it
  appends the error while the channel holds fewer than 100 errors and drops it,
  leaving the endpoint unchanged, once the channel is full.\<close>

theorem try_push_error_lossy:
  assumes "length (err_q w) \<le> error_buffer"
  shows "length (err_q (try_push_error e w)) \<le> error_buffer \<and>
         (length (err_q w) < error_buffer \<longrightarrow> err_q (try_push_error e w) = err_q w @ [e]) \<and>
         (length (err_q w) = error_buffer \<longrightarrow> try_push_error e w = w)"
  using assms by (simp add: try_push_error_def chan_try_put_eq)

theorem try_push_error_lossy_witness:
  "length (err_q (test_wc\<lparr>err_q := replicate 100 (RecvError EOF)\<rparr>)) \<le> error_buffer \<and>
   try_push_error (SendError ErrClosedPipe) (test_wc\<lparr>err_q := replicate 100 (RecvError EOF)\<rparr>) =
     test_wc\<lparr>err_q := replicate 100 (RecvError EOF)\<rparr> \<and>
   err_q (try_push_error (SendError ErrClosedPipe) test_wc) = [SendError ErrClosedPipe]"
proof -
  have h1: "length (err_q (test_wc\<lparr>err_q := replicate 100 (RecvError EOF)\<rparr>)) \<le> error_buffer"
    by (simp add: error_buffer_def)
  have h2: "length (err_q test_wc) \<le> error_buffer"
    by (simp add: error_buffer_def test_wc_def)
  show ?thesis
    using h1 try_push_error_lossy [OF h1, of "SendError ErrClosedPipe"]
          try_push_error_lossy [OF h2, of "SendError ErrClosedPipe"]
    by (simp add: error_buffer_def test_wc_def)
qed

end
