(* ===== verification/Outbound.thy ===== *)
theory Outbound
  imports WebChan
begin

text \<open>
  The send goroutine of \<open>NewNamedWebChan\<close> (\<open>webchan.go\<close>, the first
  \<open>go func()\<close>).  \<open>send_step\<close> is one iteration of its \<open>for\<close> loop: receive
  from \<open>Send\<close> (blocking while it is empty and open, \<open>None\<close>; returning once it
  is closed and drained), look the value's type up with \<open>getAllowedTypeName\<close>
  (panicking when it is not registered), encode the name and then the value,
  and push a \<open>sendError\<close> when either encoding fails.  \<open>send_loop\<close> runs
  iterations until the goroutine blocks, returns or panics; it terminates because
  every iteration that keeps running removes one value from \<open>Send\<close>.
\<close>

datatype send_pc = SRunning | SReturned | SPanicked go_panic

text \<open>\<open>err := wc.encoder.Encode(typeName); if err == nil { err = wc.encoder.Encode(data) }\<close>\<close>

definition encode_frame ::
  "('v, 'ty, 'd) codec \<Rightarrow> string \<Rightarrow> 'v \<Rightarrow> ('v, 'ty, 'd) webchan \<Rightarrow> io_error option \<times> ('v, 'ty, 'd) webchan" where
  "encode_frame c type_nm data w =
     (case json_encode (Inr (marshal_name c type_nm)) (enc_err w) (soc w) of
        (Some e, k1, s1) \<Rightarrow> (Some e, w\<lparr>enc_err := k1, soc := s1\<rparr>)
      | (None, k1, s1) \<Rightarrow>
          (case json_encode (marshal c data) k1 s1 of
             (r, k2, s2) \<Rightarrow> (r, w\<lparr>enc_err := k2, soc := s2\<rparr>)))"

definition send_step :: "('v, 'ty, 'd) codec \<Rightarrow> ('v, 'ty, 'd) webchan \<Rightarrow> (send_pc \<times> ('v, 'ty, 'd) webchan) option" where
  "send_step c w =
     (case send_q w of
        [] \<Rightarrow> (if send_closed w then Some (SReturned, w) else None)
      | data # rest \<Rightarrow>
          (let w1 = w\<lparr>send_q := rest\<rparr> in
           case get_allowed_type_name (type_of c) (allowed_types w1) data of
             None \<Rightarrow> Some (SPanicked (SendPanic (SendError (TypeNotAllowed (type_name c (type_of c data))))), w1)
           | Some type_nm \<Rightarrow>
               (case encode_frame c type_nm data w1 of
                  (None, w2) \<Rightarrow> Some (SRunning, w2)
                | (Some e, w2) \<Rightarrow> Some (SRunning, try_push_error (SendError e) w2))))"

lemma encode_frame_send_q [simp]:
  "encode_frame c n data w = (r, w') \<Longrightarrow> send_q w' = send_q w \<and> err_q w' = err_q w \<and>
     buf_length w' = buf_length w \<and> recv_q w' = recv_q w \<and> allowed_types w' = allowed_types w \<and>
     send_closed w' = send_closed w \<and> close_recv_chan w' = close_recv_chan w \<and>
     recv_closed w' = recv_closed w \<and> dec_err w' = dec_err w \<and> local_closed (soc w') = local_closed (soc w)"
  by (auto simp: encode_frame_def split: prod.splits option.splits dest!: json_encode_local_closed)

lemma send_step_running_shrinks:
  "send_step c w = Some (SRunning, w') \<Longrightarrow> length (send_q w') < length (send_q w)"
  by (auto simp: send_step_def Let_def split: list.splits if_splits option.splits prod.splits
           dest!: encode_frame_send_q)

function send_loop :: "('v, 'ty, 'd) codec \<Rightarrow> ('v, 'ty, 'd) webchan \<Rightarrow> send_pc \<times> ('v, 'ty, 'd) webchan" where
  "send_loop c w =
     (case send_step c w of
        None \<Rightarrow> (SRunning, w)
      | Some (SRunning, w') \<Rightarrow> send_loop c w'
      | Some (pc, w') \<Rightarrow> (pc, w'))"
  by pat_completeness auto
termination
  by (relation "measure (\<lambda>(c, w). length (send_q w))") (auto dest: send_step_running_shrinks)

declare send_loop.simps [simp del]

subsection \<open>One iteration, branch by branch\<close>

lemma send_step_empty [simp]:
  "send_q w = [] \<Longrightarrow> send_step c w = (if send_closed w then Some (SReturned, w) else None)"
  by (simp add: send_step_def)

lemma send_step_unregistered:
  assumes "send_q w = data # rest"
    and "get_allowed_type_name (type_of c) (allowed_types w) data = None"
  shows "send_step c w =
     Some (SPanicked (SendPanic (SendError (TypeNotAllowed (type_name c (type_of c data))))), w\<lparr>send_q := rest\<rparr>)"
  using assms by (simp add: send_step_def)

lemma send_step_frame:
  assumes "send_q w = data # rest"
    and "get_allowed_type_name (type_of c) (allowed_types w) data = Some n"
    and "marshal c data = Inr d" and "enc_err w = None" and "conn_open (soc w)"
  shows "send_step c w =
     Some (SRunning, w\<lparr>send_q := rest, soc := soc w\<lparr>tx := tx (soc w) @ wire_frame c (n, d)\<rparr>\<rparr>)"
  using assms by (simp add: send_step_def encode_frame_def json_encode_def conn_write_def)

lemma send_step_marshal_error:
  assumes "send_q w = data # rest"
    and "get_allowed_type_name (type_of c) (allowed_types w) data = Some n"
    and "marshal c data = Inl e" and "enc_err w = None" and "conn_open (soc w)"
  shows "send_step c w =
     Some (SRunning, try_push_error (SendError e)
       (w\<lparr>send_q := rest, soc := soc w\<lparr>tx := tx (soc w) @ [Doc (marshal_name c n)]\<rparr>\<rparr>))"
  using assms by (simp add: send_step_def encode_frame_def json_encode_def conn_write_def)

lemma send_step_kept_error:
  assumes "send_q w = data # rest"
    and "get_allowed_type_name (type_of c) (allowed_types w) data = Some n"
    and "enc_err w = Some e"
  shows "send_step c w = Some (SRunning, try_push_error (SendError e) (w\<lparr>send_q := rest\<rparr>))"
  using assms by (simp add: send_step_def encode_frame_def)

lemma send_step_bounded_rest:
  assumes "bounded (w\<lparr>send_q := drop 1 (send_q w)\<rparr>)" and "send_step c w = Some (pc, w')"
  shows "bounded w'"
proof (cases "send_q w")
  case Nil
  then have e: "w\<lparr>send_q := drop 1 (send_q w)\<rparr> = w" by simp
  have "bounded w" using assms(1) unfolding e .
  with assms(2) Nil show ?thesis by (simp split: if_splits)
next
  case (Cons data rest)
  have b1: "bounded (w\<lparr>send_q := rest\<rparr>)"
    using assms(1) Cons by simp
  have frame: "bounded w2" if "encode_frame c n data (w\<lparr>send_q := rest\<rparr>) = (r, w2)" for n r w2
    using b1 encode_frame_send_q [OF that] by (simp add: bounded_def)
  show ?thesis
    using assms(2) Cons b1 frame
    by (auto simp: send_step_def Let_def bounded_try_push_error
             split: option.splits prod.splits)
qed

lemma send_step_bounded [wc_inv]:
  "bounded w \<Longrightarrow> send_step c w = Some (pc, w') \<Longrightarrow> bounded w'"
  by (rule send_step_bounded_rest) (auto simp: bounded_def)

text \<open>On an unbuffered \<open>Send\<close> a value passes from the caller straight to the
  waiting goroutine, which then runs one iteration on it.\<close>

lemma send_step_handoff_bounded [wc_inv]:
  "bounded w \<Longrightarrow> send_step c (w\<lparr>send_q := [v]\<rparr>) = Some (pc, w') \<Longrightarrow> bounded w'"
  by (rule send_step_bounded_rest) (auto simp: bounded_def)

subsection \<open>The loop\<close>

lemma send_loop_frames:
  assumes "list_all2 (\<lambda>v (n, d). get_allowed_type_name (type_of c) (allowed_types w) v = Some n \<and>
                                 marshal c v = Inr d) (send_q w) fr"
    and "enc_err w = None" and "conn_open (soc w)"
  shows "send_loop c w =
     (if send_closed w then SReturned else SRunning,
      w\<lparr>send_q := [], soc := soc w\<lparr>tx := tx (soc w) @ concat (map (wire_frame c) fr)\<rparr>\<rparr>)"
  using assms
proof (induction fr arbitrary: w rule: list.induct)
  case Nil
  then have q: "send_q w = []" by simp
  then have "w\<lparr>send_q := []\<rparr> = w" by simp
  with q show ?case by (simp add: send_loop.simps [of c w])
next
  case (Cons nd fr)
  obtain n d where nd: "nd = (n, d)" by fastforce
  from Cons.prems(1) nd obtain data rest where q: "send_q w = data # rest"
    and reg: "get_allowed_type_name (type_of c) (allowed_types w) data = Some n"
    and m: "marshal c data = Inr d"
    and rest: "list_all2 (\<lambda>v (n, d). get_allowed_type_name (type_of c) (allowed_types w) v = Some n \<and>
                                     marshal c v = Inr d) rest fr"
    by (cases "send_q w") auto
  let ?w' = "w\<lparr>send_q := rest, soc := soc w\<lparr>tx := tx (soc w) @ wire_frame c (n, d)\<rparr>\<rparr>"
  have step: "send_step c w = Some (SRunning, ?w')"
    using q reg m Cons.prems(2,3) by (rule send_step_frame)
  have "send_loop c ?w' =
     (if send_closed ?w' then SReturned else SRunning,
      ?w'\<lparr>send_q := [], soc := soc ?w'\<lparr>tx := tx (soc ?w') @ concat (map (wire_frame c) fr)\<rparr>\<rparr>)"
    using rest Cons.prems(2,3) by (intro Cons.IH) simp_all
  then show ?case
    using step nd by (simp add: send_loop.simps [of c w])
qed


lemma send_step_registered:
  assumes "send_q w = data # rest" and "type_of c data \<in> snd ` set (allowed_types w)"
  obtains n where "get_allowed_type_name (type_of c) (allowed_types w) data = Some n"
  using assms(2) get_allowed_type_name_None [of "type_of c" "allowed_types w" data] by fastforce

lemma send_step_closed_socket:
  assumes "send_q w = data # rest"
    and "get_allowed_type_name (type_of c) (allowed_types w) data = Some n"
    and "enc_err w = None" and "local_closed (soc w)"
  shows "send_step c w =
     Some (SRunning, try_push_error (SendError (local_err (soc w)))
                       (w\<lparr>send_q := rest, enc_err := Some (local_err (soc w))\<rparr>))"
  using assms by (simp add: send_step_def encode_frame_def json_encode_def conn_write_def)

lemma send_loop_kept_error:
  assumes "\<forall>v \<in> set (send_q w). type_of c v \<in> snd ` set (allowed_types w)"
    and "enc_err w = Some e" and "length (err_q w) \<le> error_buffer"
  shows "send_loop c w =
     (if send_closed w then SReturned else SRunning,
      w\<lparr>send_q := [], err_q := err_q w @ replicate (min (length (send_q w)) (error_buffer - length (err_q w))) (SendError e)\<rparr>)"
  using assms
proof (induction "send_q w" arbitrary: w)
  case Nil
  then have "w\<lparr>send_q := [], err_q := err_q w\<rparr> = w" by simp
  with Nil.hyps show ?case by (simp add: send_loop.simps [of c w])
next
  case (Cons data rest)
  have q: "send_q w = data # rest" using Cons.hyps(2) by simp
  with Cons.prems(1) have "type_of c data \<in> snd ` set (allowed_types w)" by simp
  with q obtain n where reg: "get_allowed_type_name (type_of c) (allowed_types w) data = Some n"
    by (rule send_step_registered)
  let ?w1 = "try_push_error (SendError e) (w\<lparr>send_q := rest\<rparr>)"
  have step: "send_step c w = Some (SRunning, ?w1)"
    using q reg Cons.prems(2) by (rule send_step_kept_error)
  have "send_loop c ?w1 =
     (if send_closed ?w1 then SReturned else SRunning,
      ?w1\<lparr>send_q := [], err_q := err_q ?w1 @ replicate (min (length (send_q ?w1)) (error_buffer - length (err_q ?w1))) (SendError e)\<rparr>)"
    using q Cons.prems
    by (intro Cons.hyps(1)) (simp_all add: chan_try_put_length_le)
  then show ?case
    using step q Cons.prems(3)
    by (simp add: send_loop.simps [of c w] chan_try_put_replicate try_push_error_def)
qed

subsection \<open>Properties of the send goroutine\<close>

text \<open>C9: when every queued value is registered and marshals, the send goroutine
  writes exactly their frames, name then payload, in the order they were queued;
  it drains \<open>Send\<close>, reports no error, does not read, and then waits for more
  (or returns if \<open>Send\<close> is closed).\<close>

theorem send_loop_fifo:
  assumes "list_all2 (\<lambda>v (n, d). get_allowed_type_name (type_of c) (allowed_types w) v = Some n \<and>
                                 marshal c v = Inr d) (send_q w) fr"
    and "enc_err w = None" and "conn_open (soc w)"
  shows "\<exists>w'. send_loop c w = (if send_closed w then SReturned else SRunning, w') \<and>
           tx (soc w') = tx (soc w) @ concat (map (wire_frame c) fr) \<and>
           send_q w' = [] \<and> err_q w' = err_q w \<and> rx (soc w') = rx (soc w) \<and> enc_err w' = None"
  using send_loop_frames [OF assms] assms(2) by simp

theorem send_loop_fifo_witness:
  "list_all2 (\<lambda>v (n, d). get_allowed_type_name gtype_of (allowed_types test_wc) v = Some n \<and>
                         json_marshal v = Inr d)
     [VString ''Hello'', test_value]
     [(''string'', JString ''Hello''),
      (''webchan.testType'', JObject [(''A'', JNumber 42), (''B'', JString ''Hello'')])] \<and>
   (\<exists>w'. send_loop go_json (test_wc\<lparr>send_q := [VString ''Hello'', test_value]\<rparr>) = (SRunning, w') \<and>
     tx (soc w') = [Doc (JString ''string''), Doc (JString ''Hello''),
                    Doc (JString ''webchan.testType''), Doc (JObject [(''A'', JNumber 42), (''B'', JString ''Hello'')])] \<and>
     send_q w' = [] \<and> err_q w' = [] \<and> rx (soc w') = [] \<and> enc_err w' = None)"
proof -
  let ?w = "test_wc\<lparr>send_q := [VString ''Hello'', test_value]\<rparr>"
  let ?fr = "[(''string'', JString ''Hello''),
              (''webchan.testType'', JObject [(''A'', JNumber 42), (''B'', JString ''Hello'')])]"
  have h1: "list_all2 (\<lambda>v (n, d). get_allowed_type_name (type_of go_json) (allowed_types ?w) v = Some n \<and>
                                 marshal go_json v = Inr d) (send_q ?w) ?fr"
    by (simp add: test_wc_def test_value_def)
  have h2: "enc_err ?w = None" and h3: "conn_open (soc ?w)"
    by (simp_all add: test_wc_def pipe_conn_def)
  show ?thesis
    using h1 send_loop_fifo [OF h1 h2 h3] by (simp add: test_wc_def pipe_conn_def)
qed

text \<open>C13: a value whose type was never registered makes the send goroutine panic
  with \<open>sendError{type not allowed: T}\<close> before it writes anything: the socket,
  the encoder and the error channel are untouched.\<close>

theorem send_unregistered_panics:
  assumes "send_q w = data # rest" and "type_of c data \<notin> snd ` set (allowed_types w)"
  shows "\<exists>w'. send_step c w = Some (SPanicked (SendPanic (SendError (TypeNotAllowed (type_name c (type_of c data))))), w') \<and>
           soc w' = soc w \<and> enc_err w' = enc_err w \<and> err_q w' = err_q w \<and> send_q w' = rest"
proof -
  have "get_allowed_type_name (type_of c) (allowed_types w) data = None"
    using assms(2) by (simp add: get_allowed_type_name_None)
  from send_step_unregistered [OF assms(1) this] show ?thesis by simp
qed

theorem send_unregistered_panics_witness:
  "send_q (test_wc\<lparr>send_q := [VInt 7]\<rparr>) = VInt 7 # [] \<and>
   gtype_of (VInt 7) \<notin> snd ` set (allowed_types (test_wc\<lparr>send_q := [VInt 7]\<rparr>)) \<and>
   (\<exists>w'. send_step go_json (test_wc\<lparr>send_q := [VInt 7]\<rparr>) =
           Some (SPanicked (SendPanic (SendError (TypeNotAllowed ''int''))), w') \<and>
         soc w' = pipe_conn \<and> enc_err w' = None \<and> err_q w' = [] \<and> send_q w' = [])"
proof -
  let ?w = "test_wc\<lparr>send_q := [VInt 7]\<rparr>"
  have h1: "send_q ?w = VInt 7 # []" by simp
  have h2: "type_of go_json (VInt 7) \<notin> snd ` set (allowed_types ?w)"
    by (simp add: test_wc_def)
  show ?thesis
    using h1 h2 send_unregistered_panics [OF h1 h2] by (simp add: test_wc_def)
qed

text \<open>C30: when the name of a frame is written but the value does not marshal
  (\<open>json: unsupported type\<close>), the name stays on the wire without its payload:
  the peer will read the next frame's name as this frame's payload.\<close>

theorem send_marshal_error_desync:
  assumes "send_q w = data # rest"
    and "get_allowed_type_name (type_of c) (allowed_types w) data = Some n"
    and "marshal c data = Inl e" and "enc_err w = None" and "conn_open (soc w)"
  shows "\<exists>w'. send_step c w = Some (SRunning, w') \<and> tx (soc w') = tx (soc w) @ [Doc (marshal_name c n)] \<and>
           err_q w' = chan_try_put error_buffer (SendError e) (err_q w) \<and> enc_err w' = None"
  using send_step_marshal_error [OF assms] assms(4) by simp

theorem send_marshal_error_desync_witness:
  "send_q (test_wc\<lparr>send_q := [VFunc ''handler''], allowed_types := [(''func()'', TFunc)]\<rparr>) = VFunc ''handler'' # [] \<and>
   (\<exists>w'. send_step go_json (test_wc\<lparr>send_q := [VFunc ''handler''], allowed_types := [(''func()'', TFunc)]\<rparr>) =
           Some (SRunning, w') \<and>
         tx (soc w') = [Doc (JString ''func()'')] \<and>
         err_q w' = [SendError (MarshalError ''json: unsupported type: func()'')] \<and> enc_err w' = None)"
proof -
  let ?w = "test_wc\<lparr>send_q := [VFunc ''handler''], allowed_types := [(''func()'', TFunc)]\<rparr>"
  have h1: "send_q ?w = VFunc ''handler'' # []" by simp
  have h2: "get_allowed_type_name (type_of go_json) (allowed_types ?w) (VFunc ''handler'') = Some ''func()''"
    by simp
  have h3: "marshal go_json (VFunc ''handler'') = Inl (MarshalError ''json: unsupported type: func()'')"
    by simp
  have h4: "enc_err ?w = None" and h5: "conn_open (soc ?w)"
    by (simp_all add: test_wc_def pipe_conn_def)
  show ?thesis
    using h1 send_marshal_error_desync [OF h1 h2 h3 h4 h5]
    by (simp add: test_wc_def pipe_conn_def error_buffer_def)
qed

text \<open>C31: once a write has failed, the encoder keeps the error: every later
  registered value is dropped, a \<open>sendError\<close> with the same cause is reported
  (while the error channel has room), nothing is written, and the goroutine
  keeps running.\<close>

theorem send_kept_error_drops:
  assumes "send_q w = data # rest"
    and "type_of c data \<in> snd ` set (allowed_types w)" and "enc_err w = Some e"
  shows "\<exists>w'. send_step c w = Some (SRunning, w') \<and> soc w' = soc w \<and> send_q w' = rest \<and>
           enc_err w' = Some e \<and> err_q w' = chan_try_put error_buffer (SendError e) (err_q w)"
proof -
  have "get_allowed_type_name (type_of c) (allowed_types w) data \<noteq> None"
    using assms(2) by (simp add: get_allowed_type_name_None)
  then obtain n where "get_allowed_type_name (type_of c) (allowed_types w) data = Some n"
    by blast
  from send_step_kept_error [OF assms(1) this assms(3)] assms(3) show ?thesis by simp
qed

theorem send_kept_error_drops_witness:
  "send_q (test_wc\<lparr>send_q := [VString ''Hello''], enc_err := Some ErrClosedPipe\<rparr>) = VString ''Hello'' # [] \<and>
   gtype_of (VString ''Hello'') \<in> snd ` set (allowed_types test_wc) \<and>
   (\<exists>w'. send_step go_json (test_wc\<lparr>send_q := [VString ''Hello''], enc_err := Some ErrClosedPipe\<rparr>) = Some (SRunning, w') \<and>
         soc w' = pipe_conn \<and> send_q w' = [] \<and> enc_err w' = Some ErrClosedPipe \<and>
         err_q w' = [SendError ErrClosedPipe])"
proof -
  let ?w = "test_wc\<lparr>send_q := [VString ''Hello''], enc_err := Some ErrClosedPipe\<rparr>"
  have h1: "send_q ?w = VString ''Hello'' # []" by simp
  have h2: "type_of go_json (VString ''Hello'') \<in> snd ` set (allowed_types ?w)"
    by (simp add: test_wc_def)
  have h3: "enc_err ?w = Some ErrClosedPipe" by simp
  show ?thesis
    using h1 h2 send_kept_error_drops [OF h1 h2 h3] by (simp add: test_wc_def error_buffer_def)
qed


end
