(* ===== verification/Inbound.thy ===== *)
theory Inbound
  imports WebChan
begin

text \<open>
  The receive goroutine of \<open>NewNamedWebChan\<close> (\<open>webchan.go\<close>, the second
  \<open>go func()\<close>).  Its program counter marks the points where it can be
  suspended: \<open>RLoop\<close> at the \<open>select\<close> on \<open>closeRecvChan\<close>, \<open>RName\<close> inside
  \<open>decoder.Decode(&typeName)\<close>, \<open>RPayload t\<close> inside the decode of the payload
  into a fresh value of type \<open>t\<close>, \<open>RPush v\<close> at \<open>wc.Recv <- v\<close>, and
  \<open>RReturned\<close> once the goroutine has returned and its deferred
  \<open>close(wc.Recv)\<close> has run.  \<open>recv_step\<close> moves from one point to the next
  (\<open>None\<close>: the goroutine is blocked there).  The loop has no termination
  argument (a kept decoder error makes it spin until \<open>Close\<close>), so \<open>recv_run\<close>
  runs it on fuel: \<open>Some\<close> of the point where it blocks or returns, \<open>None\<close> when
  the fuel runs out.
\<close>

datatype ('ty, 'v) recv_pc = RLoop | RName | RPayload 'ty | RPush 'v | RReturned

text \<open>\<open>defer func() { close(wc.Recv) }()\<close>, run when the goroutine returns.\<close>

definition recv_return :: "('v, 'ty, 'd) webchan \<Rightarrow> ('v, 'ty, 'd) webchan" where
  "recv_return w = w\<lparr>recv_closed := True\<rparr>"

text \<open>A failed \<open>Decode\<close>: return on \<open>net.ErrClosed\<close> or \<open>io.EOF\<close>, otherwise
  report a \<open>recvError\<close> and \<open>continue\<close>.\<close>

definition recv_read_error ::
  "io_error \<Rightarrow> ('v, 'ty, 'd) webchan \<Rightarrow> ('ty, 'v) recv_pc \<times> ('v, 'ty, 'd) webchan" where
  "recv_read_error e w =
     (if closed_class e then (RReturned, recv_return w) else (RLoop, try_push_error (RecvError e) w))"

definition recv_step ::
  "('v, 'ty, 'd) codec \<Rightarrow> ('ty, 'v) recv_pc \<Rightarrow> ('v, 'ty, 'd) webchan \<Rightarrow>
   (('ty, 'v) recv_pc \<times> ('v, 'ty, 'd) webchan) option" where
  "recv_step c pc w =
     (case pc of
        RLoop \<Rightarrow> (if close_recv_chan w then Some (RReturned, recv_return w) else Some (RName, w))
      | RName \<Rightarrow>
          (case json_decode (unmarshal_name c) (dec_err w) (soc w) of
             (Blocked, _, _) \<Rightarrow> None
           | (ReadErr e, k, s) \<Rightarrow> Some (recv_read_error e (w\<lparr>dec_err := k, soc := s\<rparr>))
           | (Got type_nm, k, s) \<Rightarrow>
               (let w1 = w\<lparr>dec_err := k, soc := s\<rparr> in
                case create_type_interface_reflect_pointer (allowed_types w1) type_nm of
                  None \<Rightarrow> Some (RLoop, try_push_error (RecvError (TypeNotAllowed type_nm)) w1)
                | Some t \<Rightarrow> Some (RPayload t, w1)))
      | RPayload t \<Rightarrow>
          (case json_decode (unmarshal c t) (dec_err w) (soc w) of
             (Blocked, _, _) \<Rightarrow> None
           | (ReadErr e, k, s) \<Rightarrow> Some (recv_read_error e (w\<lparr>dec_err := k, soc := s\<rparr>))
           | (Got data, k, s) \<Rightarrow> Some (RPush data, w\<lparr>dec_err := k, soc := s\<rparr>))
      | RPush data \<Rightarrow>
          (case chan_put (buf_length w) data (recv_q w) of
             None \<Rightarrow> None
           | Some q \<Rightarrow> Some (RLoop, w\<lparr>recv_q := q\<rparr>))
      | RReturned \<Rightarrow> None)"

fun recv_run ::
  "nat \<Rightarrow> ('v, 'ty, 'd) codec \<Rightarrow> ('ty, 'v) recv_pc \<Rightarrow> ('v, 'ty, 'd) webchan \<Rightarrow>
   (('ty, 'v) recv_pc \<times> ('v, 'ty, 'd) webchan) option" where
  "recv_run 0 c pc w = None"
| "recv_run (Suc n) c pc w =
     (case recv_step c pc w of
        None \<Rightarrow> Some (pc, w)
      | Some (RReturned, w') \<Rightarrow> Some (RReturned, w')
      | Some (pc', w') \<Rightarrow> recv_run n c pc' w')"

text \<open>A finished stream of whole documents: the peer has closed, every item is
  a complete document (whatever it holds), no error is kept, the socket is
  open, and \<open>Recv\<close> has room for one value per document (and for the value the
  goroutine is about to push).  \<open>recv_potential\<close> bounds the steps the
  goroutine still takes: two per document, and a few for its position.\<close>

definition finished_stream :: "('ty, 'v) recv_pc \<Rightarrow> ('v, 'ty, 'd) webchan \<Rightarrow> bool" where
  "finished_stream pc w \<longleftrightarrow>
     rx_eof (soc w) \<and> set (rx (soc w)) \<subseteq> range Doc \<and> dec_err w = None \<and> \<not> local_closed (soc w) \<and>
     pc \<noteq> RReturned \<and>
     length (recv_q w) + (case pc of RPush v \<Rightarrow> 1 | _ \<Rightarrow> 0) + length (rx (soc w)) \<le> buf_length w"

definition recv_potential :: "('ty, 'v) recv_pc \<Rightarrow> ('v, 'ty, 'd) webchan \<Rightarrow> nat" where
  "recv_potential pc w =
     2 * length (rx (soc w)) +
     (case pc of RLoop \<Rightarrow> 2 | RName \<Rightarrow> 1 | RPayload t \<Rightarrow> 2 | RPush v \<Rightarrow> 3 | RReturned \<Rightarrow> 0)"

subsection \<open>One step, branch by branch\<close>

lemma recv_step_loop_closed:
  "close_recv_chan w \<Longrightarrow> recv_step c RLoop w = Some (RReturned, w\<lparr>recv_closed := True\<rparr>)"
  by (simp add: recv_step_def recv_return_def)

lemma recv_step_loop_open:
  "\<not> close_recv_chan w \<Longrightarrow> recv_step c RLoop w = Some (RName, w)"
  by (simp add: recv_step_def)

lemma recv_step_name_kept:
  "dec_err w = Some e \<Longrightarrow> recv_step c RName w = Some (recv_read_error e w)"
  by (simp add: recv_step_def)

lemma recv_step_name_doc:
  assumes "dec_err w = None" and "\<not> local_closed (soc w)" and "rx (soc w) = Doc d # rest"
    and "unmarshal_name c d = Inr n"
  shows "recv_step c RName w =
    (let w1 = w\<lparr>soc := soc w\<lparr>rx := rest\<rparr>\<rparr> in
     case create_type_interface_reflect_pointer (allowed_types w) n of
       None \<Rightarrow> Some (RLoop, try_push_error (RecvError (TypeNotAllowed n)) w1)
     | Some t \<Rightarrow> Some (RPayload t, w1))"
  using assms by (simp add: recv_step_def json_decode_doc Let_def split: option.split)

lemma recv_step_payload_doc:
  assumes "dec_err w = None" and "\<not> local_closed (soc w)" and "rx (soc w) = Doc d # rest"
    and "unmarshal c t d = Inr v"
  shows "recv_step c (RPayload t) w = Some (RPush v, w\<lparr>soc := soc w\<lparr>rx := rest\<rparr>\<rparr>)"
  using assms by (simp add: recv_step_def json_decode_doc)

lemma recv_step_push:
  "recv_step c (RPush v) w =
     (if length (recv_q w) < buf_length w then Some (RLoop, w\<lparr>recv_q := recv_q w @ [v]\<rparr>) else None)"
  by (simp add: recv_step_def chan_put_def)

lemma recv_step_name_eof:
  assumes "dec_err w = None" and "\<not> local_closed (soc w)" and "rx (soc w) = []" and "rx_eof (soc w)"
  shows "recv_step c RName w = Some (RReturned, w\<lparr>dec_err := Some EOF, recv_closed := True\<rparr>)"
  using assms by (simp add: recv_step_def json_decode_eof recv_read_error_def recv_return_def)

lemma recv_step_bounded [wc_inv]:
  assumes "bounded w" and "recv_step c pc w = Some (pc', w')"
  shows "bounded w'"
  using assms
  by (auto simp: recv_step_def recv_read_error_def recv_return_def bounded_def Let_def
                 chan_put_def chan_try_put_length_le
           split: recv_pc.splits prod.splits read_result.splits option.splits if_splits)

subsection \<open>Runs\<close>

lemma recv_run_step:
  "recv_step c pc w = Some (pc', w') \<Longrightarrow> pc' \<noteq> RReturned \<Longrightarrow>
   recv_run (Suc n) c pc w = recv_run n c pc' w'"
  by (cases pc') simp_all

lemma recv_run_frames:
  assumes "names_roundtrip c"
    and "list_all2 (\<lambda>v (n, d). \<exists>t. create_type_interface_reflect_pointer (allowed_types w) n = Some t \<and>
                                   unmarshal c t d = Inr v) vs fr"
    and "rx (soc w) = concat (map (wire_frame c) fr)" and "rx_eof (soc w)"
    and "dec_err w = None" and "\<not> local_closed (soc w)" and "\<not> close_recv_chan w"
    and "length (recv_q w) + length vs \<le> buf_length w"
  shows "recv_run (4 * length vs + 2) c RLoop w =
     Some (RReturned, w\<lparr>recv_q := recv_q w @ vs, recv_closed := True, dec_err := Some EOF,
                         soc := soc w\<lparr>rx := []\<rparr>\<rparr>)"
  using assms(2-8)
proof (induction vs arbitrary: w fr rule: list.induct)
  case Nil
  then have "rx (soc w) = []" by simp
  then have "recv_step c RName w = Some (RReturned, w\<lparr>dec_err := Some EOF, recv_closed := True\<rparr>)"
    using Nil.prems by (intro recv_step_name_eof) simp_all
  moreover have "w\<lparr>recv_q := recv_q w @ [], recv_closed := True, dec_err := Some EOF, soc := soc w\<lparr>rx := []\<rparr>\<rparr> =
      w\<lparr>dec_err := Some EOF, recv_closed := True\<rparr>"
    using \<open>rx (soc w) = []\<close> by (cases w) simp
  ultimately show ?case
    using Nil.prems by (simp add: recv_step_loop_open numeral_2_eq_2)
next
  case (Cons v vs)
  from Cons.prems(1) obtain n d fr' where fr: "fr = (n, d) # fr'"
    and t: "\<exists>t. create_type_interface_reflect_pointer (allowed_types w) n = Some t \<and> unmarshal c t d = Inr v"
    and rest: "list_all2 (\<lambda>v (n, d). \<exists>t. create_type_interface_reflect_pointer (allowed_types w) n = Some t \<and>
                                       unmarshal c t d = Inr v) vs fr'"
    by (cases fr) auto
  from t obtain t where reg: "create_type_interface_reflect_pointer (allowed_types w) n = Some t"
    and um: "unmarshal c t d = Inr v" by blast
  let ?rest = "concat (map (wire_frame c) fr')"
  have rx: "rx (soc w) = Doc (marshal_name c n) # Doc d # ?rest"
    using Cons.prems(2) fr by simp
  let ?w1 = "w\<lparr>soc := soc w\<lparr>rx := Doc d # ?rest\<rparr>\<rparr>"
  let ?w2 = "w\<lparr>soc := soc w\<lparr>rx := ?rest\<rparr>\<rparr>"
  let ?w3 = "?w2\<lparr>recv_q := recv_q w @ [v]\<rparr>"
  have s1: "recv_step c RName w = Some (RPayload t, ?w1)"
    using recv_step_name_doc [OF Cons.prems(4,5) rx] assms(1) reg by simp
  have s2: "recv_step c (RPayload t) ?w1 = Some (RPush v, ?w2)"
    using recv_step_payload_doc [of ?w1 d ?rest c t v] Cons.prems(4,5) um by simp
  have s3: "recv_step c (RPush v) ?w2 = Some (RLoop, ?w3)"
    using Cons.prems(7) by (simp add: recv_step_push)
  have IH: "recv_run (4 * length vs + 2) c RLoop ?w3 =
     Some (RReturned, ?w3\<lparr>recv_q := recv_q ?w3 @ vs, recv_closed := True, dec_err := Some EOF,
                            soc := soc ?w3\<lparr>rx := []\<rparr>\<rparr>)"
    using rest Cons.prems(3-7) by (intro Cons.IH) simp_all
  let ?N = "4 * length vs + 2"
  have "recv_run (Suc (Suc (Suc (Suc ?N)))) c RLoop w = recv_run (Suc (Suc (Suc ?N))) c RName w"
    using Cons.prems(6) by (intro recv_run_step recv_step_loop_open) simp_all
  also have "\<dots> = recv_run (Suc (Suc ?N)) c (RPayload t) ?w1"
    using s1 by (rule recv_run_step) simp
  also have "\<dots> = recv_run (Suc ?N) c (RPush v) ?w2"
    using s2 by (rule recv_run_step) simp
  also have "\<dots> = recv_run ?N c RLoop ?w3"
    using s3 by (rule recv_run_step) simp
  finally have "recv_run (4 * length (v # vs) + 2) c RLoop w = recv_run ?N c RLoop ?w3"
    by (simp add: numeral_eq_Suc)
  with IH show ?case by simp
qed

lemma recv_run_kept_error:
  assumes "dec_err w = Some e" and "\<not> closed_class e" and "\<not> close_recv_chan w"
  shows "recv_run n c RLoop w = None \<and> recv_run n c RName w = None"
  using assms
proof (induction n arbitrary: w)
  case 0
  then show ?case by simp
next
  case (Suc n)
  let ?w' = "try_push_error (RecvError e) w"
  have name: "recv_step c RName w = Some (RLoop, ?w')"
    using Suc.prems by (simp add: recv_step_name_kept recv_read_error_def)
  have "recv_run n c RLoop ?w' = None"
    using Suc.IH [of ?w'] Suc.prems by simp
  moreover have "recv_run n c RName w = None"
    using Suc.IH [of w] Suc.prems by simp
  ultimately show ?case
    using name Suc.prems(3) by (simp add: recv_step_loop_open)
qed


subsection \<open>Properties of the receive goroutine\<close>

text \<open>C10: when the peer has written the frames of registered values and closed
  its end, the receive goroutine, given four steps per frame and two more, pushes
  exactly those values onto \<open>Recv\<close> in wire order, reports no error, returns on
  \<open>io.EOF\<close> and closes \<open>Recv\<close>, provided \<open>Recv\<close> has room for them.\<close>

theorem recv_run_delivers:
  assumes "names_roundtrip c"
    and "list_all2 (\<lambda>v (n, d). \<exists>t. create_type_interface_reflect_pointer (allowed_types w) n = Some t \<and>
                                   unmarshal c t d = Inr v) vs fr"
    and "rx (soc w) = concat (map (wire_frame c) fr)" and "rx_eof (soc w)"
    and "dec_err w = None" and "\<not> local_closed (soc w)" and "\<not> close_recv_chan w"
    and "length (recv_q w) + length vs \<le> buf_length w"
  shows "\<exists>w'. recv_run (4 * length vs + 2) c RLoop w = Some (RReturned, w') \<and>
           recv_q w' = recv_q w @ vs \<and> recv_closed w' \<and> err_q w' = err_q w \<and> rx (soc w') = []"
  using recv_run_frames [OF assms] by simp

theorem recv_run_delivers_witness:
  "list_all2 (\<lambda>v (n, d). \<exists>t. create_type_interface_reflect_pointer (allowed_types test_wc) n = Some t \<and>
                             json_unmarshal t d = Inr v)
     [VString ''Hello'', test_value]
     [(''string'', JString ''Hello''),
      (''webchan.testType'', JObject [(''A'', JNumber 42), (''B'', JString ''Hello'')])] \<and>
   (\<exists>w'. recv_run 10 go_json RLoop
           (test_wc\<lparr>soc := pipe_conn\<lparr>rx := [Doc (JString ''string''), Doc (JString ''Hello''),
              Doc (JString ''webchan.testType''), Doc (JObject [(''A'', JNumber 42), (''B'', JString ''Hello'')])],
              rx_eof := True\<rparr>\<rparr>) = Some (RReturned, w') \<and>
         recv_q w' = [VString ''Hello'', test_value] \<and> recv_closed w' \<and> err_q w' = [] \<and> rx (soc w') = [])"
proof -
  let ?fr = "[(''string'', JString ''Hello''),
              (''webchan.testType'', JObject [(''A'', JNumber 42), (''B'', JString ''Hello'')])]"
  let ?w = "test_wc\<lparr>soc := pipe_conn\<lparr>rx := concat (map (wire_frame go_json) ?fr), rx_eof := True\<rparr>\<rparr>"
  have h1: "names_roundtrip go_json" by (rule go_json_names_roundtrip)
  have h2: "list_all2 (\<lambda>v (n, d). \<exists>t. create_type_interface_reflect_pointer (allowed_types ?w) n = Some t \<and>
                                   unmarshal go_json t d = Inr v) [VString ''Hello'', test_value] ?fr"
    by (simp add: test_wc_def test_value_def create_type_interface_reflect_pointer_def)
  have h3: "rx (soc ?w) = concat (map (wire_frame go_json) ?fr)" and h4: "rx_eof (soc ?w)"
    and h5: "dec_err ?w = None" and h6: "\<not> local_closed (soc ?w)" and h7: "\<not> close_recv_chan ?w"
    and h8: "length (recv_q ?w) + length [VString ''Hello'', test_value] \<le> buf_length ?w"
    by (simp_all add: test_wc_def pipe_conn_def)
  show ?thesis
    using h2 recv_run_delivers [OF h1 h2 h3 h4 h5 h6 h7 h8] by (simp add: test_wc_def)
qed

text \<open>C28: a frame whose type name is not registered produces a \<open>recvError\<close>
  (\<open>type not allowed: name\<close>) and the goroutine goes on with its loop; the
  payload of that frame is left unread, so the next read takes it for a type name.\<close>

theorem recv_unregistered_name:
  assumes "names_roundtrip c" and "dec_err w = None" and "\<not> local_closed (soc w)"
    and "rx (soc w) = Doc (marshal_name c n) # Doc d # rest"
    and "create_type_interface_reflect_pointer (allowed_types w) n = None"
  shows "\<exists>w'. recv_step c RName w = Some (RLoop, w') \<and>
           err_q w' = chan_try_put error_buffer (RecvError (TypeNotAllowed n)) (err_q w) \<and>
           rx (soc w') = Doc d # rest \<and> recv_q w' = recv_q w \<and> recv_closed w' = recv_closed w"
  using recv_step_name_doc [OF assms(2,3,4)] assms(1,5) by (simp add: Let_def)

theorem recv_unregistered_name_witness:
  "create_type_interface_reflect_pointer (allowed_types test_wc) ''webchan.point'' = None \<and>
   (\<exists>w'. recv_step go_json RName
           (test_wc\<lparr>soc := pipe_conn\<lparr>rx := [Doc (JString ''webchan.point''),
                      Doc (JObject [(''X'', JNumber 1), (''Y'', JNumber 2)])]\<rparr>\<rparr>) = Some (RLoop, w') \<and>
         err_q w' = [RecvError (TypeNotAllowed ''webchan.point'')] \<and>
         rx (soc w') = [Doc (JObject [(''X'', JNumber 1), (''Y'', JNumber 2)])] \<and> recv_q w' = [] \<and>
         recv_closed w' = recv_closed test_wc)"
proof -
  let ?w = "test_wc\<lparr>soc := pipe_conn\<lparr>rx := [Doc (JString ''webchan.point''),
                      Doc (JObject [(''X'', JNumber 1), (''Y'', JNumber 2)])]\<rparr>\<rparr>"
  have h1: "names_roundtrip go_json" by (rule go_json_names_roundtrip)
  have h2: "dec_err ?w = None" and h3: "\<not> local_closed (soc ?w)"
    and h4: "rx (soc ?w) = Doc (marshal_name go_json ''webchan.point'') #
               Doc (JObject [(''X'', JNumber 1), (''Y'', JNumber 2)]) # []"
    by (simp_all add: test_wc_def pipe_conn_def)
  have h5: "create_type_interface_reflect_pointer (allowed_types ?w) ''webchan.point'' = None"
    by (simp add: test_wc_def create_type_interface_reflect_pointer_def)
  show ?thesis
    using h5 recv_unregistered_name [OF h1 h2 h3 h4 h5] by (simp add: test_wc_def error_buffer_def)
qed

text \<open>C29: once the decoder has kept an error other than \<open>io.EOF\<close> or
  \<open>net.ErrClosed\<close> (malformed bytes, \<open>io.ErrUnexpectedEOF\<close> from a peer that died
  mid-frame, a timeout), the receive goroutine never blocks and never returns
  while \<open>Close\<close> has not been called: every amount of fuel runs out.\<close>

theorem recv_kept_error_spins:
  assumes "dec_err w = Some e" and "\<not> closed_class e" and "\<not> close_recv_chan w"
  shows "recv_run n c RLoop w = None"
  using recv_run_kept_error [OF assms] by simp

theorem recv_kept_error_spins_witness:
  "dec_err (test_wc\<lparr>dec_err := Some ErrUnexpectedEOF\<rparr>) = Some ErrUnexpectedEOF \<and>
   \<not> closed_class ErrUnexpectedEOF \<and> \<not> close_recv_chan (test_wc\<lparr>dec_err := Some ErrUnexpectedEOF\<rparr>) \<and>
   recv_run 1000 go_json RLoop (test_wc\<lparr>dec_err := Some ErrUnexpectedEOF\<rparr>) = None"
proof -
  have h1: "dec_err (test_wc\<lparr>dec_err := Some ErrUnexpectedEOF\<rparr>) = Some ErrUnexpectedEOF" by simp
  have h2: "\<not> closed_class ErrUnexpectedEOF" by simp
  have h3: "\<not> close_recv_chan (test_wc\<lparr>dec_err := Some ErrUnexpectedEOF\<rparr>)" by (simp add: test_wc_def)
  show ?thesis
    using h1 h2 h3 recv_kept_error_spins [OF h1 h2 h3, of 1000 go_json] by blast
qed

text \<open>C33: a receive goroutine waiting to push onto a full \<open>Recv\<close> stays blocked,
  whatever \<open>Close\<close> has done, until the caller drains \<open>Recv\<close>; until then
  \<open>Recv\<close> is not closed.\<close>

theorem recv_push_blocks:
  assumes "buf_length w \<le> length (recv_q w)"
  shows "recv_run (Suc n) c (RPush v) w = Some (RPush v, w) \<and> recv_step c (RPush v) w = None"
  using assms by (simp add: recv_step_push)

theorem recv_push_blocks_witness:
  "buf_length (test_wc\<lparr>buf_length := 0, close_recv_chan := True, send_closed := True\<rparr>) \<le>
     length (recv_q (test_wc\<lparr>buf_length := 0, close_recv_chan := True, send_closed := True\<rparr>)) \<and>
   recv_run 5 go_json (RPush test_value) (test_wc\<lparr>buf_length := 0, close_recv_chan := True, send_closed := True\<rparr>) =
     Some (RPush test_value, test_wc\<lparr>buf_length := 0, close_recv_chan := True, send_closed := True\<rparr>)"
proof -
  let ?w = "test_wc\<lparr>buf_length := 0, close_recv_chan := True, send_closed := True\<rparr>"
  have h: "buf_length ?w \<le> length (recv_q ?w)" by simp
  have "recv_run (Suc 4) go_json (RPush test_value) ?w = Some (RPush test_value, ?w)"
    using recv_push_blocks [OF h] by blast
  with h show ?thesis by (simp add: numeral_eq_Suc)
qed

text \<open>C26: the receive goroutine suspends only where the spec allows: on a read
  with no complete document available (no kept error, the socket open, the peer
  not finished), on a push onto a full \<open>Recv\<close>, or once it has returned.  A full
  \<open>Error\<close> channel never blocks it.\<close>

theorem recv_step_suspends:
  "recv_step c pc w = None \<longleftrightarrow>
     pc = RReturned \<or> (\<exists>v. pc = RPush v \<and> buf_length w \<le> length (recv_q w)) \<or>
     ((pc = RName \<or> (\<exists>t. pc = RPayload t)) \<and> read_blocks (dec_err w) (soc w))"
proof (cases pc)
  case RLoop
  then show ?thesis by (simp add: recv_step_def)
next
  case RName
  obtain r k s where d: "json_decode (unmarshal_name c) (dec_err w) (soc w) = (r, k, s)"
    by (metis prod_cases3)
  with RName show ?thesis
    using json_decode_Blocked_iff [of "unmarshal_name c" "dec_err w" "soc w"]
    by (cases r) (auto simp: recv_step_def Let_def split: option.splits)
next
  case (RPayload t)
  obtain r k s where d: "json_decode (unmarshal c t) (dec_err w) (soc w) = (r, k, s)"
    by (metis prod_cases3)
  with RPayload show ?thesis
    using json_decode_Blocked_iff [of "unmarshal c t" "dec_err w" "soc w"]
    by (cases r) (auto simp: recv_step_def)
next
  case (RPush v)
  then show ?thesis by (simp add: recv_step_def chan_put_def)
next
  case RReturned
  then show ?thesis by (simp add: recv_step_def)
qed


subsection \<open>Termination on a finished stream\<close>

lemma recv_read_error_cases:
  "recv_read_error e w = (pc', w') \<Longrightarrow>
   (pc' = RReturned \<and> recv_closed w') \<or> (pc' = RLoop \<and> w' = try_push_error (RecvError e) w)"
  by (auto simp: recv_read_error_def recv_return_def split: if_splits)

lemma recv_step_returns_closed:
  "recv_step c pc w = Some (RReturned, w') \<Longrightarrow> recv_closed w'"
  by (auto simp: recv_step_def recv_read_error_def recv_return_def Let_def
           split: recv_pc.splits prod.splits read_result.splits option.splits if_splits)

lemma recv_run_mono:
  "recv_run n c pc w = Some (RReturned, w') \<Longrightarrow> n \<le> m \<Longrightarrow> recv_run m c pc w = Some (RReturned, w')"
proof (induction n arbitrary: m pc w)
  case 0
  then show ?case by simp
next
  case (Suc n)
  then obtain m' where m: "m = Suc m'" and le: "n \<le> m'" by (cases m) auto
  show ?case
  proof (cases "recv_step c pc w")
    case None
    with Suc.prems m show ?thesis by simp
  next
    case (Some r)
    obtain pc' w'' where r: "r = (pc', w'')" by fastforce
    show ?thesis
    proof (cases "pc' = RReturned")
      case True
      with Suc.prems m Some r show ?thesis by simp
    next
      case False
      have st: "recv_step c pc w = Some (pc', w'')" using Some r by simp
      have "recv_run n c pc' w'' = Some (RReturned, w')"
        using Suc.prems(1) unfolding recv_run_step [OF st False] .
      then have "recv_run m' c pc' w'' = Some (RReturned, w')" using le by (rule Suc.IH)
      then show ?thesis unfolding m recv_run_step [OF st False] .
    qed
  qed
qed

lemma finished_read_error:
  assumes "finished_stream pc' w" and "recv_potential RLoop w < recv_potential pc0 w0"
  shows "\<exists>pc'' w'. Some (recv_read_error e w) = Some (pc'', w') \<and>
           (pc'' = RReturned \<or> (finished_stream pc'' w' \<and> recv_potential pc'' w' < recv_potential pc0 w0))"
  using assms
  by (auto simp: recv_read_error_def recv_return_def finished_stream_def recv_potential_def
           split: recv_pc.splits)

lemma finished_stream_step:
  assumes "finished_stream pc w"
  shows "\<exists>pc' w'. recv_step c pc w = Some (pc', w') \<and>
           (pc' = RReturned \<or> (finished_stream pc' w' \<and> recv_potential pc' w' < recv_potential pc w))"
proof -
  have f: "rx_eof (soc w)" "set (rx (soc w)) \<subseteq> range Doc" "dec_err w = None" "\<not> local_closed (soc w)"
    "pc \<noteq> RReturned"
    using assms by (simp_all add: finished_stream_def)
  show ?thesis
  proof (cases pc)
    case RLoop
    with assms show ?thesis
      by (cases "close_recv_chan w")
         (simp_all add: recv_step_loop_closed recv_step_loop_open finished_stream_def recv_potential_def)
  next
    case RName
    show ?thesis
    proof (cases "rx (soc w)")
      case Nil
      with RName f show ?thesis by (simp add: recv_step_name_eof)
    next
      case (Cons x r)
      with f(2) obtain d where x: "x = Doc d" by auto
      let ?w1 = "w\<lparr>soc := soc w\<lparr>rx := r\<rparr>\<rparr>"
      have fin: "finished_stream RLoop ?w1" "finished_stream (RPayload t) ?w1" for t
        using assms RName Cons f by (auto simp: finished_stream_def)
      have pot: "recv_potential RLoop ?w1 < recv_potential pc w" "recv_potential (RPayload t) ?w1 < recv_potential pc w"
        for t using RName Cons by (simp_all add: recv_potential_def)
      show ?thesis
      proof (cases "unmarshal_name c d")
        case (Inl e)
        have "recv_step c pc w = Some (recv_read_error e ?w1)"
          using RName Cons x f Inl by (simp add: recv_step_def json_decode_doc)
        with finished_read_error [OF fin(1) pot(1)] show ?thesis by simp
      next
        case (Inr n)
        have step: "recv_step c pc w =
          (case create_type_interface_reflect_pointer (allowed_types w) n of
             None \<Rightarrow> Some (RLoop, try_push_error (RecvError (TypeNotAllowed n)) ?w1)
           | Some t \<Rightarrow> Some (RPayload t, ?w1))"
          using recv_step_name_doc [OF f(3,4) _ Inr] RName Cons x by (simp add: Let_def)
        have "finished_stream RLoop (try_push_error e ?w1)" for e
          using fin(1) by (simp add: finished_stream_def)
        moreover have "recv_potential RLoop (try_push_error e ?w1) < recv_potential pc w" for e
          using pot(1) by (simp add: recv_potential_def)
        ultimately show ?thesis using step fin pot by (auto split: option.splits)
      qed
    qed
  next
    case (RPayload t)
    show ?thesis
    proof (cases "rx (soc w)")
      case Nil
      with RPayload f show ?thesis
        by (simp add: recv_step_def json_decode_eof recv_read_error_def)
    next
      case (Cons x r)
      with f(2) obtain d where x: "x = Doc d" by auto
      let ?w1 = "w\<lparr>soc := soc w\<lparr>rx := r\<rparr>\<rparr>"
      have fin: "finished_stream RLoop ?w1" "finished_stream (RPush v) ?w1" for v
        using assms RPayload Cons f by (auto simp: finished_stream_def)
      have pot: "recv_potential RLoop ?w1 < recv_potential pc w" "recv_potential (RPush v) ?w1 < recv_potential pc w"
        for v using RPayload Cons by (simp_all add: recv_potential_def)
      show ?thesis
      proof (cases "unmarshal c t d")
        case (Inl e)
        have "recv_step c pc w = Some (recv_read_error e ?w1)"
          using RPayload Cons x f Inl by (simp add: recv_step_def json_decode_doc)
        with finished_read_error [OF fin(1) pot(1)] show ?thesis by simp
      next
        case (Inr v)
        have "recv_step c pc w = Some (RPush v, ?w1)"
          using recv_step_payload_doc [OF f(3,4) _ Inr] RPayload Cons x by simp
        with fin pot show ?thesis by blast
      qed
    qed
  next
    case (RPush v)
    with assms have "length (recv_q w) < buf_length w"
      by (simp add: finished_stream_def)
    with RPush assms show ?thesis
      by (simp add: recv_step_push finished_stream_def recv_potential_def)
  next
    case RReturned
    with f(5) show ?thesis by simp
  qed
qed

lemma recv_run_finished:
  "finished_stream pc w \<Longrightarrow>
   \<exists>w'. recv_run (Suc (recv_potential pc w)) c pc w = Some (RReturned, w') \<and> recv_closed w'"
proof (induction "recv_potential pc w" arbitrary: pc w rule: less_induct)
  case less
  from finished_stream_step [OF less.prems] obtain pc' w' where st: "recv_step c pc w = Some (pc', w')"
    and next': "pc' = RReturned \<or> (finished_stream pc' w' \<and> recv_potential pc' w' < recv_potential pc w)"
    by blast
  show ?case
  proof (cases "pc' = RReturned")
    case True
    with st show ?thesis by (auto dest: recv_step_returns_closed)
  next
    case False
    with next' have fin: "finished_stream pc' w'" and lt: "recv_potential pc' w' < recv_potential pc w"
      by simp_all
    from less.hyps [OF lt fin] obtain w'' where
      r: "recv_run (Suc (recv_potential pc' w')) c pc' w' = Some (RReturned, w'')" and cl: "recv_closed w''"
      by blast
    have "recv_run (recv_potential pc w) c pc' w' = Some (RReturned, w'')"
      using recv_run_mono [OF r] lt by simp
    then show ?thesis using cl unfolding recv_run_step [OF st False] by blast
  qed
qed

subsection \<open>Properties of the receive goroutine\<close>

text \<open>C7: termination of the receive loop: once the peer has closed and the
  stream holds only complete documents, whatever they contain (unregistered type
  names, payloads of the wrong type, frames out of step), the receive goroutine
  returns and closes \<open>Recv\<close> within two steps per document and four more,
  provided \<open>Recv\<close> has room for what it decodes.\<close>

theorem recv_run_terminates:
  assumes "finished_stream pc w"
  shows "\<exists>w'. recv_run (2 * length (rx (soc w)) + 4) c pc w = Some (RReturned, w') \<and> recv_closed w'"
proof -
  obtain w' where r: "recv_run (Suc (recv_potential pc w)) c pc w = Some (RReturned, w')" and "recv_closed w'"
    using recv_run_finished [OF assms] by blast
  moreover have "Suc (recv_potential pc w) \<le> 2 * length (rx (soc w)) + 4"
    by (simp add: recv_potential_def split: recv_pc.split)
  ultimately show ?thesis using recv_run_mono by blast
qed

theorem recv_run_terminates_witness:
  "finished_stream RLoop (test_wc\<lparr>soc := pipe_conn\<lparr>rx := [Doc (JString ''nope''), Doc (JNumber 1),
      Doc (JString ''string''), Doc (JNumber 2)], rx_eof := True\<rparr>\<rparr>) \<and>
   (\<exists>w'. recv_run 12 go_json RLoop (test_wc\<lparr>soc := pipe_conn\<lparr>rx := [Doc (JString ''nope''), Doc (JNumber 1),
      Doc (JString ''string''), Doc (JNumber 2)], rx_eof := True\<rparr>\<rparr>) = Some (RReturned, w') \<and> recv_closed w')"
proof -
  let ?w = "test_wc\<lparr>soc := pipe_conn\<lparr>rx := [Doc (JString ''nope''), Doc (JNumber 1),
      Doc (JString ''string''), Doc (JNumber 2)], rx_eof := True\<rparr>\<rparr>"
  have h: "finished_stream RLoop ?w" by (simp add: finished_stream_def test_wc_def pipe_conn_def)
  from recv_run_terminates [OF h, of go_json] h show ?thesis by simp
qed

end
