(* ===== verification/Lifecycle.thy ===== *)
theory Lifecycle
  imports Outbound Inbound
begin

text \<open>
  \<open>Close()\<close> and the whole running endpoint.  \<open>Close\<close> (\<open>webchan.go\<close>) first
  tests \<open>closeRecvChan\<close> with a non-blocking \<open>select\<close> and, when it is still
  open, closes \<open>closeRecvChan\<close>, then \<open>Send\<close>, then the socket.  The test and
  the closing are separate steps: a goroutine calling \<open>Close\<close> is idle, has
  seen the channel open and is about to close (\<open>CActing\<close>), or has returned.
  \<open>close_wc\<close> is one uninterrupted call.  The endpoint as a concurrent system is
  the struct, the program counters of the two worker goroutines, the callers of
  \<open>Close\<close>, and the panic that ends the process; \<open>sys_step\<close> has one rule per
  kind of step any goroutine or the peer can take, and \<open>reach\<close> gives the states
  reachable from a start state.  A channel of capacity 0 (\<open>bufLength = 0\<close>) is a
  rendezvous: \<open>send_handoff\<close> passes the caller's value straight to the waiting
  send goroutine and \<open>recv_handoff\<close> the receive goroutine's value straight to a
  caller of \<open>Recv\<close>.
\<close>

datatype close_pc = CIdle | CActing | CDone

text \<open>\<open>close(wc.closeRecvChan); close(wc.Send); wc.soc.Close()\<close>, each \<open>close\<close> of
  a channel that is already closed being a runtime panic.\<close>

definition close_act :: "('v, 'ty, 'd) webchan \<Rightarrow> go_panic + ('v, 'ty, 'd) webchan" where
  "close_act w =
     (if close_recv_chan w then Inl CloseOfClosedChannel
      else if send_closed w then Inl CloseOfClosedChannel
      else Inr (w\<lparr>close_recv_chan := True, send_closed := True,
                  soc := soc w\<lparr>local_closed := True\<rparr>\<rparr>))"

definition close_wc :: "('v, 'ty, 'd) webchan \<Rightarrow> go_panic + ('v, 'ty, 'd) webchan" where
  "close_wc w = (if close_recv_chan w then Inr w else close_act w)"

text \<open>The caller's side of the three exported channels.\<close>

definition user_send :: "'v \<Rightarrow> ('v, 'ty, 'd) webchan \<Rightarrow> (go_panic + ('v, 'ty, 'd) webchan) option" where
  "user_send v w =
     (if send_closed w then Some (Inl SendOnClosedChannel)
      else map_option (\<lambda>q. Inr (w\<lparr>send_q := q\<rparr>)) (chan_put (buf_length w) v (send_q w)))"

definition user_recv :: "('v, 'ty, 'd) webchan \<Rightarrow> ('v option \<times> ('v, 'ty, 'd) webchan) option" where
  "user_recv w =
     (case recv_q w of
        v # rest \<Rightarrow> Some (Some v, w\<lparr>recv_q := rest\<rparr>)
      | [] \<Rightarrow> (if recv_closed w then Some (None, w) else None))"

record ('v, 'ty, 'd) sys =
  chan :: "('v, 'ty, 'd) webchan"
  spc :: send_pc
  rpc :: "('ty, 'v) recv_pc"
  closers :: "close_pc list"
  panicked :: "go_panic option"

definition init_sys :: "('v, 'ty, 'd) webchan \<Rightarrow> nat \<Rightarrow> ('v, 'ty, 'd) sys" where
  "init_sys w n = \<lparr>chan = w, spc = SRunning, rpc = RLoop, closers = replicate n CIdle, panicked = None\<rparr>"

definition panic_of :: "send_pc \<Rightarrow> go_panic option" where
  "panic_of pc = (case pc of SPanicked p \<Rightarrow> Some p | _ \<Rightarrow> None)"

inductive sys_step :: "('v, 'ty, 'd) codec \<Rightarrow> ('v, 'ty, 'd) sys \<Rightarrow> ('v, 'ty, 'd) sys \<Rightarrow> bool"
  for c :: "('v, 'ty, 'd) codec" where
  sender:
    "panicked s = None \<Longrightarrow> spc s = SRunning \<Longrightarrow> send_step c (chan s) = Some (pc, w) \<Longrightarrow>
     sys_step c s (s\<lparr>chan := w, spc := pc, panicked := panic_of pc\<rparr>)"
| receiver:
    "panicked s = None \<Longrightarrow> recv_step c (rpc s) (chan s) = Some (pc, w) \<Longrightarrow>
     sys_step c s (s\<lparr>chan := w, rpc := pc\<rparr>)"
| send_handoff:
    "panicked s = None \<Longrightarrow> spc s = SRunning \<Longrightarrow> \<not> send_closed (chan s) \<Longrightarrow> send_q (chan s) = [] \<Longrightarrow>
     buf_length (chan s) = 0 \<Longrightarrow> send_step c ((chan s)\<lparr>send_q := [v]\<rparr>) = Some (pc, w) \<Longrightarrow>
     sys_step c s (s\<lparr>chan := w, spc := pc, panicked := panic_of pc\<rparr>)"
| recv_handoff:
    "panicked s = None \<Longrightarrow> rpc s = RPush v \<Longrightarrow> recv_q (chan s) = [] \<Longrightarrow> buf_length (chan s) = 0 \<Longrightarrow>
     sys_step c s (s\<lparr>rpc := RLoop\<rparr>)"
| send_ok:
    "panicked s = None \<Longrightarrow> user_send v (chan s) = Some (Inr w) \<Longrightarrow> sys_step c s (s\<lparr>chan := w\<rparr>)"
| send_panic:
    "panicked s = None \<Longrightarrow> user_send v (chan s) = Some (Inl p) \<Longrightarrow> sys_step c s (s\<lparr>panicked := Some p\<rparr>)"
| recv:
    "panicked s = None \<Longrightarrow> user_recv (chan s) = Some (r, w) \<Longrightarrow> sys_step c s (s\<lparr>chan := w\<rparr>)"
| recv_error:
    "panicked s = None \<Longrightarrow> err_q (chan s) = e # rest \<Longrightarrow>
     sys_step c s (s\<lparr>chan := chan s\<lparr>err_q := rest\<rparr>\<rparr>)"
| close_select:
    "panicked s = None \<Longrightarrow> i < length (closers s) \<Longrightarrow> closers s ! i = CIdle \<Longrightarrow>
     sys_step c s (s\<lparr>closers := (closers s)[i := if close_recv_chan (chan s) then CDone else CActing]\<rparr>)"
| close_ok:
    "panicked s = None \<Longrightarrow> i < length (closers s) \<Longrightarrow> closers s ! i = CActing \<Longrightarrow>
     close_act (chan s) = Inr w \<Longrightarrow> sys_step c s (s\<lparr>chan := w, closers := (closers s)[i := CDone]\<rparr>)"
| close_panic:
    "panicked s = None \<Longrightarrow> i < length (closers s) \<Longrightarrow> closers s ! i = CActing \<Longrightarrow>
     close_act (chan s) = Inl p \<Longrightarrow> sys_step c s (s\<lparr>panicked := Some p\<rparr>)"
| peer_write:
    "panicked s = None \<Longrightarrow> \<not> rx_eof (soc (chan s)) \<Longrightarrow>
     sys_step c s (s\<lparr>chan := chan s\<lparr>soc := soc (chan s)\<lparr>rx := rx (soc (chan s)) @ [x]\<rparr>\<rparr>\<rparr>)"
| peer_close:
    "panicked s = None \<Longrightarrow>
     sys_step c s (s\<lparr>chan := chan s\<lparr>soc := soc (chan s)\<lparr>rx_eof := True, peer_closed := True\<rparr>\<rparr>\<rparr>)"

inductive reach :: "('v, 'ty, 'd) codec \<Rightarrow> ('v, 'ty, 'd) sys \<Rightarrow> ('v, 'ty, 'd) sys \<Rightarrow> bool"
  for c :: "('v, 'ty, 'd) codec" and s0 :: "('v, 'ty, 'd) sys" where
  start: "reach c s0 s0"
| step: "reach c s0 s \<Longrightarrow> sys_step c s t \<Longrightarrow> reach c s0 t"

inductive_cases sys_stepE: "sys_step c s t"

definition sys_inv :: "('v, 'ty, 'd) sys \<Rightarrow> bool" where
  "sys_inv s \<longleftrightarrow> bounded (chan s) \<and> (recv_closed (chan s) \<longrightarrow> rpc s = RReturned) \<and>
     (close_recv_chan (chan s) \<longleftrightarrow> send_closed (chan s)) \<and>
     (send_closed (chan s) \<longrightarrow> local_closed (soc (chan s)))"

definition one_closer_inv :: "('v, 'ty, 'd) sys \<Rightarrow> bool" where
  "one_closer_inv s \<longleftrightarrow> length (closers s) = 1 \<and>
     (closers s ! 0 = CActing \<longrightarrow> \<not> close_recv_chan (chan s)) \<and>
     panicked s \<noteq> Some CloseOfClosedChannel"

subsection \<open>Frame facts of the worker steps\<close>

text \<open>The worker goroutines never touch the closed flags of \<open>closeRecvChan\<close> and
  \<open>Send\<close> nor close the socket; the receiver closes \<open>Recv\<close> only when it returns.\<close>

lemma send_step_flags:
  assumes "send_step c w = Some (pc, w')"
  shows "close_recv_chan w' = close_recv_chan w \<and> send_closed w' = send_closed w \<and>
         recv_closed w' = recv_closed w \<and> local_closed (soc w') = local_closed (soc w)"
proof (cases "send_q w")
  case Nil
  with assms show ?thesis by (simp split: if_splits)
next
  case (Cons data rest)
  have "encode_frame c n data (w\<lparr>send_q := rest\<rparr>) = (r, w2) \<Longrightarrow>
        close_recv_chan w2 = close_recv_chan w \<and> send_closed w2 = send_closed w \<and>
        recv_closed w2 = recv_closed w \<and> local_closed (soc w2) = local_closed (soc w)" for n r w2
    by (drule encode_frame_send_q) simp
  with assms Cons show ?thesis
    by (auto simp: send_step_def Let_def split: option.splits prod.splits)
qed

lemma recv_step_flags:
  assumes "recv_step c pc w = Some (pc', w')"
  shows "close_recv_chan w' = close_recv_chan w \<and> send_closed w' = send_closed w \<and>
         (recv_closed w' \<longrightarrow> recv_closed w \<or> pc' = RReturned) \<and>
         local_closed (soc w') = local_closed (soc w)"
proof (cases pc)
  case RLoop
  with assms show ?thesis by (auto simp: recv_step_def recv_return_def split: if_splits)
next
  case RName
  obtain r k s where d: "json_decode (unmarshal_name c) (dec_err w) (soc w) = (r, k, s)"
    by (metis prod_cases3)
  then have "local_closed s = local_closed (soc w)" by (rule json_decode_local_closed)
  with assms RName d show ?thesis
    by (cases r) (auto simp: recv_step_def recv_read_error_def recv_return_def Let_def
                        split: option.splits if_splits)
next
  case (RPayload t)
  obtain r k s where d: "json_decode (unmarshal c t) (dec_err w) (soc w) = (r, k, s)"
    by (metis prod_cases3)
  then have "local_closed s = local_closed (soc w)" by (rule json_decode_local_closed)
  with assms RPayload d show ?thesis
    by (cases r) (auto simp: recv_step_def recv_read_error_def recv_return_def split: if_splits)
next
  case (RPush v)
  with assms show ?thesis by (auto simp: recv_step_def split: option.splits)
next
  case RReturned
  with assms show ?thesis by (simp add: recv_step_def)
qed

lemma recv_step_returned [simp]: "recv_step c RReturned w = None"
  by (simp add: recv_step_def)

lemma close_act_Inr:
  "close_act w = Inr w' \<longleftrightarrow> \<not> close_recv_chan w \<and> \<not> send_closed w \<and>
     w' = w\<lparr>close_recv_chan := True, send_closed := True, soc := soc w\<lparr>local_closed := True\<rparr>\<rparr>"
  by (auto simp: close_act_def)

lemma close_act_Inl:
  "close_act w = Inl p \<longleftrightarrow> (close_recv_chan w \<or> send_closed w) \<and> p = CloseOfClosedChannel"
  by (auto simp: close_act_def)

lemma user_send_Inr:
  "user_send v w = Some (Inr w') \<longleftrightarrow>
     \<not> send_closed w \<and> length (send_q w) < buf_length w \<and> w' = w\<lparr>send_q := send_q w @ [v]\<rparr>"
  by (auto simp: user_send_def chan_put_def)

lemma user_send_Inl:
  "user_send v w = Some (Inl p) \<longleftrightarrow> send_closed w \<and> p = SendOnClosedChannel"
  by (auto simp: user_send_def chan_put_def)

lemma user_recv_Some:
  "user_recv w = Some (r, w') \<Longrightarrow> w' = w\<lparr>recv_q := drop 1 (recv_q w)\<rparr> \<and> (r = None \<longrightarrow> recv_closed w)"
  by (auto simp: user_recv_def split: list.splits if_splits)

subsection \<open>The invariant\<close>

lemma sys_step_inv:
  assumes "sys_step c s t" and "sys_inv s"
  shows "sys_inv t"
  using assms
proof (induction rule: sys_step.induct)
  case (sender s pc w)
  then show ?case
    using send_step_bounded [of "chan s" c pc w] send_step_flags [of c "chan s" pc w]
    by (auto simp: sys_inv_def)
next
  case (receiver s pc w)
  then show ?case
    using recv_step_bounded [of "chan s" c "rpc s" pc w] recv_step_flags [of c "rpc s" "chan s" pc w]
    by (auto simp: sys_inv_def)
next
  case (send_handoff s v pc w)
  then show ?case
    using send_step_handoff_bounded [of "chan s" c v pc w]
      send_step_flags [of c "(chan s)\<lparr>send_q := [v]\<rparr>" pc w]
    by (auto simp: sys_inv_def)
next
  case (send_ok s v w)
  then show ?case by (auto simp: sys_inv_def user_send_Inr bounded_def)
next
  case (recv s r w)
  then show ?case by (auto simp: sys_inv_def bounded_def dest!: user_recv_Some)
next
  case (recv_error s e rest)
  then show ?case by (auto simp: sys_inv_def bounded_def)
next
  case (close_ok s i w)
  then show ?case by (auto simp: sys_inv_def close_act_Inr bounded_def)
qed (auto simp: sys_inv_def bounded_def)

lemma reach_inv:
  "reach c s0 s \<Longrightarrow> sys_inv s0 \<Longrightarrow> sys_inv s"
  by (induction rule: reach.induct) (auto intro: sys_step_inv)


lemma init_sys_inv:
  "new_named_webchan c s buf allowed = Inr w \<Longrightarrow> sys_inv (init_sys w n)"
  by (auto simp: new_named_webchan_Inr sys_inv_def init_sys_def bounded_def)

lemma send_step_panic:
  assumes "send_step c w = Some (pc, w')"
  shows "panic_of pc \<noteq> Some CloseOfClosedChannel"
proof (cases "send_q w")
  case Nil
  with assms show ?thesis by (auto simp: panic_of_def split: if_splits)
next
  case (Cons data rest)
  with assms show ?thesis
    by (auto simp: send_step_def panic_of_def Let_def split: option.splits prod.splits)
qed

lemma sys_step_one_closer:
  assumes "sys_step c s t" and "sys_inv s" and "one_closer_inv s"
  shows "one_closer_inv t"
  using assms
proof (induction rule: sys_step.induct)
  case (sender s pc w)
  then show ?case
    using send_step_flags [of c "chan s" pc w] send_step_panic [of c "chan s" pc w]
    by (simp add: one_closer_inv_def)
next
  case (receiver s pc w)
  then show ?case
    using recv_step_flags [of c "rpc s" "chan s" pc w] by (simp add: one_closer_inv_def)
next
  case (send_handoff s v pc w)
  then show ?case
    using send_step_flags [of c "(chan s)\<lparr>send_q := [v]\<rparr>" pc w]
      send_step_panic [of c "(chan s)\<lparr>send_q := [v]\<rparr>" pc w]
    by (simp add: one_closer_inv_def)
next
  case (send_ok s v w)
  then show ?case by (auto simp: one_closer_inv_def user_send_Inr)
next
  case (send_panic s v p)
  then show ?case by (auto simp: one_closer_inv_def user_send_Inl)
next
  case (recv s r w)
  then show ?case by (auto simp: one_closer_inv_def dest!: user_recv_Some)
next
  case (close_select s i)
  then show ?case by (auto simp: one_closer_inv_def)
next
  case (close_ok s i w)
  then show ?case by (auto simp: one_closer_inv_def)
next
  case (close_panic s i p)
  then show ?case by (auto simp: one_closer_inv_def sys_inv_def close_act_Inl)
qed (simp_all add: one_closer_inv_def)

lemma reach_one_closer:
  "reach c s0 s \<Longrightarrow> sys_inv s0 \<Longrightarrow> one_closer_inv s0 \<Longrightarrow> one_closer_inv s"
proof (induction rule: reach.induct)
  case start
  then show ?case by blast
next
  case (step s t)
  then show ?case using reach_inv sys_step_one_closer by blast
qed

lemma recv_after_close_steps:
  assumes "close_recv_chan w" and "local_closed (soc w)" and "dec_err w = None"
  shows "recv_step c RName w =
     Some (recv_read_error (local_err (soc w)) (w\<lparr>dec_err := Some (local_err (soc w))\<rparr>))"
  using assms by (simp add: recv_step_def json_decode_def)

lemma recv_step_read_closed:
  assumes "local_closed (soc w)" and "pc = RName \<or> pc = RPayload t"
  obtains e where "recv_step c pc w = Some (recv_read_error e (w\<lparr>dec_err := Some e\<rparr>))"
proof -
  obtain e1 where e1: "json_decode (unmarshal_name c) (dec_err w) (soc w) = (ReadErr e1, Some e1, soc w)"
    using json_decode_closed [OF assms(1)] by blast
  obtain e2 where e2: "json_decode (unmarshal c t) (dec_err w) (soc w) = (ReadErr e2, Some e2, soc w)"
    using json_decode_closed [OF assms(1)] by blast
  show ?thesis
    using assms(2) e1 e2 that by (auto simp: recv_step_def)
qed

lemma recv_run_loop_closed:
  "close_recv_chan w \<Longrightarrow> recv_run (Suc n) c RLoop w = Some (RReturned, w\<lparr>recv_closed := True\<rparr>)"
  by (simp add: recv_step_loop_closed)

lemma recv_run_read_closed:
  assumes "close_recv_chan w" and "local_closed (soc w)" and "pc = RName \<or> pc = RPayload t"
  shows "\<exists>w'. recv_run 2 c pc w = Some (RReturned, w') \<and> recv_closed w' \<and> recv_q w' = recv_q w"
proof -
  obtain e where step: "recv_step c pc w = Some (recv_read_error e (w\<lparr>dec_err := Some e\<rparr>))"
    using assms(2,3) by (rule recv_step_read_closed)
  show ?thesis
  proof (cases "closed_class e")
    case True
    with step show ?thesis
      by (simp add: recv_read_error_def recv_return_def numeral_2_eq_2)
  next
    case False
    let ?w1 = "try_push_error (RecvError e) (w\<lparr>dec_err := Some e\<rparr>)"
    have "recv_run 2 c pc w = recv_run 1 c RLoop ?w1"
      using step False by (simp add: recv_read_error_def numeral_2_eq_2)
    also have "\<dots> = Some (RReturned, ?w1\<lparr>recv_closed := True\<rparr>)"
      using assms(1) recv_run_loop_closed [of ?w1 0 c] by simp
    finally show ?thesis by simp
  qed
qed

lemma close_wc_first:
  "\<not> close_recv_chan w \<Longrightarrow> close_wc w = Inr w1 \<Longrightarrow>
   w1 = w\<lparr>close_recv_chan := True, send_closed := True, soc := soc w\<lparr>local_closed := True\<rparr>\<rparr>"
  by (simp add: close_wc_def close_act_Inr)

subsection \<open>Properties of the lifecycle\<close>





text \<open>C22: two goroutines calling \<open>Close\<close> at the same time can both find
  \<open>closeRecvChan\<close> open; the second then closes a closed channel and the process
  panics.  \<open>Close\<close> is not safe for concurrent use.\<close>

theorem concurrent_close_panics:
  "\<exists>s. reach go_json (init_sys test_wc 2) s \<and> panicked s = Some CloseOfClosedChannel"
proof -
  let ?s0 = "init_sys test_wc 2"
  let ?s1 = "?s0\<lparr>closers := [CActing, CIdle]\<rparr>"
  let ?s2 = "?s0\<lparr>closers := [CActing, CActing]\<rparr>"
  let ?w = "test_wc\<lparr>close_recv_chan := True, send_closed := True, soc := pipe_conn\<lparr>local_closed := True\<rparr>\<rparr>"
  let ?s3 = "?s0\<lparr>chan := ?w, closers := [CDone, CActing]\<rparr>"
  have nc: "\<not> close_recv_chan test_wc" "\<not> send_closed test_wc" "soc test_wc = pipe_conn"
    by (simp_all add: test_wc_def)
  have "sys_step go_json ?s0 ?s1"
    using sys_step.close_select [of ?s0 0 go_json] nc by (simp add: init_sys_def numeral_2_eq_2)
  moreover have "sys_step go_json ?s1 ?s2"
    using sys_step.close_select [of ?s1 1 go_json] nc by (simp add: init_sys_def)
  moreover have "sys_step go_json ?s2 ?s3"
    using sys_step.close_ok [of ?s2 0 ?w go_json] nc by (simp add: init_sys_def close_act_Inr)
  moreover have "sys_step go_json ?s3 (?s3\<lparr>panicked := Some CloseOfClosedChannel\<rparr>)"
    using sys_step.close_panic [of ?s3 1 CloseOfClosedChannel go_json] by (simp add: init_sys_def close_act_def)
  ultimately have "reach go_json ?s0 (?s3\<lparr>panicked := Some CloseOfClosedChannel\<rparr>)"
    by (meson reach.start reach.step)
  then show ?thesis by fastforce
qed

text \<open>C23: called twice in a row, \<open>Close\<close> never panics; the first call closes
  \<open>closeRecvChan\<close>, \<open>Send\<close> and the socket, the second changes nothing.\<close>

theorem close_idempotent:
  assumes "close_recv_chan w \<longleftrightarrow> send_closed w"
  shows "\<exists>w1. close_wc w = Inr w1 \<and> close_wc w1 = Inr w1 \<and> close_recv_chan w1 \<and> send_closed w1 \<and>
           (close_recv_chan w \<or> local_closed (soc w1)) \<and> recv_q w1 = recv_q w \<and> err_q w1 = err_q w"
proof (cases "close_recv_chan w")
  case True
  with assms have "send_closed w" by simp
  with True show ?thesis by (simp add: close_wc_def)
next
  case False
  with assms have "\<not> send_closed w" by simp
  with False show ?thesis by (simp add: close_wc_def close_act_def)
qed

theorem close_idempotent_witness:
  "(close_recv_chan test_wc \<longleftrightarrow> send_closed test_wc) \<and>
   close_wc test_wc = Inr (test_wc\<lparr>close_recv_chan := True, send_closed := True,
                                   soc := pipe_conn\<lparr>local_closed := True\<rparr>\<rparr>) \<and>
   (\<exists>w1. close_wc test_wc = Inr w1 \<and> close_wc w1 = Inr w1 \<and> close_recv_chan w1 \<and> send_closed w1 \<and>
         (close_recv_chan test_wc \<or> local_closed (soc w1)) \<and> recv_q w1 = recv_q test_wc \<and> err_q w1 = err_q test_wc)"
proof -
  have h: "close_recv_chan test_wc \<longleftrightarrow> send_closed test_wc" by (simp add: test_wc_def)
  have "close_wc test_wc = Inr (test_wc\<lparr>close_recv_chan := True, send_closed := True,
                                   soc := pipe_conn\<lparr>local_closed := True\<rparr>\<rparr>)"
    by (simp add: close_wc_def close_act_def test_wc_def)
  with h close_idempotent [OF h] show ?thesis by blast
qed

text \<open>C34: after \<open>Close\<close>, a caller that sends on \<open>Send\<close> panics
  (\<open>send on closed channel\<close>): nothing more is accepted.\<close>

theorem send_after_close_panics:
  assumes "close_recv_chan w \<longleftrightarrow> send_closed w" and "close_wc w = Inr w1"
  shows "user_send v w1 = Some (Inl SendOnClosedChannel)"
proof -
  have "send_closed w1"
  proof (cases "close_recv_chan w")
    case True
    with assms show ?thesis by (simp add: close_wc_def)
  next
    case False
    with assms(2) show ?thesis by (auto simp: close_wc_def close_act_def split: if_splits)
  qed
  then show ?thesis by (simp add: user_send_def)
qed

theorem send_after_close_panics_witness:
  "(close_recv_chan test_wc \<longleftrightarrow> send_closed test_wc) \<and>
   close_wc test_wc = Inr (test_wc\<lparr>close_recv_chan := True, send_closed := True,
                                   soc := pipe_conn\<lparr>local_closed := True\<rparr>\<rparr>) \<and>
   user_send (VString ''late'') (test_wc\<lparr>close_recv_chan := True, send_closed := True,
                                   soc := pipe_conn\<lparr>local_closed := True\<rparr>\<rparr>) = Some (Inl SendOnClosedChannel)"
proof -
  have h0: "close_recv_chan test_wc \<longleftrightarrow> send_closed test_wc" by (simp add: test_wc_def)
  have h: "close_wc test_wc = Inr (test_wc\<lparr>close_recv_chan := True, send_closed := True,
                                   soc := pipe_conn\<lparr>local_closed := True\<rparr>\<rparr>)"
    by (simp add: close_wc_def close_act_def test_wc_def)
  show ?thesis using h0 h send_after_close_panics [OF h0 h] by blast
qed

text \<open>C32: a receive goroutine blocked reading a type name when \<open>Close\<close> runs
  returns and closes \<open>Recv\<close> within three steps; on a connection whose closed
  reads fail with an error other than \<open>net.ErrClosed\<close> (a \<open>net.Pipe\<close>: 
  \<open>io.ErrClosedPipe\<close>) it first reports that error as a \<open>recvError\<close>.\<close>

theorem recv_after_close:
  assumes "close_recv_chan w" and "local_closed (soc w)" and "dec_err w = None"
  shows "\<exists>w'. recv_run 3 c RName w = Some (RReturned, w') \<and> recv_closed w' \<and>
     err_q w' = (if closed_class (local_err (soc w)) then err_q w
                 else chan_try_put error_buffer (RecvError (local_err (soc w))) (err_q w))"
  using recv_after_close_steps [OF assms]
  by (simp add: recv_read_error_def recv_return_def numeral_3_eq_3 recv_step_loop_closed assms(1))

theorem recv_after_close_witness:
  "close_recv_chan (test_wc\<lparr>close_recv_chan := True, soc := pipe_conn\<lparr>local_closed := True\<rparr>\<rparr>) \<and>
   local_closed (soc (test_wc\<lparr>close_recv_chan := True, soc := pipe_conn\<lparr>local_closed := True\<rparr>\<rparr>)) \<and>
   dec_err (test_wc\<lparr>close_recv_chan := True, soc := pipe_conn\<lparr>local_closed := True\<rparr>\<rparr>) = None \<and>
   (\<exists>w'. recv_run 3 go_json RName (test_wc\<lparr>close_recv_chan := True, soc := pipe_conn\<lparr>local_closed := True\<rparr>\<rparr>) =
           Some (RReturned, w') \<and> recv_closed w' \<and> err_q w' = [RecvError ErrClosedPipe])"
proof -
  let ?w = "test_wc\<lparr>close_recv_chan := True, soc := pipe_conn\<lparr>local_closed := True\<rparr>\<rparr>"
  have h1: "close_recv_chan ?w" and h2: "local_closed (soc ?w)" and h3: "dec_err ?w = None"
    by (simp_all add: test_wc_def)
  show ?thesis
    using h1 h2 h3 recv_after_close [OF h1 h2 h3, of go_json]
    by (simp add: test_wc_def pipe_conn_def error_buffer_def)
qed



text \<open>C27: \<open>Close\<close> does not flush \<open>Send\<close>: once it has closed the socket, the
  send goroutine takes every value still buffered in \<open>Send\<close>, writes nothing,
  reports one \<open>sendError\<close> carrying the socket's close error per value (while
  \<open>Error\<close> has room) and returns.\<close>

theorem close_drains_send:
  assumes "close_wc w = Inr w1" and "\<not> close_recv_chan w" and "enc_err w = None"
    and "\<forall>v \<in> set (send_q w). type_of c v \<in> snd ` set (allowed_types w)" and "bounded w"
  shows "\<exists>w'. send_loop c w1 = (SReturned, w') \<and> send_q w' = [] \<and> tx (soc w') = tx (soc w) \<and>
           err_q w' = err_q w @ replicate (min (length (send_q w)) (error_buffer - length (err_q w)))
                                          (SendError (local_err (soc w)))"
proof -
  have w1: "w1 = w\<lparr>close_recv_chan := True, send_closed := True, soc := soc w\<lparr>local_closed := True\<rparr>\<rparr>"
    using assms(2,1) by (rule close_wc_first)
  have eb: "length (err_q w) \<le> error_buffer" using assms(5) by (simp add: bounded_def)
  show ?thesis
  proof (cases "send_q w")
    case Nil
    have "send_step c w1 = Some (SReturned, w1)" using Nil w1 by simp
    then have "send_loop c w1 = (SReturned, w1)" by (simp add: send_loop.simps [of c w1])
    then show ?thesis using Nil w1 by simp
  next
    case (Cons data rest)
    let ?e = "local_err (soc w)"
    have q1: "send_q w1 = data # rest" using Cons w1 by simp
    have "type_of c data \<in> snd ` set (allowed_types w1)" using Cons assms(4) w1 by simp
    with q1 obtain n where reg: "get_allowed_type_name (type_of c) (allowed_types w1) data = Some n"
      by (rule send_step_registered)
    let ?w2 = "try_push_error (SendError ?e) (w1\<lparr>send_q := rest, enc_err := Some ?e\<rparr>)"
    have step: "send_step c w1 = Some (SRunning, ?w2)"
      using send_step_closed_socket [OF q1 reg] w1 assms(3) by simp
    have "send_loop c ?w2 =
       (if send_closed ?w2 then SReturned else SRunning,
        ?w2\<lparr>send_q := [], err_q := err_q ?w2 @ replicate (min (length (send_q ?w2)) (error_buffer - length (err_q ?w2))) (SendError ?e)\<rparr>)"
      using Cons assms(4) w1 eb by (intro send_loop_kept_error) (simp_all add: chan_try_put_length_le)
    moreover have "send_loop c w1 = send_loop c ?w2"
      using step by (simp add: send_loop.simps [of c w1])
    ultimately have loop: "send_loop c w1 =
       (if send_closed ?w2 then SReturned else SRunning,
        ?w2\<lparr>send_q := [], err_q := err_q ?w2 @ replicate (min (length (send_q ?w2)) (error_buffer - length (err_q ?w2))) (SendError ?e)\<rparr>)"
      by (rule trans [rotated])
    have "send_closed w1" "tx (soc w1) = tx (soc w)" "err_q w1 = err_q w"
      using w1 by simp_all
    with loop show ?thesis
      using Cons eb by (simp add: chan_try_put_replicate)
  qed
qed

theorem close_drains_send_witness:
  "close_wc (test_wc\<lparr>send_q := [VString ''Hello'', test_value]\<rparr>) =
     Inr (test_wc\<lparr>send_q := [VString ''Hello'', test_value], close_recv_chan := True, send_closed := True,
                 soc := pipe_conn\<lparr>local_closed := True\<rparr>\<rparr>) \<and>
   \<not> close_recv_chan (test_wc\<lparr>send_q := [VString ''Hello'', test_value]\<rparr>) \<and>
   enc_err (test_wc\<lparr>send_q := [VString ''Hello'', test_value]\<rparr>) = None \<and>
   type_of go_json (VString ''Hello'') \<in> snd ` set (allowed_types test_wc) \<and>
   type_of go_json test_value \<in> snd ` set (allowed_types test_wc) \<and>
   bounded (test_wc\<lparr>send_q := [VString ''Hello'', test_value]\<rparr>) \<and>
   (\<exists>w'. send_loop go_json (test_wc\<lparr>send_q := [VString ''Hello'', test_value], close_recv_chan := True,
            send_closed := True, soc := pipe_conn\<lparr>local_closed := True\<rparr>\<rparr>) = (SReturned, w') \<and>
          send_q w' = [] \<and> tx (soc w') = [] \<and>
          err_q w' = [SendError ErrClosedPipe, SendError ErrClosedPipe])"
proof -
  let ?w = "test_wc\<lparr>send_q := [VString ''Hello'', test_value]\<rparr>"
  let ?w1 = "test_wc\<lparr>send_q := [VString ''Hello'', test_value], close_recv_chan := True, send_closed := True,
                 soc := pipe_conn\<lparr>local_closed := True\<rparr>\<rparr>"
  have h1: "close_wc ?w = Inr ?w1" by (simp add: close_wc_def close_act_def test_wc_def)
  have h2: "\<not> close_recv_chan ?w" and h3: "enc_err ?w = None" by (simp_all add: test_wc_def)
  have h4: "\<forall>v \<in> set (send_q ?w). type_of go_json v \<in> snd ` set (allowed_types ?w)"
    by (simp add: test_wc_def test_value_def)
  have h5: "bounded ?w" by (simp add: test_wc_def bounded_def error_buffer_def)
  show ?thesis
    using h1 h2 h3 h4 h5 close_drains_send [OF h1 h2 h3 h4 h5]
    by (simp add: test_wc_def pipe_conn_def error_buffer_def)
qed

end
