(* ===== verification/FifoSpec.thy ===== *)
theory FifoSpec
  imports Prelude
begin

text \<open>
  The abstract specification of one direction of a connection, as the spec
  states it (per-direction FIFO, no loss, no duplication): a channel remembers
  the values sent and the values delivered; \<open>Enq v\<close> sends \<open>v\<close>, and \<open>Deq v\<close>
  delivers \<open>v\<close> only when \<open>v\<close> is the oldest value sent and not yet delivered.
  \<open>fifo_step\<close> is executable; \<open>fifo_reach\<close> gives the states reachable from an
  empty channel, in all of which the delivered values are a prefix of the sent
  ones.  \<open>Duplex\<close> shows that two connected endpoints implement this channel.
\<close>

record 'v fifo =
  fsent :: "'v list"
  fgot :: "'v list"

datatype 'v fifo_event = Enq 'v | Deq 'v

fun fifo_step :: "'v fifo \<Rightarrow> 'v fifo_event \<Rightarrow> 'v fifo option" where
  "fifo_step f (Enq v) = Some (f\<lparr>fsent := fsent f @ [v]\<rparr>)"
| "fifo_step f (Deq v) =
     (if length (fgot f) < length (fsent f) \<and> fsent f ! length (fgot f) = v
      then Some (f\<lparr>fgot := fgot f @ [v]\<rparr>) else None)"

definition fifo_empty :: "'v fifo" where
  "fifo_empty = \<lparr>fsent = [], fgot = []\<rparr>"

inductive fifo_reach :: "'v fifo \<Rightarrow> 'v fifo \<Rightarrow> bool" for f0 :: "'v fifo" where
  start: "fifo_reach f0 f0"
| step: "fifo_reach f0 f \<Longrightarrow> fifo_step f e = Some f' \<Longrightarrow> fifo_reach f0 f'"

lemma fifo_step_prefix:
  "fifo_step f e = Some f' \<Longrightarrow> prefix (fgot f) (fsent f) \<Longrightarrow> prefix (fgot f') (fsent f')"
proof (cases e)
  case (Enq v)
  then show "fifo_step f e = Some f' \<Longrightarrow> prefix (fgot f) (fsent f) \<Longrightarrow> ?thesis"
    by auto
next
  case (Deq v)
  assume st: "fifo_step f e = Some f'" and p: "prefix (fgot f) (fsent f)"
  with Deq have l: "length (fgot f) < length (fsent f)" and v: "fsent f ! length (fgot f) = v"
    and f': "f' = f\<lparr>fgot := fgot f @ [v]\<rparr>"
    by (auto split: if_splits)
  from p obtain r where r: "fsent f = fgot f @ r" by (auto simp: prefix_def)
  with l v obtain r' where "r = v # r'" by (cases r) auto
  with r f' show ?thesis by (simp add: prefix_def)
qed

lemma fifo_reach_prefix:
  "fifo_reach fifo_empty f \<Longrightarrow> prefix (fgot f) (fsent f)"
  by (induction rule: fifo_reach.induct) (auto simp: fifo_empty_def intro: fifo_step_prefix)

lemma fifo_step_deqI:
  "fsent f = fgot f @ v # r \<Longrightarrow> fifo_step f (Deq v) = Some (f\<lparr>fgot := fgot f @ [v]\<rparr>)"
  by (simp add: nth_append)

end
