(* ===== verification/Duplex.thy ===== *)
theory Duplex
  imports Lifecycle FifoSpec
begin

text \<open>
  One direction of a connection between two endpoints, under every interleaving.
  Endpoint A's caller sends on \<open>Send\<close> and A's send goroutine writes frames;
  endpoint B's receive goroutine reads them and B's caller receives from
  \<open>Recv\<close>.  The connection behaves as \<open>net.Pipe\<close> (the test's transport): the
  documents a write puts on A's socket become readable on B's socket at once.
  \<open>duplex_step\<close> interleaves the four actors (with the rendezvous of unbuffered
  channels, as in \<open>Lifecycle\<close>); \<open>sent\<close> and \<open>got\<close> record the
  values A's caller sent and B's caller received.  The callers send only
  registered, marshallable values (the package's contract; the other cases are
  the panics and errors of \<open>Outbound\<close>) and nobody calls \<open>Close\<close> (its effect is
  in \<open>Lifecycle\<close>).  The invariant \<open>duplex_inv\<close> says that the values received,
  those waiting in \<open>Recv\<close>, the one the receive goroutine holds, those encoded on
  the wire and those waiting in \<open>Send\<close> are, in this order, exactly the values
  sent; hence FIFO delivery: what B's caller receives is always a prefix of what
  A's caller sent.  \<open>duplex_measure\<close> counts the steps still needed, and every
  state where something is in flight has a step that lowers it, so every sent
  value can be delivered.
\<close>

record ('v, 'ty, 'd) duplex =
  ep_a :: "('v, 'ty, 'd) webchan"
  ep_b :: "('v, 'ty, 'd) webchan"
  rpc_b :: "('ty, 'v) recv_pc"
  sent :: "'v list"
  got :: "'v list"

definition duplex_init :: "('v, 'ty, 'd) webchan \<Rightarrow> ('v, 'ty, 'd) webchan \<Rightarrow> ('v, 'ty, 'd) duplex" where
  "duplex_init a b = \<lparr>ep_a = a, ep_b = b, rpc_b = RLoop, sent = [], got = []\<rparr>"

text \<open>\<open>net.Pipe\<close>: documents written on one end become readable on the other.\<close>

definition pipe_deliver :: "'d item list \<Rightarrow> ('v, 'ty, 'd) webchan \<Rightarrow> ('v, 'ty, 'd) webchan" where
  "pipe_deliver ds w = w\<lparr>soc := soc w\<lparr>rx := rx (soc w) @ ds\<rparr>\<rparr>"

inductive duplex_step :: "('v, 'ty, 'd) codec \<Rightarrow> ('v, 'ty, 'd) duplex \<Rightarrow> ('v, 'ty, 'd) duplex \<Rightarrow> bool"
  for c :: "('v, 'ty, 'd) codec" where
  put:
    "sendable c v \<Longrightarrow> type_of c v \<in> snd ` set (allowed_types (ep_a s)) \<Longrightarrow>
     user_send v (ep_a s) = Some (Inr a') \<Longrightarrow> duplex_step c s (s\<lparr>ep_a := a', sent := sent s @ [v]\<rparr>)"
| sender:
    "send_step c (ep_a s) = Some (SRunning, a') \<Longrightarrow>
     duplex_step c s (s\<lparr>ep_a := a',
                        ep_b := pipe_deliver (drop (length (tx (soc (ep_a s)))) (tx (soc a'))) (ep_b s)\<rparr>)"
| put_handoff:
    "sendable c v \<Longrightarrow> type_of c v \<in> snd ` set (allowed_types (ep_a s)) \<Longrightarrow>
     \<not> send_closed (ep_a s) \<Longrightarrow> send_q (ep_a s) = [] \<Longrightarrow> buf_length (ep_a s) = 0 \<Longrightarrow>
     send_step c ((ep_a s)\<lparr>send_q := [v]\<rparr>) = Some (SRunning, a') \<Longrightarrow>
     duplex_step c s (s\<lparr>ep_a := a',
                        ep_b := pipe_deliver (drop (length (tx (soc (ep_a s)))) (tx (soc a'))) (ep_b s),
                        sent := sent s @ [v]\<rparr>)"
| receiver:
    "recv_step c (rpc_b s) (ep_b s) = Some (pc, b') \<Longrightarrow> duplex_step c s (s\<lparr>ep_b := b', rpc_b := pc\<rparr>)"
| take_handoff:
    "rpc_b s = RPush v \<Longrightarrow> recv_q (ep_b s) = [] \<Longrightarrow> buf_length (ep_b s) = 0 \<Longrightarrow>
     duplex_step c s (s\<lparr>rpc_b := RLoop, got := got s @ [v]\<rparr>)"
| take:
    "user_recv (ep_b s) = Some (Some v, b') \<Longrightarrow> duplex_step c s (s\<lparr>ep_b := b', got := got s @ [v]\<rparr>)"

inductive duplex_reach :: "('v, 'ty, 'd) codec \<Rightarrow> ('v, 'ty, 'd) duplex \<Rightarrow> ('v, 'ty, 'd) duplex \<Rightarrow> bool"
  for c :: "('v, 'ty, 'd) codec" and s0 :: "('v, 'ty, 'd) duplex" where
  start: "duplex_reach c s0 s0"
| step: "duplex_reach c s0 s \<Longrightarrow> duplex_step c s t \<Longrightarrow> duplex_reach c s0 t"

text \<open>A frame B can decode into the value \<open>v\<close>.\<close>

definition recv_frame :: "('v, 'ty, 'd) codec \<Rightarrow> 'ty registry \<Rightarrow> 'v \<Rightarrow> string \<times> 'd \<Rightarrow> bool" where
  "recv_frame c r v nd \<longleftrightarrow>
     (\<exists>t. create_type_interface_reflect_pointer r (fst nd) = Some t \<and> unmarshal c t (snd nd) = Inr v)"

text \<open>The values in flight: B's socket holds \<open>pre\<close> (the rest of a frame the
  receive goroutine has started) and then whole frames of the values \<open>vs\<close>; the
  receive goroutine holds \<open>pend\<close>.\<close>

definition in_flight :: "('v, 'ty, 'd) codec \<Rightarrow> ('v, 'ty, 'd) duplex \<Rightarrow> 'v list \<Rightarrow> 'd item list \<Rightarrow> bool" where
  "in_flight c s pend pre \<longleftrightarrow>
     (\<exists>vs fr. list_all2 (recv_frame c (allowed_types (ep_b s))) vs fr \<and>
        rx (soc (ep_b s)) = pre @ concat (map (wire_frame c) fr) \<and>
        got s @ recv_q (ep_b s) @ pend @ vs @ send_q (ep_a s) = sent s)"

definition pc_flight :: "('v, 'ty, 'd) codec \<Rightarrow> ('v, 'ty, 'd) duplex \<Rightarrow> bool" where
  "pc_flight c s =
     (case rpc_b s of
        RLoop \<Rightarrow> in_flight c s [] []
      | RName \<Rightarrow> in_flight c s [] []
      | RPayload t \<Rightarrow> (\<exists>d v. unmarshal c t d = Inr v \<and> in_flight c s [v] [Doc d])
      | RPush v \<Rightarrow> in_flight c s [v] []
      | RReturned \<Rightarrow> False)"

definition duplex_inv :: "('v, 'ty, 'd) codec \<Rightarrow> ('v, 'ty, 'd) duplex \<Rightarrow> bool" where
  "duplex_inv c s \<longleftrightarrow>
     registry_ok (allowed_types (ep_a s)) \<and> allowed_types (ep_b s) = allowed_types (ep_a s) \<and>
     enc_err (ep_a s) = None \<and> conn_open (soc (ep_a s)) \<and>
     dec_err (ep_b s) = None \<and> \<not> local_closed (soc (ep_b s)) \<and> \<not> rx_eof (soc (ep_b s)) \<and>
     \<not> close_recv_chan (ep_b s) \<and>
     (\<forall>v \<in> set (send_q (ep_a s)). sendable c v \<and> type_of c v \<in> snd ` set (allowed_types (ep_a s))) \<and>
     pc_flight c s"

text \<open>What is left to do before every sent value is received: each queued value
  costs an encoding step (which adds two documents), each document a decoding
  step, each value in \<open>Recv\<close> a receive, and the receive goroutine's position
  the steps back to its next read.\<close>

definition duplex_measure :: "('v, 'ty, 'd) duplex \<Rightarrow> nat" where
  "duplex_measure s =
     10 * length (send_q (ep_a s)) + 4 * length (rx (soc (ep_b s))) + 2 * length (recv_q (ep_b s)) +
     (case rpc_b s of RLoop \<Rightarrow> 1 | RName \<Rightarrow> 0 | RPayload t \<Rightarrow> 2 | RPush v \<Rightarrow> 4 | RReturned \<Rightarrow> 0)"

text \<open>The abstraction to the specification of \<open>FifoSpec\<close>: what A's caller has
  sent and what B's caller has received.\<close>

definition duplex_abs :: "('v, 'ty, 'd) duplex \<Rightarrow> 'v fifo" where
  "duplex_abs s = \<lparr>fsent = sent s, fgot = got s\<rparr>"

lemma pc_flight_mono:
  assumes "pc_flight c s" and "rpc_b t = rpc_b s"
    and "\<And>pend pre. in_flight c s pend pre \<Longrightarrow> in_flight c t pend pre"
  shows "pc_flight c t"
  using assms by (cases "rpc_b s") (auto simp: pc_flight_def)

lemma registered_frame:
  assumes "registry_ok r" and "sendable c v" and "get_allowed_type_name (type_of c) r v = Some n"
  obtains d where "marshal c v = Inr d" and "recv_frame c r v (n, d)"
proof -
  from assms(2) obtain d where m: "marshal c v = Inr d" and u: "unmarshal c (type_of c v) d = Inr v"
    by (rule sendableE)
  have "(n, type_of c v) \<in> set r" using assms(3) by (rule get_allowed_type_name_Some)
  with assms(1) have "create_type_interface_reflect_pointer r n = Some (type_of c v)"
    by (simp add: create_type_pointer_Some)
  with m u that show ?thesis by (simp add: recv_frame_def)
qed


subsection \<open>The invariant is preserved by every step\<close>

lemma in_flight_same [simp]:
  "in_flight c (s\<lparr>rpc_b := pc\<rparr>) = in_flight c s"
  by (simp add: in_flight_def fun_eq_iff)

lemma in_flightI:
  assumes "list_all2 (recv_frame c (allowed_types (ep_b s))) vs fr"
    and "rx (soc (ep_b s)) = pre @ concat (map (wire_frame c) fr)"
    and "sent s = got s @ recv_q (ep_b s) @ pend @ vs @ send_q (ep_a s)"
  shows "in_flight c s pend pre"
  using assms unfolding in_flight_def by auto

lemma in_flightE:
  assumes "in_flight c s pend pre"
  obtains vs fr where "list_all2 (recv_frame c (allowed_types (ep_b s))) vs fr"
    and "rx (soc (ep_b s)) = pre @ concat (map (wire_frame c) fr)"
    and "sent s = got s @ recv_q (ep_b s) @ pend @ vs @ send_q (ep_a s)"
  using assms unfolding in_flight_def by auto

lemma duplex_enqueue_inv:
  assumes "duplex_inv c s" and "sendable c v" and "type_of c v \<in> snd ` set (allowed_types (ep_a s))"
  shows "duplex_inv c (s\<lparr>ep_a := (ep_a s)\<lparr>send_q := send_q (ep_a s) @ [v]\<rparr>, sent := sent s @ [v]\<rparr>)"
    (is "duplex_inv c ?t")
proof -
  have "pc_flight c ?t"
  proof (rule pc_flight_mono)
    show "pc_flight c s" using assms(1) by (simp add: duplex_inv_def)
    show "in_flight c ?t pend pre" if "in_flight c s pend pre" for pend pre
    proof -
      from that obtain vs fr where "list_all2 (recv_frame c (allowed_types (ep_b s))) vs fr"
        and "rx (soc (ep_b s)) = pre @ concat (map (wire_frame c) fr)"
        and "sent s = got s @ recv_q (ep_b s) @ pend @ vs @ send_q (ep_a s)"
        by (rule in_flightE)
      then show ?thesis by (intro in_flightI [of c _ vs fr]) simp_all
    qed
  qed simp
  with assms show ?thesis by (auto simp: duplex_inv_def)
qed

lemma duplex_put_inv:
  assumes "duplex_inv c s" and "sendable c v" and "type_of c v \<in> snd ` set (allowed_types (ep_a s))"
    and "user_send v (ep_a s) = Some (Inr a')"
  shows "duplex_inv c (s\<lparr>ep_a := a', sent := sent s @ [v]\<rparr>)"
  using duplex_enqueue_inv [OF assms(1-3)] assms(4) by (simp add: user_send_Inr)

lemma duplex_take_inv:
  assumes "duplex_inv c s" and "user_recv (ep_b s) = Some (Some v, b')"
  shows "duplex_inv c (s\<lparr>ep_b := b', got := got s @ [v]\<rparr>)"
proof -
  obtain rest where q: "recv_q (ep_b s) = v # rest" and b': "b' = ep_b s\<lparr>recv_q := rest\<rparr>"
    using assms(2) by (auto simp: user_recv_def split: list.splits if_splits)
  have "pc_flight c (s\<lparr>ep_b := b', got := got s @ [v]\<rparr>)"
  proof (rule pc_flight_mono)
    show "pc_flight c s" using assms(1) by (simp add: duplex_inv_def)
    show "in_flight c (s\<lparr>ep_b := b', got := got s @ [v]\<rparr>) pend pre"
      if "in_flight c s pend pre" for pend pre
    proof -
      from that obtain vs fr where "list_all2 (recv_frame c (allowed_types (ep_b s))) vs fr"
        and "rx (soc (ep_b s)) = pre @ concat (map (wire_frame c) fr)"
        and "sent s = got s @ recv_q (ep_b s) @ pend @ vs @ send_q (ep_a s)"
        by (rule in_flightE)
      then show ?thesis using q b' by (intro in_flightI [of c _ vs fr]) simp_all
    qed
  qed simp
  with assms b' show ?thesis by (auto simp: duplex_inv_def)
qed

lemma duplex_sender_inv:
  assumes "duplex_inv c s" and "send_step c (ep_a s) = Some (SRunning, a')"
  shows "duplex_inv c (s\<lparr>ep_a := a',
                         ep_b := pipe_deliver (drop (length (tx (soc (ep_a s)))) (tx (soc a'))) (ep_b s)\<rparr>)"
    (is "duplex_inv c ?t")
proof -
  let ?a = "ep_a s"
  have inv: "registry_ok (allowed_types ?a)" "allowed_types (ep_b s) = allowed_types ?a"
    "enc_err ?a = None" "conn_open (soc ?a)"
    "\<forall>v \<in> set (send_q ?a). sendable c v \<and> type_of c v \<in> snd ` set (allowed_types ?a)"
    using assms(1) by (simp_all add: duplex_inv_def)
  obtain v rest where q: "send_q ?a = v # rest"
    using assms(2) by (cases "send_q ?a") (auto split: if_splits)
  have ok: "sendable c v" "type_of c v \<in> snd ` set (allowed_types ?a)" using inv(5) q by simp_all
  from q ok(2) obtain n where n: "get_allowed_type_name (type_of c) (allowed_types ?a) v = Some n"
    by (rule send_step_registered)
  from inv(1) ok(1) n obtain d where m: "marshal c v = Inr d"
    and f: "recv_frame c (allowed_types ?a) v (n, d)"
    by (rule registered_frame)
  have a': "a' = ?a\<lparr>send_q := rest, soc := soc ?a\<lparr>tx := tx (soc ?a) @ wire_frame c (n, d)\<rparr>\<rparr>"
    using send_step_frame [OF q n m inv(3,4)] assms(2) by simp
  have "pc_flight c ?t"
  proof (rule pc_flight_mono)
    show "pc_flight c s" using assms(1) by (simp add: duplex_inv_def)
    show "in_flight c ?t pend pre" if "in_flight c s pend pre" for pend pre
    proof -
      from that obtain vs fr where r: "list_all2 (recv_frame c (allowed_types (ep_b s))) vs fr"
        and x: "rx (soc (ep_b s)) = pre @ concat (map (wire_frame c) fr)"
        and e: "sent s = got s @ recv_q (ep_b s) @ pend @ vs @ send_q (ep_a s)"
        by (rule in_flightE)
      have "list_all2 (recv_frame c (allowed_types (ep_b s))) (vs @ [v]) (fr @ [(n, d)])"
        using r f inv(2) by (simp add: list_all2_appendI)
      then show ?thesis
        using x e a' q by (intro in_flightI [of c _ "vs @ [v]" "fr @ [(n, d)]"]) (simp_all add: pipe_deliver_def)
    qed
  qed simp
  with assms(1) a' q show ?thesis by (auto simp: duplex_inv_def pipe_deliver_def)
qed

lemma duplex_inv_ep_b:
  assumes "duplex_inv c s" and "pc_flight c t"
    and "ep_a t = ep_a s" and "sent t = sent s" and "got t = got s"
    and "allowed_types (ep_b t) = allowed_types (ep_b s)" and "dec_err (ep_b t) = None"
    and "local_closed (soc (ep_b t)) = local_closed (soc (ep_b s))"
    and "rx_eof (soc (ep_b t)) = rx_eof (soc (ep_b s))"
    and "close_recv_chan (ep_b t) = close_recv_chan (ep_b s)"
  shows "duplex_inv c t"
  using assms by (simp add: duplex_inv_def)

lemma duplex_receiver_inv:
  assumes "duplex_inv c s" and "names_roundtrip c" and "recv_step c (rpc_b s) (ep_b s) = Some (pc, b')"
  shows "duplex_inv c (s\<lparr>ep_b := b', rpc_b := pc\<rparr>)"
    (is "duplex_inv c ?t")
proof -
  let ?b = "ep_b s"
  have inv: "dec_err ?b = None" "\<not> local_closed (soc ?b)" "\<not> rx_eof (soc ?b)" "\<not> close_recv_chan ?b"
    "pc_flight c s"
    using assms(1) by (simp_all add: duplex_inv_def)
  show ?thesis
  proof (cases "rpc_b s")
    case RLoop
    then have "pc = RName" "b' = ?b" using assms(3) inv(4) by (simp_all add: recv_step_loop_open)
    with RLoop inv(5) show ?thesis
      by (intro duplex_inv_ep_b [OF assms(1)]) (simp_all add: pc_flight_def inv(1))
  next
    case RName
    with inv(5) obtain vs fr where r: "list_all2 (recv_frame c (allowed_types ?b)) vs fr"
      and x: "rx (soc ?b) = concat (map (wire_frame c) fr)"
      and e: "sent s = got s @ recv_q ?b @ vs @ send_q (ep_a s)"
      by (auto simp: pc_flight_def elim: in_flightE)
    show ?thesis
    proof (cases fr)
      case Nil
      then have "recv_step c RName ?b = None"
        using x inv(1-3) by (simp add: recv_step_def json_decode_def)
      with assms(3) RName show ?thesis by simp
    next
      case (Cons nd fr')
      obtain n d where nd: "nd = (n, d)" by fastforce
      from r Cons nd obtain v vs' where vs: "vs = v # vs'" and f: "recv_frame c (allowed_types ?b) v (n, d)"
        and r': "list_all2 (recv_frame c (allowed_types ?b)) vs' fr'"
        by (auto simp: list_all2_Cons2)
      from f obtain t where t: "create_type_interface_reflect_pointer (allowed_types ?b) n = Some t"
        and u: "unmarshal c t d = Inr v"
        by (auto simp: recv_frame_def)
      have "rx (soc ?b) = Doc (marshal_name c n) # Doc d # concat (map (wire_frame c) fr')"
        using x Cons nd by simp
      from recv_step_name_doc [OF inv(1,2) this names_roundtripD [OF assms(2)]]
      have "pc = RPayload t" and b': "b' = ?b\<lparr>soc := soc ?b\<lparr>rx := Doc d # concat (map (wire_frame c) fr')\<rparr>\<rparr>"
        using assms(3) RName t by simp_all
      moreover have "in_flight c ?t [v] [Doc d]"
        using r' e vs b' by (intro in_flightI [of c _ vs' fr']) simp_all
      ultimately show ?thesis
        using u b' by (intro duplex_inv_ep_b [OF assms(1)]) (auto simp: pc_flight_def inv(1))
    qed
  next
    case (RPayload t)
    with inv(5) obtain d v where u: "unmarshal c t d = Inr v" and fl: "in_flight c s [v] [Doc d]"
      by (auto simp: pc_flight_def)
    from fl obtain vs fr where r: "list_all2 (recv_frame c (allowed_types ?b)) vs fr"
      and x: "rx (soc ?b) = Doc d # concat (map (wire_frame c) fr)"
      and e: "sent s = got s @ recv_q ?b @ [v] @ vs @ send_q (ep_a s)"
      by (auto elim: in_flightE)
    from recv_step_payload_doc [OF inv(1,2) x u]
    have "pc = RPush v" and b': "b' = ?b\<lparr>soc := soc ?b\<lparr>rx := concat (map (wire_frame c) fr)\<rparr>\<rparr>"
      using assms(3) RPayload by simp_all
    moreover have "in_flight c ?t [v] []"
      using r e b' by (intro in_flightI [of c _ vs fr]) simp_all
    ultimately show ?thesis
      using b' by (intro duplex_inv_ep_b [OF assms(1)]) (simp_all add: pc_flight_def inv(1))
  next
    case (RPush v)
    with inv(5) obtain vs fr where r: "list_all2 (recv_frame c (allowed_types ?b)) vs fr"
      and x: "rx (soc ?b) = concat (map (wire_frame c) fr)"
      and e: "sent s = got s @ recv_q ?b @ [v] @ vs @ send_q (ep_a s)"
      by (auto simp: pc_flight_def elim: in_flightE)
    from assms(3) RPush have "pc = RLoop" and b': "b' = ?b\<lparr>recv_q := recv_q ?b @ [v]\<rparr>"
      by (simp_all add: recv_step_push split: if_splits)
    moreover have "in_flight c ?t [] []"
      using r x e b' by (intro in_flightI [of c _ vs fr]) simp_all
    ultimately show ?thesis
      using b' by (intro duplex_inv_ep_b [OF assms(1)]) (simp_all add: pc_flight_def inv(1))
  next
    case RReturned
    with inv(5) show ?thesis by (simp add: pc_flight_def)
  qed
qed

lemma duplex_put_handoff_inv:
  assumes "duplex_inv c s" and "sendable c v" and "type_of c v \<in> snd ` set (allowed_types (ep_a s))"
    and "send_q (ep_a s) = []" and "send_step c ((ep_a s)\<lparr>send_q := [v]\<rparr>) = Some (SRunning, a')"
  shows "duplex_inv c (s\<lparr>ep_a := a',
                         ep_b := pipe_deliver (drop (length (tx (soc (ep_a s)))) (tx (soc a'))) (ep_b s),
                         sent := sent s @ [v]\<rparr>)"
proof -
  let ?s1 = "s\<lparr>ep_a := (ep_a s)\<lparr>send_q := send_q (ep_a s) @ [v]\<rparr>, sent := sent s @ [v]\<rparr>"
  have "duplex_inv c ?s1" using assms(1-3) by (rule duplex_enqueue_inv)
  moreover have "send_step c (ep_a ?s1) = Some (SRunning, a')" using assms(4,5) by simp
  ultimately have "duplex_inv c (?s1\<lparr>ep_a := a',
                      ep_b := pipe_deliver (drop (length (tx (soc (ep_a ?s1)))) (tx (soc a'))) (ep_b ?s1)\<rparr>)"
    by (rule duplex_sender_inv)
  then show ?thesis using assms(4) by (cases s) simp
qed

lemma duplex_take_handoff_inv:
  assumes "duplex_inv c s" and "rpc_b s = RPush v" and "recv_q (ep_b s) = []"
  shows "duplex_inv c (s\<lparr>rpc_b := RLoop, got := got s @ [v]\<rparr>)"
proof -
  from assms(1,2) obtain vs fr where "list_all2 (recv_frame c (allowed_types (ep_b s))) vs fr"
    and "rx (soc (ep_b s)) = concat (map (wire_frame c) fr)"
    and "sent s = got s @ recv_q (ep_b s) @ [v] @ vs @ send_q (ep_a s)"
    by (auto simp: duplex_inv_def pc_flight_def elim: in_flightE)
  then have "in_flight c (s\<lparr>rpc_b := RLoop, got := got s @ [v]\<rparr>) [] []"
    using assms(3) by (intro in_flightI [of c _ vs fr]) simp_all
  with assms(1) show ?thesis by (simp add: duplex_inv_def pc_flight_def)
qed

lemma duplex_step_inv:
  assumes "duplex_step c s t" and "duplex_inv c s" and "names_roundtrip c"
  shows "duplex_inv c t"
  using assms
proof (induction rule: duplex_step.induct)
  case (put v s a')
  then show ?case by (intro duplex_put_inv)
next
  case (sender s a')
  then show ?case by (intro duplex_sender_inv)
next
  case (put_handoff v s a')
  then show ?case by (intro duplex_put_handoff_inv)
next
  case (receiver s pc b')
  then show ?case by (intro duplex_receiver_inv)
next
  case (take_handoff s v)
  then show ?case by (intro duplex_take_handoff_inv)
next
  case (take s v b')
  then show ?case by (intro duplex_take_inv)
qed

lemma duplex_reach_inv:
  "duplex_reach c s0 s \<Longrightarrow> duplex_inv c s0 \<Longrightarrow> names_roundtrip c \<Longrightarrow> duplex_inv c s"
  by (induction rule: duplex_reach.induct) (auto intro: duplex_step_inv)

lemma duplex_init_inv:
  assumes "new_named_webchan c sa buf allowed = Inr a" and "new_named_webchan c sb buf allowed = Inr b"
    and "registry_ok (allowed_types a)" and "conn_open sa"
    and "rx sb = []" and "\<not> rx_eof sb" and "\<not> local_closed sb"
  shows "duplex_inv c (duplex_init a b)"
proof -
  have "in_flight c (duplex_init a b) [] []"
    using assms(1,2,5) by (intro in_flightI [of c _ "[]" "[]"]) (simp_all add: duplex_init_def new_named_webchan_Inr)
  then show ?thesis
    using assms by (simp add: duplex_inv_def pc_flight_def duplex_init_def new_named_webchan_Inr)
qed

lemma duplex_inv_prefix:
  "duplex_inv c s \<Longrightarrow> prefix (got s) (sent s)"
  by (auto simp: duplex_inv_def pc_flight_def prefix_def elim!: in_flightE split: recv_pc.splits)


subsection \<open>Progress: every sent value can be delivered\<close>

lemma duplex_reach_prepend:
  "duplex_reach c t u \<Longrightarrow> duplex_step c s t \<Longrightarrow> duplex_reach c s u"
  by (induction rule: duplex_reach.induct) (auto intro: duplex_reach.intros)

lemma progress_take:
  assumes "recv_q (ep_b s) = v # rest"
  shows "\<exists>t. duplex_step c s t \<and> duplex_measure t < duplex_measure s"
proof -
  let ?t = "s\<lparr>ep_b := (ep_b s)\<lparr>recv_q := rest\<rparr>, got := got s @ [v]\<rparr>"
  have "duplex_step c s ?t" using assms by (intro duplex_step.take) (simp add: user_recv_def)
  moreover have "duplex_measure ?t < duplex_measure s" using assms by (simp add: duplex_measure_def)
  ultimately show ?thesis by blast
qed

lemma progress_recv:
  assumes "recv_step c (rpc_b s) (ep_b s) = Some (pc, b')"
    and "duplex_measure (s\<lparr>ep_b := b', rpc_b := pc\<rparr>) < duplex_measure s"
  shows "\<exists>t. duplex_step c s t \<and> duplex_measure t < duplex_measure s"
  using duplex_step.receiver [OF assms(1)] assms(2) by blast

lemma progress_send:
  assumes "duplex_inv c s" and "send_q (ep_a s) = v # rest" and "rx (soc (ep_b s)) = []"
  shows "\<exists>t. duplex_step c s t \<and> duplex_measure t < duplex_measure s"
proof -
  let ?a = "ep_a s"
  have inv: "registry_ok (allowed_types ?a)" "enc_err ?a = None" "conn_open (soc ?a)"
    "sendable c v" "type_of c v \<in> snd ` set (allowed_types ?a)"
    using assms(1,2) by (simp_all add: duplex_inv_def)
  from assms(2) inv(5) obtain n where n: "get_allowed_type_name (type_of c) (allowed_types ?a) v = Some n"
    by (rule send_step_registered)
  from inv(1,4) n obtain d where m: "marshal c v = Inr d" by (rule registered_frame)
  let ?a' = "?a\<lparr>send_q := rest, soc := soc ?a\<lparr>tx := tx (soc ?a) @ wire_frame c (n, d)\<rparr>\<rparr>"
  have "send_step c ?a = Some (SRunning, ?a')" using assms(2) n m inv(2,3) by (rule send_step_frame)
  from duplex_step.sender [OF this] show ?thesis
    using assms(2,3) by (fastforce simp: duplex_measure_def pipe_deliver_def)
qed

lemma duplex_progress:
  assumes "duplex_inv c s" and "names_roundtrip c" and "got s \<noteq> sent s"
  shows "\<exists>t. duplex_step c s t \<and> duplex_measure t < duplex_measure s"
proof (cases "recv_q (ep_b s)")
  case (Cons v rest)
  then show ?thesis by (rule progress_take)
next
  case Nil
  let ?b = "ep_b s"
  have inv: "dec_err ?b = None" "\<not> local_closed (soc ?b)" "\<not> close_recv_chan ?b" "pc_flight c s"
    using assms(1) by (simp_all add: duplex_inv_def)
  show ?thesis
  proof (cases "rpc_b s")
    case RLoop
    with inv(3) show ?thesis
      by (intro progress_recv [of c s RName ?b]) (simp_all add: recv_step_loop_open duplex_measure_def)
  next
    case RName
    with inv(4) obtain vs fr where r: "list_all2 (recv_frame c (allowed_types ?b)) vs fr"
      and x: "rx (soc ?b) = concat (map (wire_frame c) fr)"
      and e: "sent s = got s @ recv_q ?b @ vs @ send_q (ep_a s)"
      by (auto simp: pc_flight_def elim: in_flightE)
    show ?thesis
    proof (cases fr)
      case Nil
      show ?thesis
      proof (cases "send_q (ep_a s)")
        case Nil
        with r e \<open>fr = []\<close> \<open>recv_q ?b = []\<close> assms(3) show ?thesis by simp
      next
        case (Cons v rest)
        with assms(1) x \<open>fr = []\<close> show ?thesis by (intro progress_send) simp_all
      qed
    next
      case (Cons nd fr')
      obtain n d where nd: "nd = (n, d)" by fastforce
      from r Cons nd obtain v vs' where "recv_frame c (allowed_types ?b) v (n, d)"
        by (auto simp: list_all2_Cons2)
      then obtain t where t: "create_type_interface_reflect_pointer (allowed_types ?b) n = Some t"
        by (auto simp: recv_frame_def)
      have x': "rx (soc ?b) = Doc (marshal_name c n) # Doc d # concat (map (wire_frame c) fr')"
        using x Cons nd by simp
      from recv_step_name_doc [OF inv(1,2) x' names_roundtripD [OF assms(2)]] t RName
      have "recv_step c (rpc_b s) ?b =
              Some (RPayload t, ?b\<lparr>soc := soc ?b\<lparr>rx := Doc d # concat (map (wire_frame c) fr')\<rparr>\<rparr>)"
        by simp
      then show ?thesis by (rule progress_recv) (simp add: duplex_measure_def x' RName)
    qed
  next
    case (RPayload t)
    with inv(4) obtain d v where u: "unmarshal c t d = Inr v" and fl: "in_flight c s [v] [Doc d]"
      by (auto simp: pc_flight_def)
    from fl obtain vs fr where x: "rx (soc ?b) = Doc d # concat (map (wire_frame c) fr)"
      by (auto elim: in_flightE)
    from recv_step_payload_doc [OF inv(1,2) x u] RPayload
    have "recv_step c (rpc_b s) ?b = Some (RPush v, ?b\<lparr>soc := soc ?b\<lparr>rx := concat (map (wire_frame c) fr)\<rparr>\<rparr>)"
      by simp
    then show ?thesis by (rule progress_recv) (simp add: duplex_measure_def x RPayload)
  next
    case (RPush v)
    show ?thesis
    proof (cases "buf_length ?b = 0")
      case True
      let ?t = "s\<lparr>rpc_b := RLoop, got := got s @ [v]\<rparr>"
      have "duplex_step c s ?t" using RPush Nil True by (rule duplex_step.take_handoff)
      moreover have "duplex_measure ?t < duplex_measure s" using RPush by (simp add: duplex_measure_def)
      ultimately show ?thesis by blast
    next
      case False
      with RPush Nil show ?thesis
        by (intro progress_recv [of c s RLoop "?b\<lparr>recv_q := [v]\<rparr>"])
           (simp_all add: recv_step_push duplex_measure_def)
    qed
  next
    case RReturned
    with inv(4) show ?thesis by (simp add: pc_flight_def)
  qed
qed

lemma duplex_drain:
  assumes "duplex_inv c s" and "names_roundtrip c"
  shows "\<exists>t. duplex_reach c s t \<and> got t = sent t"
  using assms
proof (induction "duplex_measure s" arbitrary: s rule: less_induct)
  case less
  show ?case
  proof (cases "got s = sent s")
    case True
    then show ?thesis by (blast intro: duplex_reach.start)
  next
    case False
    with less.prems obtain t where st: "duplex_step c s t" and lt: "duplex_measure t < duplex_measure s"
      using duplex_progress by blast
    have "duplex_inv c t" using st less.prems by (rule duplex_step_inv)
    with lt less.hyps less.prems(2) obtain u where "duplex_reach c t u" and "got u = sent u"
      by blast
    with st show ?thesis by (blast intro: duplex_reach_prepend)
  qed
qed


subsection \<open>Refinement of the FIFO specification\<close>

lemma duplex_inv_sent:
  assumes "duplex_inv c s"
  obtains rest where
    "sent s = got s @ recv_q (ep_b s) @ (case rpc_b s of RPush v \<Rightarrow> [v] | _ \<Rightarrow> []) @ rest"
proof -
  have "\<exists>rest. sent s = got s @ recv_q (ep_b s) @ (case rpc_b s of RPush v \<Rightarrow> [v] | _ \<Rightarrow> []) @ rest"
    using assms
    by (cases "rpc_b s") (auto simp: duplex_inv_def pc_flight_def elim!: in_flightE)
  with that show ?thesis by blast
qed

lemma duplex_step_refines:
  assumes "duplex_step c s t" and "duplex_inv c s"
  shows "duplex_abs t = duplex_abs s \<or> (\<exists>e. fifo_step (duplex_abs s) e = Some (duplex_abs t))"
  using assms
proof (induction rule: duplex_step.induct)
  case (put v s a')
  then have "fifo_step (duplex_abs s) (Enq v) = Some (duplex_abs (s\<lparr>ep_a := a', sent := sent s @ [v]\<rparr>))"
    by (simp add: duplex_abs_def)
  then show ?case by blast
next
  case (put_handoff v s a')
  then show ?case by (intro disjI2 exI [of _ "Enq v"]) (simp add: duplex_abs_def)
next
  case (take_handoff s v)
  from take_handoff.prems obtain rest where "sent s = got s @ recv_q (ep_b s) @ [v] @ rest"
    using take_handoff.hyps(1) by (auto elim: duplex_inv_sent)
  with take_handoff.hyps(2) have "fifo_step (duplex_abs s) (Deq v) = Some (duplex_abs (s\<lparr>rpc_b := RLoop, got := got s @ [v]\<rparr>))"
    by (simp add: duplex_abs_def fifo_step_deqI)
  then show ?case by blast
next
  case (take s v b')
  then obtain rest' where q: "recv_q (ep_b s) = v # rest'"
    by (auto simp: user_recv_def split: list.splits if_splits)
  from take.prems obtain rest where "sent s = got s @ recv_q (ep_b s) @ (case rpc_b s of RPush v \<Rightarrow> [v] | _ \<Rightarrow> []) @ rest"
    by (rule duplex_inv_sent)
  with q have "fifo_step (duplex_abs s) (Deq v) = Some (duplex_abs (s\<lparr>ep_b := b', got := got s @ [v]\<rparr>))"
    by (simp add: duplex_abs_def fifo_step_deqI)
  then show ?case by blast
qed (simp_all add: duplex_abs_def)

lemma duplex_reach_refines:
  assumes "duplex_reach c s0 s" and "duplex_inv c s0" and "names_roundtrip c"
  shows "fifo_reach (duplex_abs s0) (duplex_abs s)"
  using assms
proof (induction rule: duplex_reach.induct)
  case start
  show ?case by (rule fifo_reach.start)
next
  case (step s t)
  then have r: "fifo_reach (duplex_abs s0) (duplex_abs s)" and i: "duplex_inv c s"
    using duplex_reach_inv by blast+
  from duplex_step_refines [OF step.hyps(2) i] show ?case
    using r by (auto intro: fifo_reach.step)
qed

subsection \<open>Properties of a connection\<close>

text \<open>C3: per-direction FIFO under every interleaving: between two endpoints
  constructed with the same unambiguous registry and connected by a pipe, at
  every moment the values B's caller has received are a prefix of the values
  A's caller has sent: none lost, duplicated or reordered.\<close>

theorem duplex_fifo:
  assumes "names_roundtrip c"
    and "new_named_webchan c sa buf allowed = Inr a" and "new_named_webchan c sb buf allowed = Inr b"
    and "registry_ok (allowed_types a)" and "conn_open sa"
    and "rx sb = []" and "\<not> rx_eof sb" and "\<not> local_closed sb"
    and "duplex_reach c (duplex_init a b) s"
  shows "prefix (got s) (sent s)"
  using duplex_init_inv [OF assms(2-8)] assms(9,1) by (blast intro: duplex_inv_prefix duplex_reach_inv)

lemma test_duplex_put:
  "duplex_reach go_json (duplex_init test_wc test_wc)
     ((duplex_init test_wc test_wc)\<lparr>ep_a := test_wc\<lparr>send_q := [VString ''Hello'']\<rparr>, sent := [VString ''Hello'']\<rparr>)"
proof -
  have "duplex_step go_json (duplex_init test_wc test_wc)
     ((duplex_init test_wc test_wc)\<lparr>ep_a := test_wc\<lparr>send_q := [VString ''Hello'']\<rparr>,
        sent := sent (duplex_init test_wc test_wc) @ [VString ''Hello'']\<rparr>)"
    by (rule duplex_step.put) (simp_all add: wf_val_sendable duplex_init_def test_wc_def user_send_def chan_put_def)
  then have "duplex_step go_json (duplex_init test_wc test_wc)
     ((duplex_init test_wc test_wc)\<lparr>ep_a := test_wc\<lparr>send_q := [VString ''Hello'']\<rparr>, sent := [VString ''Hello'']\<rparr>)"
    by (simp add: duplex_init_def)
  then show ?thesis by (rule duplex_reach.step [OF duplex_reach.start])
qed

lemma test_duplex_start:
  "new_named_webchan go_json pipe_conn 100 (new_webchan_types gtype_name gtype_of test_prototypes) = Inr test_wc"
  using new_webchan_test by (simp add: new_webchan_def)

theorem duplex_fifo_witness:
  "prefix (got ((duplex_init test_wc test_wc)\<lparr>ep_a := test_wc\<lparr>send_q := [VString ''Hello'']\<rparr>,
                                              sent := [VString ''Hello'']\<rparr>))
          (sent ((duplex_init test_wc test_wc)\<lparr>ep_a := test_wc\<lparr>send_q := [VString ''Hello'']\<rparr>,
                                               sent := [VString ''Hello'']\<rparr>))"
  by (rule duplex_fifo [OF go_json_names_roundtrip test_duplex_start test_duplex_start _ _ _ _ _ test_duplex_put])
     (simp_all add: test_wc_def pipe_conn_def bijective_alist_def)

text \<open>C4: no value is stuck: from every state reachable in the same setting, the
  two goroutines and B's caller can run on until B's caller has received every
  value A's caller has sent (without new sends and without \<open>Close\<close>).\<close>

theorem duplex_delivers:
  assumes "names_roundtrip c"
    and "new_named_webchan c sa buf allowed = Inr a" and "new_named_webchan c sb buf allowed = Inr b"
    and "registry_ok (allowed_types a)" and "conn_open sa"
    and "rx sb = []" and "\<not> rx_eof sb" and "\<not> local_closed sb"
    and "duplex_reach c (duplex_init a b) s"
  shows "\<exists>t. duplex_reach c s t \<and> got t = sent t"
  using duplex_init_inv [OF assms(2-8)] assms(9,1) by (blast intro: duplex_drain duplex_reach_inv)

theorem duplex_delivers_witness:
  "\<exists>t. duplex_reach go_json
         ((duplex_init test_wc test_wc)\<lparr>ep_a := test_wc\<lparr>send_q := [VString ''Hello'']\<rparr>,
                                        sent := [VString ''Hello'']\<rparr>) t \<and>
       got t = sent t"
  by (rule duplex_delivers [OF go_json_names_roundtrip test_duplex_start test_duplex_start _ _ _ _ _ test_duplex_put])
     (simp_all add: test_wc_def pipe_conn_def bijective_alist_def)


text \<open>C5: refinement: two connected endpoints implement the abstract FIFO channel
  of \<open>FifoSpec\<close>: every state they can reach, seen through what A's caller has
  sent and B's caller has received, is a state the specification can reach from
  the empty channel; each step of theirs is a send, a delivery of the oldest
  undelivered value, or invisible.\<close>

theorem duplex_refines_fifo:
  assumes "names_roundtrip c"
    and "new_named_webchan c sa buf allowed = Inr a" and "new_named_webchan c sb buf allowed = Inr b"
    and "registry_ok (allowed_types a)" and "conn_open sa"
    and "rx sb = []" and "\<not> rx_eof sb" and "\<not> local_closed sb"
    and "duplex_reach c (duplex_init a b) s"
  shows "fifo_reach fifo_empty (duplex_abs s)"
proof -
  have "fifo_reach (duplex_abs (duplex_init a b)) (duplex_abs s)"
    using assms(9) duplex_init_inv [OF assms(2-8)] assms(1) by (rule duplex_reach_refines)
  then show ?thesis by (simp add: duplex_abs_def duplex_init_def fifo_empty_def)
qed

theorem duplex_refines_fifo_witness:
  "fifo_reach fifo_empty
     (duplex_abs ((duplex_init test_wc test_wc)\<lparr>ep_a := test_wc\<lparr>send_q := [VString ''Hello'']\<rparr>,
                                                sent := [VString ''Hello'']\<rparr>))"
  by (rule duplex_refines_fifo [OF go_json_names_roundtrip test_duplex_start test_duplex_start _ _ _ _ _ test_duplex_put])
     (simp_all add: test_wc_def pipe_conn_def bijective_alist_def)

end
