(* ===== verification/Example.thy ===== *)
theory Example
  imports Duplex
begin

text \<open>
  The package's test \<open>TestWebChan\<close> and the identical example of its README
  (\<open>src/unnamed/part_000\<close>): two endpoints on the ends of a \<open>net.Pipe\<close>, built
  with \<open>NewWebChan(_, 100, "strings", testType{})\<close>; the first is sent
  \<open>"Hello"\<close> and \<open>testType{A: 42, B: "Hello"}\<close>; then a \<open>select\<close> takes the
  first of: a value from the second's \<open>Recv\<close> (printed after a type switch), an
  error from either \<open>Error\<close> channel, or a two-second timeout.  \<open>example_run\<close>
  runs one schedule of this program: the caller's sends, the first endpoint's
  send goroutine, the pipe, and the second endpoint's receive goroutine on
  \<open>fuel\<close> steps; \<open>test_select\<close> then lists every case of the \<open>select\<close> that is
  ready (Go picks one of them at random; with none ready, the timer fires).
  The outcomes are what the program prints or reports with \<open>t.Errorf\<close>.
  Running the goroutines to completion before the \<open>select\<close> is one of the
  schedules \<open>Duplex\<close> covers; the values arrive in the same order in every
  schedule (\<open>duplex_fifo\<close>).  This theory also holds the lemmas that run two
  endpoints to completion, used by the root theory.
\<close>

datatype test_outcome = Printed string | TestError string | TestPanic go_panic | TestHang

text \<open>The type switch on a received message: \<open>case string\<close>, \<open>case testType\<close>,
  \<open>default\<close>.\<close>

definition unknown_type :: "gval \<Rightarrow> test_outcome" where
  "unknown_type msg =
     TestError (''Received unknown type (this should never happen in this program): '' @
                gtype_name (gtype_of msg))"

fun type_switch :: "gval \<Rightarrow> test_outcome" where
  "type_switch (VString s) = Printed (''Received string: '' @ s)"
| "type_switch (VStruct n [(fa, VInt a), (fb, VString b)]) =
     (if n = ''testType'' \<and> fa = ''A'' \<and> fb = ''B''
      then Printed (''Received testType with A = '' @ int_text a @ '' and B = '' @ b)
      else unknown_type (VStruct n [(fa, VInt a), (fb, VString b)]))"
| "type_switch msg = unknown_type msg"

text \<open>The \<open>select\<close>: every ready case, in the order of the source.  A receive from
  a closed, empty \<open>Recv\<close> is ready and yields \<open>nil\<close>.\<close>

definition test_select :: "(gval, gtype, jval) webchan \<Rightarrow> (gval, gtype, jval) webchan \<Rightarrow> test_outcome list" where
  "test_select wca wcb =
     (let ready =
        (case recv_q wcb of
           msg # _ \<Rightarrow> [type_switch msg]
         | [] \<Rightarrow> (if recv_closed wcb
                  then [TestError ''Received unknown type (this should never happen in this program): <nil>'']
                  else [])) @
        (case err_q wcb of e # _ \<Rightarrow> [TestError (''Error with WebChan b: '' @ wc_error_text e)] | [] \<Rightarrow> []) @
        (case err_q wca of e # _ \<Rightarrow> [TestError (''Error with WebChan a: '' @ wc_error_text e)] | [] \<Rightarrow> [])
      in if ready = [] then [TestError ''Timeout waiting for message''] else ready)"

text \<open>\<open>wc.Send <- v\<close> for each value in turn.\<close>

fun user_sends :: "'v list \<Rightarrow> ('v, 'ty, 'd) webchan \<Rightarrow> (go_panic + ('v, 'ty, 'd) webchan) option" where
  "user_sends [] w = Some (Inr w)"
| "user_sends (v # vs) w =
     (case user_send v w of
        None \<Rightarrow> None
      | Some (Inl p) \<Rightarrow> Some (Inl p)
      | Some (Inr w') \<Rightarrow> user_sends vs w')"

definition example_run :: "int \<Rightarrow> gval list \<Rightarrow> gval list \<Rightarrow> nat \<Rightarrow> test_outcome list" where
  "example_run buf protos sends fuel =
     (case new_webchan go_json pipe_conn buf protos of
        Inl p \<Rightarrow> [TestPanic p]
      | Inr wca \<Rightarrow>
          (case new_webchan go_json pipe_conn buf protos of
             Inl p \<Rightarrow> [TestPanic p]
           | Inr wcb \<Rightarrow>
               (case user_sends sends wca of
                  None \<Rightarrow> [TestHang]
                | Some (Inl p) \<Rightarrow> [TestPanic p]
                | Some (Inr wca1) \<Rightarrow>
                    (case send_loop go_json wca1 of
                       (SPanicked p, _) \<Rightarrow> [TestPanic p]
                     | (_, wca2) \<Rightarrow>
                         (case recv_run fuel go_json RLoop (pipe_deliver (tx (soc wca2)) wcb) of
                            None \<Rightarrow> [TestHang]
                          | Some (_, wcb2) \<Rightarrow> test_select wca2 wcb2)))))"

definition test_web_chan :: "test_outcome list" where
  "test_web_chan = example_run 100 test_prototypes [VString ''Hello'', test_value] 10"

definition readme_example :: "test_outcome list" where
  "readme_example = example_run 100 test_prototypes [VString ''Hello'', test_value] 10"

subsection \<open>Two endpoints run to completion\<close>

lemma list_all2_map_same:
  "list_all2 P xs (map f xs) \<longleftrightarrow> (\<forall>x \<in> set xs. P x (f x))"
  by (simp add: list_all2_map2 list_all2_same)

lemma sender_frames:
  assumes "registry_ok (allowed_types a)" and "\<forall>v \<in> set vs. sendable c v"
    and "\<forall>v \<in> set vs. type_of c v \<in> snd ` set (allowed_types a)"
  defines "fr \<equiv> map (\<lambda>v. (the (get_allowed_type_name (type_of c) (allowed_types a) v), projr (marshal c v))) vs"
  shows "list_all2 (\<lambda>v (n, d). get_allowed_type_name (type_of c) (allowed_types a) v = Some n \<and>
                               marshal c v = Inr d) vs fr"
    and "list_all2 (\<lambda>v (n, d). \<exists>t. create_type_interface_reflect_pointer (allowed_types a) n = Some t \<and>
                                   unmarshal c t d = Inr v) vs fr"
proof -
  have name: "get_allowed_type_name (type_of c) (allowed_types a) v =
                Some (the (get_allowed_type_name (type_of c) (allowed_types a) v))"
    and look: "create_type_interface_reflect_pointer (allowed_types a)
           (the (get_allowed_type_name (type_of c) (allowed_types a) v)) = Some (type_of c v)"
    and enc: "marshal c v = Inr (projr (marshal c v))"
    and dec: "unmarshal c (type_of c v) (projr (marshal c v)) = Inr v"
    if v: "v \<in> set vs" for v
  proof -
    have "get_allowed_type_name (type_of c) (allowed_types a) v \<noteq> None"
      using assms(3) v by (simp add: get_allowed_type_name_None)
    then obtain n where n: "get_allowed_type_name (type_of c) (allowed_types a) v = Some n" by blast
    then show "get_allowed_type_name (type_of c) (allowed_types a) v =
                Some (the (get_allowed_type_name (type_of c) (allowed_types a) v))" by simp
    have "(n, type_of c v) \<in> set (allowed_types a)"
      using n by (rule get_allowed_type_name_Some)
    with n assms(1) show "create_type_interface_reflect_pointer (allowed_types a)
           (the (get_allowed_type_name (type_of c) (allowed_types a) v)) = Some (type_of c v)"
      by (simp add: create_type_pointer_Some)
    from assms(2) v obtain d where "marshal c v = Inr d" and "unmarshal c (type_of c v) d = Inr v"
      by (blast elim: sendableE)
    then show "marshal c v = Inr (projr (marshal c v))"
      and "unmarshal c (type_of c v) (projr (marshal c v)) = Inr v" by simp_all
  qed
  show "list_all2 (\<lambda>v (n, d). get_allowed_type_name (type_of c) (allowed_types a) v = Some n \<and>
                               marshal c v = Inr d) vs fr"
    unfolding fr_def list_all2_map_same using name enc by auto
  show "list_all2 (\<lambda>v (n, d). \<exists>t. create_type_interface_reflect_pointer (allowed_types a) n = Some t \<and>
                                   unmarshal c t d = Inr v) vs fr"
    unfolding fr_def list_all2_map_same using look dec by auto
qed

lemma endpoints_frames:
  assumes "names_roundtrip c" and "\<forall>v \<in> set vs. sendable c v"
    and "registry_ok (allowed_types a)" and "allowed_types b = allowed_types a"
    and "\<forall>v \<in> set vs. type_of c v \<in> snd ` set (allowed_types a)"
    and "send_q a = vs" and "enc_err a = None" and "conn_open (soc a)" and "tx (soc a) = []"
    and "rx (soc b) = tx (soc (snd (send_loop c a)))" and "rx_eof (soc b)"
    and "dec_err b = None" and "\<not> local_closed (soc b)" and "\<not> close_recv_chan b"
    and "length (recv_q b) + length vs \<le> buf_length b"
  shows "recv_run (4 * length vs + 2) c RLoop b =
     Some (RReturned, b\<lparr>recv_q := recv_q b @ vs, recv_closed := True, dec_err := Some EOF,
                         soc := soc b\<lparr>rx := []\<rparr>\<rparr>)"
proof -
  define fr where "fr = map (\<lambda>v. (the (get_allowed_type_name (type_of c) (allowed_types a) v), projr (marshal c v))) vs"
  have s: "list_all2 (\<lambda>v (n, d). get_allowed_type_name (type_of c) (allowed_types a) v = Some n \<and>
                               marshal c v = Inr d) (send_q a) fr"
    and r: "list_all2 (\<lambda>v (n, d). \<exists>t. create_type_interface_reflect_pointer (allowed_types b) n = Some t \<and>
                                   unmarshal c t d = Inr v) vs fr"
    using sender_frames [OF assms(3,2,5)] assms(4,6) unfolding fr_def by simp_all
  have "tx (soc (snd (send_loop c a))) = concat (map (wire_frame c) fr)"
    using send_loop_frames [OF s assms(7,8)] assms(9) by simp
  then have "rx (soc b) = concat (map (wire_frame c) fr)"
    using assms(10) by simp
  from recv_run_frames [OF assms(1) r this assms(11-15)] show ?thesis .
qed

subsection \<open>The test\<close>

lemma test_sends:
  "user_sends [VString ''Hello'', test_value] test_wc = Some (Inr (test_wc\<lparr>send_q := [VString ''Hello'', test_value]\<rparr>))"
  by (simp add: user_send_def chan_put_def test_wc_def)

lemma test_send_loop:
  "send_loop go_json (test_wc\<lparr>send_q := [VString ''Hello'', test_value]\<rparr>) =
     (SRunning, test_wc\<lparr>soc := pipe_conn\<lparr>tx := [Doc (JString ''string''), Doc (JString ''Hello''),
        Doc (JString ''webchan.testType''), Doc (JObject [(''A'', JNumber 42), (''B'', JString ''Hello'')])]\<rparr>\<rparr>)"
proof -
  let ?fr = "[(''string'', JString ''Hello''),
              (''webchan.testType'', JObject [(''A'', JNumber 42), (''B'', JString ''Hello'')])]"
  have "list_all2 (\<lambda>v (n, d). get_allowed_type_name (type_of go_json) (allowed_types (test_wc\<lparr>send_q := [VString ''Hello'', test_value]\<rparr>)) v = Some n \<and>
                              marshal go_json v = Inr d) (send_q (test_wc\<lparr>send_q := [VString ''Hello'', test_value]\<rparr>)) ?fr"
    by (simp add: test_wc_def test_value_def)
  from send_loop_frames [OF this] show ?thesis by (simp add: test_wc_def pipe_conn_def)
qed

lemma test_recv_run:
  "recv_run 10 go_json RLoop (pipe_deliver [Doc (JString ''string''), Doc (JString ''Hello''),
        Doc (JString ''webchan.testType''), Doc (JObject [(''A'', JNumber 42), (''B'', JString ''Hello'')])] test_wc) =
   Some (RName, test_wc\<lparr>recv_q := [VString ''Hello'', test_value]\<rparr>)"
  by (simp add: pipe_deliver_def test_wc_def pipe_conn_def test_value_def recv_step_def json_decode_def
                create_type_interface_reflect_pointer_def chan_put_def numeral_eq_Suc)


end
