(* ===== verification/Typing.thy ===== *)
theory Typing
  imports Lifecycle
begin

text \<open>
  Type safety of the inbound path.  The receive goroutine decodes a payload
  into \<open>reflect.New(t)\<close> for the type \<open>t\<close> that \<open>createTypeInterfaceReflectPointer\<close>
  found for the frame's name, and pushes the decoded value onto \<open>Recv\<close>.  With a
  codec whose decoding into \<open>t\<close> yields values of type \<open>t\<close> (\<open>unmarshal_typed\<close>,
  which \<open>go_json\<close> satisfies), every value in \<open>Recv\<close> has a registered type,
  whatever the peer writes and however the goroutines interleave; and no step
  of the endpoint changes the registry.  \<open>pc_typed\<close> is the invariant: the
  values in \<open>Recv\<close>, the type the goroutine is about to decode into and the value
  it is about to push are all registered.
\<close>

definition pc_typed :: "('v, 'ty, 'd) codec \<Rightarrow> ('ty, 'v) recv_pc \<Rightarrow> ('v, 'ty, 'd) webchan \<Rightarrow> bool" where
  "pc_typed c pc w \<longleftrightarrow>
     (\<forall>v \<in> set (recv_q w). type_of c v \<in> snd ` set (allowed_types w)) \<and>
     (case pc of
        RPayload t \<Rightarrow> t \<in> snd ` set (allowed_types w)
      | RPush v \<Rightarrow> type_of c v \<in> snd ` set (allowed_types w)
      | _ \<Rightarrow> True)"

definition sys_typed :: "('v, 'ty, 'd) codec \<Rightarrow> 'ty registry \<Rightarrow> ('v, 'ty, 'd) sys \<Rightarrow> bool" where
  "sys_typed c r s \<longleftrightarrow> allowed_types (chan s) = r \<and> pc_typed c (rpc s) (chan s)"

lemma pc_typed_same:
  "allowed_types w' = allowed_types w \<Longrightarrow> set (recv_q w') \<subseteq> set (recv_q w) \<Longrightarrow>
   pc_typed c pc w \<Longrightarrow> pc_typed c pc w'"
  by (cases pc) (auto simp: pc_typed_def)

lemma send_step_recv_fields:
  assumes "send_step c w = Some (pc, w')"
  shows "allowed_types w' = allowed_types w \<and> recv_q w' = recv_q w"
proof (cases "send_q w")
  case Nil
  with assms show ?thesis by (simp split: if_splits)
next
  case (Cons data rest)
  have "encode_frame c n data (w\<lparr>send_q := rest\<rparr>) = (r, w2) \<Longrightarrow>
        allowed_types w2 = allowed_types w \<and> recv_q w2 = recv_q w" for n r w2
    by (drule encode_frame_send_q) simp
  with assms Cons show ?thesis
    by (auto simp: send_step_def Let_def split: option.splits prod.splits)
qed

lemma recv_step_typed:
  assumes "recv_step c pc w = Some (pc', w')" and "pc_typed c pc w" and "unmarshal_typed c"
  shows "pc_typed c pc' w' \<and> allowed_types w' = allowed_types w"
proof (cases pc)
  case RLoop
  with assms show ?thesis by (auto simp: recv_step_def recv_return_def pc_typed_def split: if_splits)
next
  case RName
  obtain r k s where d: "json_decode (unmarshal_name c) (dec_err w) (soc w) = (r, k, s)"
    by (metis prod_cases3)
  have base: "pc_typed c RLoop (w\<lparr>dec_err := k, soc := s\<rparr>)"
    using assms(2) by (simp add: pc_typed_def)
  show ?thesis
  proof (cases r)
    case (Got n)
    with assms(1,2) RName d show ?thesis
      by (auto simp: recv_step_def Let_def pc_typed_def create_type_interface_reflect_pointer_def
               intro: map_of_Some_snd split: option.splits)
  next
    case (ReadErr e)
    with assms(1) RName d base show ?thesis
      by (auto simp: recv_step_def recv_read_error_def recv_return_def pc_typed_def split: if_splits)
  next
    case Blocked
    with assms(1) RName d show ?thesis by (simp add: recv_step_def)
  qed
next
  case (RPayload t)
  obtain r k s where d: "json_decode (unmarshal c t) (dec_err w) (soc w) = (r, k, s)"
    by (metis prod_cases3)
  show ?thesis
  proof (cases r)
    case (Got v)
    with d obtain dd where "unmarshal c t dd = Inr v" by (blast dest: json_decode_Got)
    with assms(3) have "type_of c v = t" by (rule unmarshal_typedD)
    with Got assms(1,2) RPayload d show ?thesis
      by (force simp: recv_step_def pc_typed_def)
  next
    case (ReadErr e)
    with assms(1,2) RPayload d show ?thesis
      by (auto simp: recv_step_def recv_read_error_def recv_return_def pc_typed_def split: if_splits)
  next
    case Blocked
    with assms(1) RPayload d show ?thesis by (simp add: recv_step_def)
  qed
next
  case (RPush v)
  with assms(1,2) show ?thesis
    by (force simp: recv_step_push pc_typed_def split: if_splits)
next
  case RReturned
  with assms(1) show ?thesis by simp
qed

lemma sys_step_typed:
  assumes "sys_step c s t" and "sys_typed c r s" and "unmarshal_typed c"
  shows "sys_typed c r t"
  using assms
proof (induction rule: sys_step.induct)
  case (sender s pc w)
  then show ?case
    using send_step_recv_fields [of c "chan s" pc w] pc_typed_same [of w "chan s" c "rpc s"]
    by (simp add: sys_typed_def)
next
  case (send_handoff s v pc w)
  then show ?case
    using send_step_recv_fields [of c "(chan s)\<lparr>send_q := [v]\<rparr>" pc w] pc_typed_same [of w "chan s" c "rpc s"]
    by (simp add: sys_typed_def)
next
  case (receiver s pc w)
  then show ?case
    using recv_step_typed [of c "rpc s" "chan s" pc w] by (simp add: sys_typed_def)
next
  case (send_ok s v w)
  then show ?case
    using pc_typed_same [of w "chan s" c "rpc s"] by (simp add: sys_typed_def user_send_Inr)
next
  case (recv s r' w)
  then show ?case
    using pc_typed_same [of w "chan s" c "rpc s"] set_drop_subset [of 1 "recv_q (chan s)"]
    by (auto simp: sys_typed_def dest!: user_recv_Some)
next
  case (close_ok s i w)
  then show ?case
    using pc_typed_same [of w "chan s" c "rpc s"] by (simp add: sys_typed_def close_act_Inr)
qed (auto simp: sys_typed_def pc_typed_def split: recv_pc.splits)

lemma reach_typed:
  "reach c s0 s \<Longrightarrow> sys_typed c r s0 \<Longrightarrow> unmarshal_typed c \<Longrightarrow> sys_typed c r s"
  by (induction rule: reach.induct) (auto intro: sys_step_typed)


subsection \<open>Properties of the inbound types\<close>

text \<open>C6: type safety of \<open>Recv\<close>: in every state reachable from a freshly
  constructed endpoint, whatever the peer writes and however the goroutines,
  the callers and the peer interleave, the registry is the one built by the
  constructor and every value in \<open>Recv\<close> has one of its registered types.\<close>

theorem recv_values_typed:
  assumes "unmarshal_typed c" and "new_named_webchan c soc0 buf allowed = Inr w"
    and "reach c (init_sys w n) s"
  shows "allowed_types (chan s) = allowed_types w \<and>
         (\<forall>v \<in> set (recv_q (chan s)). type_of c v \<in> snd ` set (allowed_types w))"
proof -
  have "sys_typed c (allowed_types w) (init_sys w n)"
    using assms(2) by (auto simp: sys_typed_def pc_typed_def init_sys_def new_named_webchan_Inr)
  then have "sys_typed c (allowed_types w) s" using reach_typed assms(3,1) by blast
  then show ?thesis unfolding sys_typed_def pc_typed_def by auto
qed

lemma test_wc_receives_hello:
  "reach go_json (init_sys test_wc 1) ((init_sys test_wc 1)\<lparr>chan := test_wc\<lparr>recv_q := [VString ''Hello'']\<rparr>\<rparr>)"
proof -
  let ?s0 = "init_sys test_wc 1"
  let ?d1 = "Doc (JString ''string'')" and ?d2 = "Doc (JString ''Hello'')"
  let ?s1 = "?s0\<lparr>chan := test_wc\<lparr>soc := pipe_conn\<lparr>rx := [?d1]\<rparr>\<rparr>\<rparr>"
  let ?s2 = "?s0\<lparr>chan := test_wc\<lparr>soc := pipe_conn\<lparr>rx := [?d1, ?d2]\<rparr>\<rparr>\<rparr>"
  let ?s3 = "?s2\<lparr>rpc := RName\<rparr>"
  let ?s4 = "?s0\<lparr>chan := test_wc\<lparr>soc := pipe_conn\<lparr>rx := [?d2]\<rparr>\<rparr>, rpc := RPayload TString\<rparr>"
  let ?s5 = "?s0\<lparr>rpc := RPush (VString ''Hello'')\<rparr>"
  have "sys_step go_json ?s0 ?s1"
    using sys_step.peer_write [of ?s0 go_json ?d1] by (simp add: init_sys_def test_wc_def pipe_conn_def)
  moreover have "sys_step go_json ?s1 ?s2"
    using sys_step.peer_write [of ?s1 go_json ?d2] by (simp add: init_sys_def test_wc_def pipe_conn_def)
  moreover have "sys_step go_json ?s2 ?s3"
    using sys_step.receiver [of ?s2 go_json RName "chan ?s2"]
    by (simp add: init_sys_def test_wc_def recv_step_def)
  moreover have "sys_step go_json ?s3 ?s4"
    using sys_step.receiver [of ?s3 go_json "RPayload TString" "test_wc\<lparr>soc := pipe_conn\<lparr>rx := [?d2]\<rparr>\<rparr>"]
    by (simp add: init_sys_def test_wc_def pipe_conn_def recv_step_def json_decode_def
                  create_type_interface_reflect_pointer_def)
  moreover have "sys_step go_json ?s4 ?s5"
    using sys_step.receiver [of ?s4 go_json "RPush (VString ''Hello'')" test_wc]
    by (simp add: init_sys_def test_wc_def pipe_conn_def recv_step_def json_decode_def)
  moreover have "sys_step go_json ?s5 (?s0\<lparr>chan := test_wc\<lparr>recv_q := [VString ''Hello'']\<rparr>\<rparr>)"
    using sys_step.receiver [of ?s5 go_json RLoop "test_wc\<lparr>recv_q := [VString ''Hello'']\<rparr>"]
    by (simp add: init_sys_def test_wc_def recv_step_def chan_put_def)
  ultimately show ?thesis by (meson reach.start reach.step)
qed

theorem recv_values_typed_witness:
  "unmarshal_typed go_json \<and>
   new_named_webchan go_json pipe_conn 100 (new_webchan_types gtype_name gtype_of test_prototypes) = Inr test_wc \<and>
   reach go_json (init_sys test_wc 1) ((init_sys test_wc 1)\<lparr>chan := test_wc\<lparr>recv_q := [VString ''Hello'']\<rparr>\<rparr>) \<and>
   type_of go_json (VString ''Hello'') \<in> snd ` set (allowed_types test_wc)"
proof -
  have h1: "unmarshal_typed go_json" by (rule go_json_unmarshal_typed)
  have h2: "new_named_webchan go_json pipe_conn 100 (new_webchan_types gtype_name gtype_of test_prototypes) = Inr test_wc"
    using new_webchan_test by (simp add: new_webchan_def)
  note h3 = test_wc_receives_hello
  from recv_values_typed [OF h1 h2 h3] have "type_of go_json (VString ''Hello'') \<in> snd ` set (allowed_types test_wc)"
    by simp
  with h1 h2 h3 show ?thesis by blast
qed

end
