(* ===== verification/JsonText.thy ===== *)
theory JsonText
  imports GoJson
begin

text \<open>
  The bytes on the connection.  \<open>json.NewEncoder(soc)\<close> writes each document as
  its compact text followed by a newline (\<open>Encoder.Encode\<close>, with HTML escaping
  on, as it is by default); \<open>json.NewDecoder(soc)\<close> reads one JSON value per
  \<open>Decode\<close> call from the buffered bytes, skipping white space between values.
  \<open>json_text\<close> is the encoder's printer (\<open>encodeState.string\<close> for strings,
  \<open>strconv.AppendInt\<close> for integers); \<open>parse_value\<close> is the scanner and the
  unquoting of \<open>encoding/json/scanner.go\<close> and \<open>decode.go\<close> as one recursive-descent
  parser over the bytes, which tells a complete value (\<open>Value\<close>, with the
  bytes after it), input that ends inside a value (\<open>Incomplete\<close>) and the first
  byte that cannot continue a value (\<open>Invalid\<close>) apart; \<open>decode_value\<close> is
  \<open>Decoder.readValue\<close>: a scalar at the end of the buffer waits for the next byte
  or the end of the stream, and at the end of the stream the buffer is completed
  with a space.  A Go string is a byte string: valid UTF-8 is copied, a byte
  that starts no valid sequence is written as the escape of U+FFFD, and the \<open>u\<close> escapes
  decode to UTF-8 with surrogate pairs combined.  The parser takes fuel; one
  more unit than twice the number of bytes of the input is always enough (\<open>parse_value_fuel\<close>).
  Go's limit of 10000 nested values is not modelled.
\<close>

subsection \<open>Bytes\<close>

abbreviation dquote :: char where "dquote \<equiv> CHR 0x22"

abbreviation bslash :: char where "bslash \<equiv> CHR 0x5C"

abbreviation byte :: "char \<Rightarrow> nat" where "byte c \<equiv> of_char c"

definition is_ws :: "char \<Rightarrow> bool" where
  "is_ws c \<longleftrightarrow> c = CHR 0x20 \<or> c = CHR 0x09 \<or> c = CHR 0x0A \<or> c = CHR 0x0D"

definition is_digit :: "char \<Rightarrow> bool" where
  "is_digit c \<longleftrightarrow> 48 \<le> byte c \<and> byte c \<le> 57"

definition hex_char :: "nat \<Rightarrow> char" where
  "hex_char d = ''0123456789abcdef'' ! d"

definition hex_val :: "char \<Rightarrow> nat option" where
  "hex_val c =
     (if is_digit c then Some (byte c - 48)
      else if 97 \<le> byte c \<and> byte c \<le> 102 then Some (byte c - 87)
      else if 65 \<le> byte c \<and> byte c \<le> 70 then Some (byte c - 55)
      else None)"

text \<open>\<open>utf8.DecodeRune\<close>: the length of the valid UTF-8 sequence at the head of
  the bytes, 0 where it returns \<open>(RuneError, 1)\<close>.\<close>

definition in_range :: "nat \<Rightarrow> nat \<Rightarrow> char \<Rightarrow> bool" where
  "in_range lo hi c \<longleftrightarrow> lo \<le> byte c \<and> byte c \<le> hi"

definition tail_len :: "nat \<Rightarrow> nat \<Rightarrow> nat \<Rightarrow> string \<Rightarrow> nat" where
  "tail_len lo hi k cs =
     (if k \<le> length cs \<and> in_range lo hi (hd cs) \<and> list_all (in_range 0x80 0xBF) (take (k - 1) (tl cs))
      then Suc k else 0)"

text \<open>The lead bytes of multi-byte sequences (the \<open>first\<close> and \<open>acceptRanges\<close>
  tables of \<open>unicode/utf8\<close>): the range of the second byte and the number of
  continuation bytes.\<close>

definition first_byte :: "char \<Rightarrow> (nat \<times> nat \<times> nat) option" where
  "first_byte c =
     (if 0xC2 \<le> byte c \<and> byte c \<le> 0xDF then Some (0x80, 0xBF, 1)
      else if byte c = 0xE0 then Some (0xA0, 0xBF, 2)
      else if (0xE1 \<le> byte c \<and> byte c \<le> 0xEC) \<or> byte c = 0xEE \<or> byte c = 0xEF then Some (0x80, 0xBF, 2)
      else if byte c = 0xED then Some (0x80, 0x9F, 2)
      else if byte c = 0xF0 then Some (0x90, 0xBF, 3)
      else if 0xF1 \<le> byte c \<and> byte c \<le> 0xF3 then Some (0x80, 0xBF, 3)
      else if byte c = 0xF4 then Some (0x80, 0x8F, 3)
      else None)"

fun rune_len :: "string \<Rightarrow> nat" where
  "rune_len [] = 0"
| "rune_len (c # cs) =
     (if byte c < 0x80 then 1
      else case first_byte c of None \<Rightarrow> 0 | Some (lo, hi, k) \<Rightarrow> tail_len lo hi k cs)"

text \<open>\<open>utf8.EncodeRune\<close> of a code point of at most \<open>0x10FFFF\<close>.\<close>

definition utf8_encode :: "nat \<Rightarrow> string" where
  "utf8_encode cp =
     (if cp < 0x80 then [char_of cp]
      else if cp < 0x800 then [char_of (0xC0 + cp div 64), char_of (0x80 + cp mod 64)]
      else if cp < 0x10000 then
        [char_of (0xE0 + cp div 4096), char_of (0x80 + cp div 64 mod 64), char_of (0x80 + cp mod 64)]
      else [char_of (0xF0 + cp div 262144), char_of (0x80 + cp div 4096 mod 64),
            char_of (0x80 + cp div 64 mod 64), char_of (0x80 + cp mod 64)])"

function utf8_valid :: "string \<Rightarrow> bool" where
  "utf8_valid [] = True"
| "utf8_valid (c # cs) =
     (if rune_len (c # cs) = 0 then False else utf8_valid (drop (rune_len (c # cs)) (c # cs)))"
  by pat_completeness auto
termination by (relation "measure length") auto

subsection \<open>The encoder's printer\<close>

text \<open>One ASCII byte in a string (\<open>htmlSafeSet\<close> and the escapes of
  \<open>appendString\<close>).\<close>

definition esc_ascii :: "char \<Rightarrow> string" where
  "esc_ascii c =
     (if c = dquote \<or> c = bslash then [bslash, c]
      else if c = CHR 0x08 then [bslash, CHR ''b'']
      else if c = CHR 0x0C then [bslash, CHR ''f'']
      else if c = CHR 0x0A then [bslash, CHR ''n'']
      else if c = CHR 0x0D then [bslash, CHR ''r'']
      else if c = CHR 0x09 then [bslash, CHR ''t'']
      else if byte c < 0x20 \<or> c = CHR ''<'' \<or> c = CHR ''>'' \<or> c = CHR ''&''
      then [bslash, CHR ''u'', CHR ''0'', CHR ''0'', hex_char (byte c div 16), hex_char (byte c mod 16)]
      else [c])"

definition line_sep :: string where "line_sep = [CHR 0xE2, CHR 0x80, CHR 0xA8]"

definition para_sep :: string where "para_sep = [CHR 0xE2, CHR 0x80, CHR 0xA9]"

function esc_str :: "string \<Rightarrow> string" where
  "esc_str [] = []"
| "esc_str (c # cs) =
     (if byte c < 0x80 then esc_ascii c @ esc_str cs
      else if rune_len (c # cs) = 0 then bslash # ''ufffd'' @ esc_str cs
      else if take 3 (c # cs) = line_sep then bslash # ''u2028'' @ esc_str (drop 3 (c # cs))
      else if take 3 (c # cs) = para_sep then bslash # ''u2029'' @ esc_str (drop 3 (c # cs))
      else take (rune_len (c # cs)) (c # cs) @ esc_str (drop (rune_len (c # cs)) (c # cs)))"
  by pat_completeness auto
termination by (relation "measure length") auto

definition string_text :: "string \<Rightarrow> string" where
  "string_text s = dquote # esc_str s @ [dquote]"

primrec json_text :: "jval \<Rightarrow> string"
  and elems_text :: "jval list \<Rightarrow> string"
  and members_text :: "(string \<times> jval) list \<Rightarrow> string"
  and member_text :: "string \<times> jval \<Rightarrow> string" where
  "json_text (JString s) = string_text s"
| "json_text (JNumber i) = int_text i"
| "json_text (JObject kvs) = CHR ''{'' # members_text kvs @ ''}''"
| "json_text JNull = ''null''"
| "json_text (JBool b) = (if b then ''true'' else ''false'')"
| "json_text (JArray js) = CHR ''['' # elems_text js @ '']''"
| "json_text (JFloat t) = t"
| "elems_text [] = []"
| "elems_text (j # js) = json_text j @ (if js = [] then [] else CHR '','' # elems_text js)"
| "members_text [] = []"
| "members_text (kv # kvs) = member_text kv @ (if kvs = [] then [] else CHR '','' # members_text kvs)"
| "member_text (k, j) = string_text k @ CHR '':'' # json_text j"

text \<open>\<open>Encoder.Encode\<close> terminates each value with a newline.\<close>

definition encode_doc :: "jval \<Rightarrow> string" where
  "encode_doc j = json_text j @ [CHR 0x0A]"

text \<open>The documents the printer writes so that the parser reads them back:
  strings and keys of valid UTF-8 and no \<open>JFloat\<close> (which only the parser makes).
  \<open>delim\<close>: the bytes after a value start with a byte that ends it.\<close>

primrec text_ok :: "jval \<Rightarrow> bool"
  and elems_ok :: "jval list \<Rightarrow> bool"
  and members_ok :: "(string \<times> jval) list \<Rightarrow> bool"
  and member_ok :: "string \<times> jval \<Rightarrow> bool" where
  "text_ok (JString s) = utf8_valid s"
| "text_ok (JNumber i) = True"
| "text_ok (JObject kvs) = members_ok kvs"
| "text_ok JNull = True"
| "text_ok (JBool b) = True"
| "text_ok (JArray js) = elems_ok js"
| "text_ok (JFloat t) = False"
| "elems_ok [] = True"
| "elems_ok (j # js) = (text_ok j \<and> elems_ok js)"
| "members_ok [] = True"
| "members_ok (kv # kvs) = (member_ok kv \<and> members_ok kvs)"
| "member_ok (k, j) = (utf8_valid k \<and> text_ok j)"

text \<open>Go values whose strings and field names are valid UTF-8.\<close>

primrec val_utf8 :: "gval \<Rightarrow> bool"
  and fields_utf8 :: "(string \<times> gval) list \<Rightarrow> bool"
  and field_utf8 :: "string \<times> gval \<Rightarrow> bool" where
  "val_utf8 (VString s) = utf8_valid s"
| "val_utf8 (VInt i) = True"
| "val_utf8 (VFunc f) = True"
| "val_utf8 (VStruct n fs) = fields_utf8 fs"
| "fields_utf8 [] = True"
| "fields_utf8 (fv # fs) = (field_utf8 fv \<and> fields_utf8 fs)"
| "field_utf8 (f, v) = (utf8_valid f \<and> val_utf8 v)"

definition delim :: "string \<Rightarrow> bool" where
  "delim r = (case r of [] \<Rightarrow> False | d # _ \<Rightarrow> is_ws d \<or> d = CHR '','' \<or> d = CHR '']'' \<or> d = CHR ''}'')"

subsection \<open>The decoder's scanner\<close>

datatype 'a scan = Value 'a string | Incomplete | Invalid char | Exhausted

primrec scan_map :: "('a \<Rightarrow> 'b) \<Rightarrow> 'a scan \<Rightarrow> 'b scan" where
  "scan_map f (Value a r) = Value (f a) r"
| "scan_map f Incomplete = Incomplete"
| "scan_map f (Invalid c) = Invalid c"
| "scan_map f Exhausted = Exhausted"

definition skip_ws :: "string \<Rightarrow> string" where
  "skip_ws s = dropWhile is_ws s"

text \<open>A literal \<open>true\<close>, \<open>false\<close> or \<open>null\<close> (\<open>stateT\<close>, \<open>stateTr\<close>, ...).\<close>

fun match_lit :: "string \<Rightarrow> string \<Rightarrow> unit scan" where
  "match_lit [] s = Value () s"
| "match_lit (l # ls) [] = Incomplete"
| "match_lit (l # ls) (c # cs) = (if c = l then match_lit ls cs else Invalid c)"

definition parse_lit :: "string \<Rightarrow> jval \<Rightarrow> string \<Rightarrow> jval scan" where
  "parse_lit l j s = scan_map (\<lambda>_. j) (match_lit l s)"

text \<open>The escapes of a string (\<open>stateInStringEsc\<close>, \<open>unquoteBytes\<close>).\<close>

definition simple_escape :: "char \<Rightarrow> char option" where
  "simple_escape e =
     (if e = dquote \<or> e = bslash \<or> e = CHR ''/'' then Some e
      else if e = CHR ''b'' then Some (CHR 0x08)
      else if e = CHR ''f'' then Some (CHR 0x0C)
      else if e = CHR ''n'' then Some (CHR 0x0A)
      else if e = CHR ''r'' then Some (CHR 0x0D)
      else if e = CHR ''t'' then Some (CHR 0x09)
      else None)"

fun hex_digits :: "nat \<Rightarrow> nat \<Rightarrow> string \<Rightarrow> nat scan" where
  "hex_digits 0 acc s = Value acc s"
| "hex_digits (Suc k) acc [] = Incomplete"
| "hex_digits (Suc k) acc (c # cs) =
     (case hex_val c of None \<Rightarrow> Invalid c | Some d \<Rightarrow> hex_digits k (16 * acc + d) cs)"

definition fffd :: string where "fffd = utf8_encode 0xFFFD"

text \<open>A code point from \<open>\uXXXX\<close>: a high surrogate followed by an escaped low
  surrogate is one code point; any other surrogate is U+FFFD and the following
  bytes are read on their own (\<open>utf16.DecodeRune\<close> in \<open>unquoteBytes\<close>).\<close>

definition unicode_escape :: "nat \<Rightarrow> string \<Rightarrow> string \<times> string" where
  "unicode_escape cp r =
     (if 0xD800 \<le> cp \<and> cp < 0xE000 then
        (case r of
           b # u # r' \<Rightarrow>
             (if b = bslash \<and> u = CHR ''u'' then
                (case hex_digits 4 0 r' of
                   Value cp2 r'' \<Rightarrow>
                     (if cp < 0xDC00 \<and> 0xDC00 \<le> cp2 \<and> cp2 < 0xE000
                      then (utf8_encode (0x10000 + (cp - 0xD800) * 1024 + (cp2 - 0xDC00)), r'')
                      else (fffd, r))
                 | _ \<Rightarrow> (fffd, r))
              else (fffd, r))
         | _ \<Rightarrow> (fffd, r))
      else (utf8_encode cp, r))"

definition scan_cons :: "string \<Rightarrow> string scan \<Rightarrow> string scan" where
  "scan_cons xs sc = scan_map (\<lambda>ys. xs @ ys) sc"

lemma hex_digits_length: "hex_digits k acc s = Value v r \<Longrightarrow> length r + k = length s"
  by (induction k acc s rule: hex_digits.induct) (auto split: option.splits)

lemma unicode_escape_length: "unicode_escape cp r = (bs, r') \<Longrightarrow> length r' \<le> length r"
  by (auto simp: unicode_escape_def split: if_splits list.splits scan.splits
           dest!: hex_digits_length)

text \<open>The bytes of a string after its opening quote, up to the closing quote.\<close>

function parse_str :: "string \<Rightarrow> string scan" where
  "parse_str [] = Incomplete"
| "parse_str (c # cs) =
     (if c = dquote then Value [] cs
      else if c = bslash then
        (case cs of
           [] \<Rightarrow> Incomplete
         | e # r \<Rightarrow>
             (case simple_escape e of
                Some d \<Rightarrow> scan_cons [d] (parse_str r)
              | None \<Rightarrow>
                  (if e = CHR ''u'' then
                     (case hex_digits 4 0 r of
                        Value cp r1 \<Rightarrow> (case unicode_escape cp r1 of (bs, r2) \<Rightarrow> scan_cons bs (parse_str r2))
                      | Incomplete \<Rightarrow> Incomplete
                      | Invalid x \<Rightarrow> Invalid x
                      | Exhausted \<Rightarrow> Exhausted)
                   else Invalid e)))
      else if byte c < 0x20 then Invalid c
      else if byte c < 0x80 then scan_cons [c] (parse_str cs)
      else if rune_len (c # cs) = 0 then scan_cons fffd (parse_str cs)
      else scan_cons (take (rune_len (c # cs)) (c # cs)) (parse_str (drop (rune_len (c # cs)) (c # cs))))"
  by pat_completeness auto
termination
  by (relation "measure length")
     (auto dest!: hex_digits_length unicode_escape_length [OF sym])

text \<open>Numbers (\<open>state1\<close>, \<open>state0\<close>, \<open>stateDot\<close>, \<open>stateE\<close>, ...): an integer
  part without leading zeros, then an optional fraction and exponent.  A number
  that reaches the end of the bytes may still continue.\<close>

definition digits_val :: "string \<Rightarrow> nat" where
  "digits_val ds = foldl (\<lambda>n d. 10 * n + (byte d - 48)) 0 ds"

definition parse_digits :: "string \<Rightarrow> string scan" where
  "parse_digits s =
     (let ds = takeWhile is_digit s; rest = dropWhile is_digit s in
      if ds = [] then (case rest of [] \<Rightarrow> Incomplete | x # _ \<Rightarrow> Invalid x)
      else if rest = [] then Incomplete else Value ds rest)"

definition parse_exp_opt :: "string \<Rightarrow> string scan" where
  "parse_exp_opt s =
     (case s of
        [] \<Rightarrow> Incomplete
      | c # r \<Rightarrow>
          (if c = CHR ''e'' \<or> c = CHR ''E'' then
             (case r of
                [] \<Rightarrow> Incomplete
              | d # r' \<Rightarrow>
                  (if d = CHR ''+'' \<or> d = CHR ''-'' then scan_cons [c, d] (parse_digits r')
                   else scan_cons [c] (parse_digits r)))
           else Value [] s))"

definition parse_frac_opt :: "string \<Rightarrow> string scan" where
  "parse_frac_opt s =
     (case s of
        [] \<Rightarrow> Incomplete
      | c # r \<Rightarrow>
          (if c = CHR ''.'' then
             (case parse_digits r of
                Value ds rest \<Rightarrow> scan_cons (c # ds) (parse_exp_opt rest)
              | Incomplete \<Rightarrow> Incomplete
              | Invalid x \<Rightarrow> Invalid x
              | Exhausted \<Rightarrow> Exhausted)
           else parse_exp_opt s))"

definition number_end :: "string \<Rightarrow> string \<Rightarrow> string \<Rightarrow> jval scan" where
  "number_end sg ds rest =
     scan_map (\<lambda>t. if t = [] then JNumber (if sg = [] then int (digits_val ds) else - int (digits_val ds))
                   else JFloat (sg @ ds @ t))
       (parse_frac_opt rest)"

definition parse_number :: "string \<Rightarrow> jval scan" where
  "parse_number s =
     (let (sg, s1) = (case s of c # r \<Rightarrow> if c = CHR ''-'' then ([c], r) else ([], s) | [] \<Rightarrow> ([], [])) in
      case s1 of
        [] \<Rightarrow> Incomplete
      | c # r \<Rightarrow>
          (if c = CHR ''0'' then number_end sg ''0'' r
           else if is_digit c then number_end sg (c # takeWhile is_digit r) (dropWhile is_digit r)
           else Invalid c))"

text \<open>Sequencing: a step that does not yield a value ends the parse with its
  result; \<open>after_ws\<close> skips white space and looks at the next byte.\<close>

definition scan_bind :: "'a scan \<Rightarrow> ('a \<Rightarrow> string \<Rightarrow> 'b scan) \<Rightarrow> 'b scan" where
  "scan_bind sc f =
     (case sc of Value a r \<Rightarrow> f a r | Incomplete \<Rightarrow> Incomplete | Invalid c \<Rightarrow> Invalid c | Exhausted \<Rightarrow> Exhausted)"

definition after_ws :: "string \<Rightarrow> (char \<Rightarrow> string \<Rightarrow> 'b scan) \<Rightarrow> 'b scan" where
  "after_ws s f = (case skip_ws s of [] \<Rightarrow> Incomplete | c # r \<Rightarrow> f c r)"

text \<open>A value, the elements of an array after \<open>[\<close> and the members of an
  object after \<open>{\<close>; the fuel bounds the number of nested calls.\<close>

fun parse_value :: "nat \<Rightarrow> string \<Rightarrow> jval scan"
  and parse_elems :: "nat \<Rightarrow> jval list \<Rightarrow> string \<Rightarrow> jval scan"
  and parse_members :: "nat \<Rightarrow> (string \<times> jval) list \<Rightarrow> string \<Rightarrow> jval scan" where
  "parse_value 0 s = Exhausted"
| "parse_value (Suc n) s =
     after_ws s (\<lambda>c r.
       if c = CHR ''{'' then
         after_ws r (\<lambda>d r'. if d = CHR ''}'' then Value (JObject []) r' else parse_members n [] (d # r'))
       else if c = CHR ''['' then
         after_ws r (\<lambda>d r'. if d = CHR '']'' then Value (JArray []) r' else parse_elems n [] (d # r'))
       else if c = dquote then scan_map JString (parse_str r)
       else if c = CHR ''-'' \<or> is_digit c then parse_number (c # r)
       else if c = CHR ''t'' then parse_lit ''true'' (JBool True) (c # r)
       else if c = CHR ''f'' then parse_lit ''false'' (JBool False) (c # r)
       else if c = CHR ''n'' then parse_lit ''null'' JNull (c # r)
       else Invalid c)"
| "parse_elems 0 acc s = Exhausted"
| "parse_elems (Suc n) acc s =
     scan_bind (parse_value n s) (\<lambda>j r.
       after_ws r (\<lambda>c r'.
         if c = CHR '','' then parse_elems n (acc @ [j]) r'
         else if c = CHR '']'' then Value (JArray (acc @ [j])) r'
         else Invalid c))"
| "parse_members 0 acc s = Exhausted"
| "parse_members (Suc n) acc s =
     after_ws s (\<lambda>c r.
       if c \<noteq> dquote then Invalid c
       else scan_bind (parse_str r) (\<lambda>k r1.
         after_ws r1 (\<lambda>d r2.
           if d \<noteq> CHR '':'' then Invalid d
           else scan_bind (parse_value n r2) (\<lambda>j r3.
             after_ws r3 (\<lambda>e r4.
               if e = CHR '','' then parse_members n (acc @ [(k, j)]) r4
               else if e = CHR ''}'' then Value (JObject (acc @ [(k, j)])) r4
               else Invalid e)))))"

definition consumes :: "string \<Rightarrow> 'a scan \<Rightarrow> bool" where
  "consumes s sc = (case sc of Value a r \<Rightarrow> length r < length s | Exhausted \<Rightarrow> False | _ \<Rightarrow> True)"

subsection \<open>The decoder\<close>

text \<open>What \<open>Decoder.readValue\<close> makes of the buffered bytes: a value and the
  bytes after it, a wait for more bytes, or an error.  Only the end of an object
  or array ends a value at once; any other value ends with the byte after it, or
  with the end of the stream, where the scanner is given a space
  (\<open>dec.scan.step(&dec.scan, ' ')\<close>); a stream that ends inside a value is
  \<open>io.ErrUnexpectedEOF\<close>, one that ends in white space \<open>io.EOF\<close>.\<close>

datatype dec_outcome = DValue jval string | DBlock | DFail io_error

definition syntax_error :: "char \<Rightarrow> io_error" where
  "syntax_error c = SyntaxError (''invalid character '' @ [CHR 0x27, c, CHR 0x27])"

definition closes_at_once :: "jval \<Rightarrow> bool" where
  "closes_at_once j \<longleftrightarrow> (case j of JObject _ \<Rightarrow> True | JArray _ \<Rightarrow> True | _ \<Rightarrow> False)"

definition decode_value :: "string \<Rightarrow> bool \<Rightarrow> dec_outcome" where
  "decode_value buf eof =
     (case parse_value (Suc (2 * length buf)) buf of
        Value j r \<Rightarrow> (if r \<noteq> [] \<or> closes_at_once j \<or> eof then DValue j r else DBlock)
      | Invalid c \<Rightarrow> DFail (syntax_error c)
      | Incomplete \<Rightarrow>
          (if \<not> eof then DBlock
           else (case parse_value (Suc (2 * length (buf @ [CHR 0x20]))) (buf @ [CHR 0x20]) of
                   Value j r \<Rightarrow> DValue j []
                 | _ \<Rightarrow> (if list_all is_ws buf then DFail EOF else DFail ErrUnexpectedEOF)))
      | Exhausted \<Rightarrow> DBlock)"

text \<open>Successive \<open>Decode\<close> calls on a stream, until the first that does not
  return a value (a kept error or a wait).\<close>

fun decode_stream :: "nat \<Rightarrow> string \<Rightarrow> bool \<Rightarrow> jval list \<times> dec_outcome" where
  "decode_stream 0 buf eof = ([], DBlock)"
| "decode_stream (Suc n) buf eof =
     (case decode_value buf eof of
        DValue j r \<Rightarrow> (let (js, e) = decode_stream n r eof in (j # js, e))
      | e \<Rightarrow> ([], e))"

subsection \<open>Every parse ends\<close>

lemma consumes_simps [simp]:
  "consumes s (Value a r) \<longleftrightarrow> length r < length s" "consumes s Incomplete" "consumes s (Invalid c)"
  "\<not> consumes s Exhausted"
  by (simp_all add: consumes_def)

lemma consumes_scan_map [simp]: "consumes s (scan_map f sc) \<longleftrightarrow> consumes s sc"
  by (cases sc) simp_all

lemma consumes_scan_cons [simp]: "consumes s (scan_cons xs sc) \<longleftrightarrow> consumes s sc"
  by (simp add: scan_cons_def)

lemma consumes_mono: "consumes s sc \<Longrightarrow> length s \<le> length t \<Longrightarrow> consumes t sc"
  by (cases sc) simp_all

lemma hex_digits_not_Exhausted [simp]: "hex_digits k acc s \<noteq> Exhausted"
  by (induction k acc s rule: hex_digits.induct) (auto split: option.splits)

lemma parse_str_consumes: "consumes s (parse_str s)"
proof (induction s rule: parse_str.induct)
  case (2 c cs)
  show ?case
  proof (cases "c = dquote \<or> c \<noteq> bslash")
    case True
    then show ?thesis
      using 2(3,4,5) by (auto intro: consumes_mono)
  next
    case False
    then have c: "c = bslash" by simp
    show ?thesis
    proof (cases cs)
      case (Cons e r)
      show ?thesis
      proof (cases "simple_escape e")
        case (Some d)
        have "consumes r (parse_str r)" using 2(2) c Cons Some by auto
        then show ?thesis using c Cons Some by (auto elim: consumes_mono)
      next
        case None
        show ?thesis
        proof (cases "e = CHR ''u''")
          case True
          show ?thesis
          proof (cases "hex_digits 4 0 r")
            case (Value cp r1)
            obtain bs r2 where u: "unicode_escape cp r1 = (bs, r2)" by fastforce
            with Value have "length r2 < length (c # cs)"
              using Cons by (auto dest!: hex_digits_length unicode_escape_length)
            with 2(1) [OF _ c Cons None True Value u [symmetric]] c Cons None True Value u
            show ?thesis by (auto intro: consumes_mono)
          qed (use c Cons None True in simp_all)
        qed (use c Cons None in simp)
      qed
    qed (use c in simp)
  qed
qed simp

lemma consumes_Cons: "consumes s sc \<Longrightarrow> consumes (c # s) sc"
  by (erule consumes_mono) simp

lemma match_lit_consumes: "l \<noteq> [] \<Longrightarrow> consumes s (match_lit l s)"
proof (induction l s rule: match_lit.induct)
  case (3 l ls c cs)
  then show ?case by (cases ls) (auto intro: consumes_Cons)
qed simp_all

lemma dropWhile_shorter: "takeWhile P s \<noteq> [] \<Longrightarrow> length (dropWhile P s) < length s"
  by (cases s) (auto simp: length_dropWhile_le le_imp_less_Suc split: if_splits)

lemma parse_digits_not_Exhausted [simp]: "parse_digits s \<noteq> Exhausted"
  by (auto simp: parse_digits_def Let_def split: list.splits)

lemma parse_digits_Value: "parse_digits s = Value ds r \<Longrightarrow> length r < length s"
  by (auto simp: parse_digits_def Let_def dropWhile_shorter split: if_splits list.splits)

lemma scan_cons_Value: "scan_cons xs sc = Value a r \<Longrightarrow> \<exists>b. sc = Value b r"
  by (cases sc) (auto simp: scan_cons_def)

lemma scan_cons_not_Exhausted [simp]: "scan_cons xs sc = Exhausted \<longleftrightarrow> sc = Exhausted"
  by (cases sc) (auto simp: scan_cons_def)

lemma parse_exp_opt_not_Exhausted [simp]: "parse_exp_opt s \<noteq> Exhausted"
  by (simp add: parse_exp_opt_def split: list.splits)

lemma parse_exp_opt_Value: "parse_exp_opt s = Value t r \<Longrightarrow> length r \<le> length s"
  by (auto simp: parse_exp_opt_def split: if_splits list.splits
           dest!: scan_cons_Value parse_digits_Value)

lemma parse_frac_opt_not_Exhausted [simp]: "parse_frac_opt s \<noteq> Exhausted"
  by (simp add: parse_frac_opt_def split: list.splits scan.splits)

lemma parse_frac_opt_Value: "parse_frac_opt s = Value t r \<Longrightarrow> length r \<le> length s"
  by (auto simp: parse_frac_opt_def split: if_splits list.splits scan.splits
           dest!: scan_cons_Value parse_digits_Value parse_exp_opt_Value)

lemma number_end_consumes:
  "length r < length s \<Longrightarrow> consumes s (number_end sg ds r)"
  by (cases "parse_frac_opt r") (auto simp: number_end_def dest!: parse_frac_opt_Value)

lemma parse_number_consumes: "consumes s (parse_number s)"
proof -
  have d: "length (dropWhile is_digit r) < Suc (length r)" for r
    using length_dropWhile_le [of is_digit r] by simp
  then have "length (dropWhile is_digit r) < Suc (Suc (length r))" for r
    using less_SucI by blast
  with d show ?thesis
    by (auto simp: parse_number_def Let_def intro!: number_end_consumes split: list.splits)
qed

lemma skip_ws_length: "length (skip_ws s) \<le> length s"
  by (simp add: skip_ws_def length_dropWhile_le)

lemma skip_ws_Cons_length: "skip_ws s = c # r \<Longrightarrow> length r < length s"
  using skip_ws_length [of s] by simp

lemma parse_lit_consumes: "l \<noteq> [] \<Longrightarrow> consumes s (parse_lit l j s)"
  by (simp add: parse_lit_def match_lit_consumes)

lemma consumes_bind:
  "consumes t sc \<Longrightarrow> (\<And>a r. sc = Value a r \<Longrightarrow> length r < length t \<Longrightarrow> consumes t (f a r)) \<Longrightarrow>
   consumes t (scan_bind sc f)"
  by (cases sc) (auto simp: scan_bind_def)

lemma consumes_after_ws:
  "(\<And>c r. skip_ws s = c # r \<Longrightarrow> length r < length s \<Longrightarrow> consumes t (f c r)) \<Longrightarrow>
   consumes t (after_ws s f)"
  by (auto simp: after_ws_def skip_ws_Cons_length split: list.splits)

lemma skip_ws_Cons_le: "skip_ws s = c # r \<Longrightarrow> length (c # r) \<le> length s"
  by (metis skip_ws_length)

lemmas consumes_leaves =
  consumes_mono [OF parse_str_consumes] consumes_mono [OF parse_number_consumes]
  consumes_mono [OF parse_lit_consumes]

lemma parse_fuel:
  "2 * length s < n \<Longrightarrow> consumes s (parse_value n s)"
  "2 * length s + 1 < n \<Longrightarrow> consumes s (parse_elems n acc s)"
  "2 * length s + 1 < n \<Longrightarrow> consumes s (parse_members n kvs s)"
proof (induction n s and n acc s and n kvs s rule: parse_value_parse_elems_parse_members.induct)
  case (2 n s)
  have mem: "consumes s (parse_members n [] (d # r'))" if "d \<noteq> CHR ''}''" "length (d # r') < length s" for d r'
  proof -
    have "2 * length (d # r') + 1 < n" using 2(3) that(2) by simp
    then have "consumes (d # r') (parse_members n [] (d # r'))" using 2(1) [OF refl that(1)] by simp
    with that(2) show ?thesis by (auto elim: consumes_mono)
  qed
  have ela: "consumes s (parse_elems n [] (d # r'))" if "d \<noteq> CHR '']''" "length (d # r') < length s" for d r'
  proof -
    have "2 * length (d # r') + 1 < n" using 2(3) that(2) by simp
    then have "consumes (d # r') (parse_elems n [] (d # r'))" using 2(2) [OF _ refl that(1)] by simp
    with that(2) show ?thesis by (auto elim: consumes_mono)
  qed
  show ?case
    unfolding parse_value.simps
  proof (rule consumes_after_ws, goal_cases)
    case (1 c r)
    then have le: "length (c # r) \<le> length s" by (blast dest: skip_ws_Cons_le)
    have inner: "consumes s (after_ws r (\<lambda>d r'. if d = x then Value v r' else f d r'))"
      if "\<And>d r'. d \<noteq> x \<Longrightarrow> length (d # r') < length s \<Longrightarrow> consumes s (f d r')" for x v f
    proof (rule consumes_after_ws)
      fix d r' assume "skip_ws r = d # r'" "length r' < length r"
      with 1 that show "consumes s (if d = x then Value v r' else f d r')" by auto
    qed
    have "consumes s (after_ws r (\<lambda>d r'. if d = CHR ''}'' then Value (JObject []) r' else parse_members n [] (d # r')))"
      by (rule inner) (rule mem)
    moreover have "consumes s (after_ws r (\<lambda>d r'. if d = CHR '']'' then Value (JArray []) r' else parse_elems n [] (d # r')))"
      by (rule inner) (rule ela)
    ultimately show ?case
      using le by (simp add: consumes_leaves)
  qed
next
  case (4 n acc s)
  then have v: "consumes s (parse_value n s)" by simp
  show ?case
    unfolding parse_elems.simps
  proof (rule consumes_bind [OF v], goal_cases)
    case (1 j r)
    then have r: "length r < length s" by simp
    show ?case
    proof (rule consumes_after_ws, goal_cases)
      case (1 c r')
      with r 4(3) have "2 * length r' + 1 < n" by simp
      then have ih: "c = CHR '','' \<Longrightarrow> consumes r' (parse_elems n (acc @ [j]) r')" using 4(2) by blast
      have le: "length r' \<le> length s" using 1 r by simp
      from 1 r show ?case by (auto intro: consumes_mono [OF ih le])
    qed
  qed
next
  case (6 n kvs s)
  show ?case
    unfolding parse_members.simps
  proof (rule consumes_after_ws, goal_cases)
    case (1 c r)
    show ?case
    proof (cases "c = dquote")
      case True
      show ?thesis
      proof (simp add: True, rule consumes_bind, goal_cases)
        case 1
        show ?case using \<open>length r < length s\<close> by (simp add: consumes_leaves)
      next
        case (2 k r1)
        show ?case
        proof (rule consumes_after_ws, goal_cases)
          case (1 d r2)
          with 2 6(3) have f: "2 * length r2 < n" by simp
          show ?case
          proof (cases "d = CHR '':''")
            case True
            have v: "consumes r2 (parse_value n r2)" using 6(1) [of c d r2] f \<open>c = dquote\<close> True by blast
            show ?thesis
            proof (simp add: True, rule consumes_bind, goal_cases)
              case 1
              show ?case using v \<open>length r2 < length r1\<close> 2 by (auto elim: consumes_mono)
            next
              case (2 j r3)
              show ?case
              proof (rule consumes_after_ws, goal_cases)
                case (1 e r4)
                with 2 v \<open>length r2 < length r1\<close> \<open>length r1 < length s\<close> 6(3)
                have "2 * length r4 + 1 < n" by simp
                then have ih: "e = CHR '','' \<Longrightarrow> consumes r4 (parse_members n (kvs @ [(k, j)]) r4)"
                  using 6(2) \<open>c = dquote\<close> True by blast
                have le: "length r4 \<le> length s"
                  using 1 2 v \<open>length r2 < length r1\<close> \<open>length r1 < length s\<close> by simp
                from 1 2 v \<open>length r2 < length r1\<close> \<open>length r1 < length s\<close> show ?case
                  by (auto intro: consumes_mono [OF ih le])
              qed
            qed
          qed simp
        qed
      qed
    qed simp
  qed
qed simp_all

subsection \<open>Printing and parsing back\<close>

declare nat_text.simps [simp del]

lemma hex_val_hex_char: "d < 16 \<Longrightarrow> hex_val (hex_char d) = Some d"
  by (auto simp: hex_char_def hex_val_def is_digit_def less_Suc_eq numeral_eq_Suc)

lemma hex_digits_numeral [simp]:
  "hex_digits (numeral m) acc (c # cs) =
     (case hex_val c of None \<Rightarrow> Invalid c | Some d \<Rightarrow> hex_digits (pred_numeral m) (16 * acc + d) cs)"
  by (simp add: numeral_eq_Suc)

lemma hex_digits_esc:
  assumes "b < 256"
  shows "hex_digits 4 0 (CHR ''0'' # CHR ''0'' # hex_char (b div 16) # hex_char (b mod 16) # t) = Value b t"
proof -
  have "b div 16 < 16" using assms by simp
  moreover have "hex_val (CHR ''0'') = Some 0" by (simp add: hex_val_def is_digit_def)
  ultimately show ?thesis
    using div_mult_mod_eq [of b 16] by (simp add: hex_val_hex_char)
qed

lemma utf8_encode_ascii: "byte c < 0x80 \<Longrightarrow> utf8_encode (byte c) = [c]"
  by (simp add: utf8_encode_def)

lemma parse_str_esc_ascii:
  assumes "byte c < 0x80"
  shows "parse_str (esc_ascii c @ t) = scan_cons [c] (parse_str t)"
proof -
  have u: "unicode_escape (byte c) t = ([c], t)"
    using assms by (simp add: unicode_escape_def utf8_encode_ascii)
  have h: "hex_digits 4 0 (CHR ''0'' # CHR ''0'' # hex_char (byte c div 16) # hex_char (byte c mod 16) # t)
           = Value (byte c) t"
    using assms by (intro hex_digits_esc) simp
  show ?thesis
    using assms u h by (simp add: esc_ascii_def simple_escape_def)
qed

lemma tail_len_prefix:
  "tail_len lo hi k cs = Suc k \<Longrightarrow> 0 < k \<Longrightarrow> tail_len lo hi k (take k cs @ t) = Suc k"
  by (cases cs; cases k) (auto simp: tail_len_def split: if_splits)

lemma first_byte_pos: "first_byte c = Some (lo, hi, k) \<Longrightarrow> 0 < k"
  by (auto simp: first_byte_def split: if_splits)

lemma tail_len_cases: "tail_len lo hi k cs = 0 \<or> tail_len lo hi k cs = Suc k \<and> k \<le> length cs"
  by (simp add: tail_len_def)

lemma rune_len_le: "rune_len xs \<le> length xs"
  by (cases xs) (auto simp: tail_len_def split: option.splits)

lemma rune_len_prefix: "rune_len xs = n \<Longrightarrow> 0 < n \<Longrightarrow> rune_len (take n xs @ t) = n"
proof (cases xs)
  case (Cons c cs)
  assume r: "rune_len xs = n" and n: "0 < n"
  show ?thesis
  proof (cases "byte c < 0x80")
    case False
    then obtain lo hi k where f: "first_byte c = Some (lo, hi, k)" and tl: "tail_len lo hi k cs = n"
      using r n Cons by (auto split: option.splits)
    with n tail_len_cases [of lo hi k cs] have "n = Suc k" by auto
    with tl f tail_len_prefix [of lo hi k cs t] first_byte_pos [OF f] False Cons show ?thesis by simp
  next
    case True
    with r Cons have "n = 1" by simp
    with True Cons show ?thesis by simp
  qed
qed simp

lemma utf8_encode_line_sep: "utf8_encode 0x2028 = line_sep"
  by code_simp

lemma utf8_encode_para_sep: "utf8_encode 0x2029 = para_sep"
  by code_simp

lemma sep_rune_len:
  assumes "take 3 (c # cs) = line_sep \<or> take 3 (c # cs) = para_sep"
  shows "rune_len (c # cs) = 3"
proof -
  obtain a b r where "cs = a # b # r" and "c = CHR 0xE2" and "a = CHR 0x80"
    and "b = CHR 0xA8 \<or> b = CHR 0xA9"
    using assms by (cases cs rule: remdups_adj.cases) (auto simp: line_sep_def para_sep_def)
  then show ?thesis by (auto simp: tail_len_def in_range_def first_byte_def)
qed

lemma unicode_escape_plain: "\<not> (0xD800 \<le> cp \<and> cp < 0xE000) \<Longrightarrow> unicode_escape cp r = (utf8_encode cp, r)"
  unfolding unicode_escape_def by (simp only: if_not_P if_False)

lemma parse_str_u_escape:
  assumes "hex_digits 4 0 h = Value cp t" and "\<not> (0xD800 \<le> cp \<and> cp < 0xE000)"
  shows "parse_str (bslash # CHR ''u'' # h) = scan_cons (utf8_encode cp) (parse_str t)"
  using assms by (simp add: simple_escape_def unicode_escape_plain)

lemma hex_2028: "hex_digits 4 0 (''2028'' @ t) = Value 0x2028 t"
  by (simp add: hex_val_def is_digit_def)

lemma hex_2029: "hex_digits 4 0 (''2029'' @ t) = Value 0x2029 t"
  by (simp add: hex_val_def is_digit_def)

lemma scan_cons_Value_eq [simp]: "scan_cons xs (Value ys r) = Value (xs @ ys) r"
  by (simp add: scan_cons_def)

lemma parse_str_rune:
  assumes "rune_len (p @ t) = length p" and "p = c # x" and "\<not> byte c < 0x80"
  shows "parse_str (p @ t) = scan_cons p (parse_str t)"
proof -
  have cc: "c \<noteq> dquote" "c \<noteq> bslash" "\<not> byte c < 0x20" "rune_len (c # x @ t) \<noteq> 0"
    using assms by auto
  then show ?thesis
    using assms by (simp del: rune_len.simps)
qed

lemma parse_str_esc_str:
  "utf8_valid s \<Longrightarrow> parse_str (esc_str s @ dquote # rest) = Value s rest"
proof (induction s rule: esc_str.induct)
  case 1
  then show ?case by simp
next
  case (2 c cs)
  show ?case
  proof (cases "byte c < 0x80")
    case True
    then have "utf8_valid cs" using 2(6) by simp
    with True 2(1) show ?thesis by (simp add: parse_str_esc_ascii)
  next
    case False
    have n: "rune_len (c # cs) \<noteq> 0" using 2(6) by (simp split: if_splits)
    have v: "utf8_valid (drop (rune_len (c # cs)) (c # cs))" using 2(6) n by simp
    show ?thesis
    proof (cases "take 3 (c # cs) = line_sep")
      case True
      then have "rune_len (c # cs) = 3" by (intro sep_rune_len) simp
      with v have ih: "parse_str (esc_str (drop 3 (c # cs)) @ dquote # rest) = Value (drop 3 (c # cs)) rest"
        using 2(3) False n True by simp
      have e: "esc_str (c # cs) = bslash # CHR ''u'' # ''2028'' @ esc_str (drop 3 (c # cs))"
        using False n True by simp
      have u: "parse_str (bslash # CHR ''u'' # ''2028'' @ t) = scan_cons (utf8_encode 0x2028) (parse_str t)" for t
        by (rule parse_str_u_escape [OF hex_2028]) simp
      have "parse_str (esc_str (c # cs) @ dquote # rest)
            = scan_cons (utf8_encode 0x2028) (parse_str (esc_str (drop 3 (c # cs)) @ dquote # rest))"
        unfolding e using u by simp
      also have "\<dots> = Value (take 3 (c # cs) @ drop 3 (c # cs)) rest"
        using ih True by (simp add: utf8_encode_line_sep)
      finally show ?thesis by simp
    next
      case nl: False
      show ?thesis
      proof (cases "take 3 (c # cs) = para_sep")
        case True
        then have "rune_len (c # cs) = 3" by (intro sep_rune_len) simp
        with v have ih: "parse_str (esc_str (drop 3 (c # cs)) @ dquote # rest) = Value (drop 3 (c # cs)) rest"
          using 2(4) False n nl True by simp
        have e: "esc_str (c # cs) = bslash # CHR ''u'' # ''2029'' @ esc_str (drop 3 (c # cs))"
        using False n nl True by simp
      have u: "parse_str (bslash # CHR ''u'' # ''2029'' @ t) = scan_cons (utf8_encode 0x2029) (parse_str t)" for t
        by (rule parse_str_u_escape [OF hex_2029]) simp
      have "parse_str (esc_str (c # cs) @ dquote # rest)
            = scan_cons (utf8_encode 0x2029) (parse_str (esc_str (drop 3 (c # cs)) @ dquote # rest))"
        unfolding e using u by simp
      also have "\<dots> = Value (take 3 (c # cs) @ drop 3 (c # cs)) rest"
        using ih True by (simp add: utf8_encode_para_sep)
      finally show ?thesis by simp
      next
        case np: False
        let ?n = "rune_len (c # cs)"
        have ih: "parse_str (esc_str (drop ?n (c # cs)) @ dquote # rest) = Value (drop ?n (c # cs)) rest"
          using 2(5) False n nl np v by simp
        let ?Y = "esc_str (drop ?n (c # cs)) @ dquote # rest"
        obtain x where tk: "take ?n (c # cs) = c # x" using n by (cases ?n) simp_all
        have len: "length (take ?n (c # cs)) = ?n" using rune_len_le [of "c # cs"] by simp
        have "rune_len (take ?n (c # cs) @ ?Y) = ?n"
          by (rule rune_len_prefix [OF refl]) (use n in linarith)
        then have rl: "rune_len (take ?n (c # cs) @ ?Y) = length (take ?n (c # cs))"
          unfolding len .
        have "parse_str (take ?n (c # cs) @ ?Y) = scan_cons (take ?n (c # cs)) (parse_str ?Y)"
          by (rule parse_str_rune [OF rl tk False])
        with ih have "parse_str ((take ?n (c # cs) @ esc_str (drop ?n (c # cs))) @ dquote # rest) = Value (c # cs) rest"
          by (simp del: rune_len.simps)
        then show ?thesis using False n nl np by (simp del: rune_len.simps)
      qed
    qed
  qed
qed

lemma of_char_digit: "m < 10 \<Longrightarrow> of_char (char_of (48 + m) :: char) = (48 + m :: nat)"
  by (simp add: of_char_of)

lemma is_digit_char: "m < 10 \<Longrightarrow> is_digit (char_of (48 + m :: nat))"
  by (simp add: is_digit_def of_char_digit)

lemma nat_text_digits: "list_all is_digit (nat_text n)"
  by (induction n rule: nat_text.induct) (subst nat_text.simps, simp add: is_digit_char)

lemma nat_text_ne: "nat_text n \<noteq> []"
  by (subst nat_text.simps) simp

lemma digits_val_snoc: "digits_val (xs @ [d]) = 10 * digits_val xs + (byte d - 48)"
  by (simp add: digits_val_def)

lemma digits_val_nat_text: "digits_val (nat_text n) = n"
proof (induction n rule: nat_text.induct)
  case (1 n)
  show ?case
  proof (cases "n < 10")
    case True
    then show ?thesis by (subst nat_text.simps) (simp add: digits_val_def of_char_digit)
  next
    case False
    with 1 show ?thesis by (subst nat_text.simps) (simp add: digits_val_snoc of_char_digit)
  qed
qed

lemma nat_text_hd: "0 < n \<Longrightarrow> hd (nat_text n) \<noteq> CHR ''0''"
proof (induction n rule: nat_text.induct)
  case (1 n)
  show ?case
  proof (cases "n < 10")
    case True
    have "char_of (48 + n) \<noteq> CHR ''0''"
    proof
      assume "char_of (48 + n) = CHR ''0''"
      then have "(of_char (char_of (48 + n) :: char) :: nat) = of_char (CHR ''0'')" by simp
      with True 1(2) show False by (simp add: of_char_digit)
    qed
    with True show ?thesis by (subst nat_text.simps) simp
  next
    case False
    with 1 nat_text_ne [of "n div 10"] show ?thesis by (subst nat_text.simps) simp
  qed
qed

lemma nat_text_0: "nat_text 0 = ''0''"
proof -
  have "char_of (48::nat) = CHR ''0''" by code_simp
  then show ?thesis by (subst nat_text.simps) simp
qed

lemma delim_Cons: "delim (d # r) \<Longrightarrow> \<not> is_digit d \<and> d \<noteq> CHR ''.'' \<and> d \<noteq> CHR ''e'' \<and> d \<noteq> CHR ''E''"
  by (auto simp: delim_def is_ws_def is_digit_def)

lemma number_end_delim:
  "delim rest \<Longrightarrow>
   number_end sg ds rest = Value (JNumber (if sg = [] then int (digits_val ds) else - int (digits_val ds))) rest"
  by (cases rest) (auto simp: number_end_def parse_frac_opt_def parse_exp_opt_def delim_def is_ws_def)

lemma digits_split:
  "list_all is_digit ds \<Longrightarrow> delim rest \<Longrightarrow>
   takeWhile is_digit (ds @ rest) = ds \<and> dropWhile is_digit (ds @ rest) = rest"
  by (cases rest) (auto simp: list_all_iff takeWhile_append2 dropWhile_append2 dest: delim_Cons)

lemma parse_number_nat_text:
  assumes "delim rest" and "sg = [] \<or> sg = ''-''"
  shows "parse_number (sg @ nat_text m @ rest) = Value (JNumber (if sg = [] then int m else - int m)) rest"
proof (cases "m = 0")
  case True
  then have "nat_text m = ''0''" by (simp add: nat_text_0)
  with assms True show ?thesis by (auto simp: parse_number_def number_end_delim digits_val_def)
next
  case False
  obtain c r where cr: "nat_text m = c # r" using nat_text_ne by (cases "nat_text m") auto
  with False nat_text_hd [of m] have c0: "c \<noteq> CHR ''0''" by simp
  from nat_text_digits [of m] cr have dc: "is_digit c" and dr: "list_all is_digit r" by auto
  then have "c \<noteq> CHR ''-''" by (auto simp: is_digit_def)
  have "parse_number (sg @ c # r @ rest) = number_end sg (c # r) rest"
    using assms(2) c0 dc \<open>c \<noteq> CHR ''-''\<close> digits_split [OF dr assms(1)]
    by (auto simp: parse_number_def)
  with assms(1) digits_val_nat_text [of m] cr show ?thesis by (simp add: number_end_delim)
qed

lemma parse_number_int_text: "delim rest \<Longrightarrow> parse_number (int_text i @ rest) = Value (JNumber i) rest"
  using parse_number_nat_text [of rest "[]" "nat i"] parse_number_nat_text [of rest "''-''" "nat (- i)"]
  by (auto simp: int_text_def)

lemma match_lit_append: "match_lit l (l @ r) = Value () r"
  by (induction l) auto

lemma after_ws_Cons [simp]: "\<not> is_ws c \<Longrightarrow> after_ws (c # s) f = f c s"
  by (simp add: after_ws_def skip_ws_def)

lemma scan_bind_Value [simp]: "scan_bind (Value a r) f = f a r"
  by (simp add: scan_bind_def)

lemma delim_simps [simp]:
  "delim (CHR '','' # x)" "delim (CHR '']'' # x)" "delim (CHR ''}'' # x)" "delim (CHR 0x0A # x)"
  by (simp_all add: delim_def is_ws_def)

lemma ws_simps [simp]:
  "\<not> is_ws dquote" "\<not> is_ws CHR '':''" "\<not> is_ws CHR '',''" "\<not> is_ws CHR ''}''" "\<not> is_ws CHR '']''"
  "\<not> is_ws CHR ''{''" "\<not> is_ws CHR ''[''" "\<not> is_ws CHR ''-''"
  "\<not> is_ws CHR ''t''" "\<not> is_ws CHR ''f''" "\<not> is_ws CHR ''n''"
  by (simp_all add: is_ws_def)

lemma int_text_head: "\<exists>c r. int_text i = c # r \<and> (c = CHR ''-'' \<or> is_digit c)"
proof -
  obtain c r where "nat_text (nat (if i < 0 then - i else i)) = c # r"
    using nat_text_ne by (cases "nat_text (nat (if i < 0 then - i else i))") auto
  moreover have "list_all is_digit (c # r)" using calculation nat_text_digits by metis
  ultimately show ?thesis by (auto simp: int_text_def)
qed

lemma digit_not_special:
  "is_digit c \<Longrightarrow> \<not> is_ws c \<and> c \<noteq> CHR ''{'' \<and> c \<noteq> CHR ''['' \<and> c \<noteq> dquote \<and> c \<noteq> CHR '']'' \<and>
     c \<noteq> CHR ''}'' \<and> c \<noteq> CHR ''t'' \<and> c \<noteq> CHR ''f'' \<and> c \<noteq> CHR ''n''"
  by (auto simp: is_digit_def is_ws_def)

lemma json_text_head:
  "text_ok j \<Longrightarrow> \<exists>c r. json_text j = c # r \<and> \<not> is_ws c \<and> c \<noteq> CHR '']'' \<and> c \<noteq> CHR ''}''"
proof (cases j)
  case (JNumber i)
  then show ?thesis using int_text_head [of i] digit_not_special by fastforce
qed (auto simp: string_text_def)

lemma parse_elems_text:
  assumes "\<And>j n rest. j \<in> set js \<Longrightarrow> delim rest \<Longrightarrow> 2 * length (json_text j @ rest) < n \<Longrightarrow>
             parse_value n (json_text j @ rest) = Value j rest"
    and "js \<noteq> []" and "2 * length (elems_text js @ CHR '']'' # rest) + 1 < n"
  shows "parse_elems n acc (elems_text js @ CHR '']'' # rest) = Value (JArray (acc @ js)) rest"
  using assms
proof (induction js arbitrary: acc n)
  case (Cons j js)
  obtain m where n: "n = Suc m" using Cons.prems(3) by (cases n) auto
  let ?R = "(if js = [] then [] else CHR '','' # elems_text js) @ CHR '']'' # rest"
  have eq: "elems_text (j # js) @ CHR '']'' # rest = json_text j @ ?R" by simp
  have dR: "delim ?R" by (cases "js = []") simp_all
  have f: "2 * length (json_text j @ ?R) < m" using Cons.prems(3) n unfolding eq by simp
  have v: "parse_value m (json_text j @ ?R) = Value j ?R" using Cons.prems(1) [of j ?R m] dR f by simp
  show ?case
  proof (cases "js = []")
    case True
    with v n show ?thesis unfolding eq by simp
  next
    case False
    have ih: "parse_elems m (acc @ [j]) (elems_text js @ CHR '']'' # rest) = Value (JArray ((acc @ [j]) @ js)) rest"
      using Cons.IH [of m "acc @ [j]"] Cons.prems(1,3) False n by simp
    from v ih n False show ?thesis unfolding eq by simp
  qed
qed simp

lemma parse_members_text:
  assumes "\<And>k j n rest. (k, j) \<in> set kvs \<Longrightarrow> delim rest \<Longrightarrow> 2 * length (json_text j @ rest) < n \<Longrightarrow>
             parse_value n (json_text j @ rest) = Value j rest"
    and "members_ok kvs" and "kvs \<noteq> []" and "2 * length (members_text kvs @ CHR ''}'' # rest) + 1 < n"
  shows "parse_members n acc (members_text kvs @ CHR ''}'' # rest) = Value (JObject (acc @ kvs)) rest"
  using assms
proof (induction kvs arbitrary: acc n)
  case (Cons kv kvs)
  obtain k j where kv: "kv = (k, j)" by fastforce
  obtain m where n: "n = Suc m" using Cons.prems(4) by (cases n) auto
  let ?R = "(if kvs = [] then [] else CHR '','' # members_text kvs) @ CHR ''}'' # rest"
  have eq: "members_text (kv # kvs) @ CHR ''}'' # rest = dquote # esc_str k @ dquote # CHR '':'' # json_text j @ ?R"
    by (simp add: kv string_text_def)
  have uk: "utf8_valid k" using Cons.prems(2) kv by simp
  have dR: "delim ?R" by (cases "kvs = []") simp_all
  have f: "2 * length (json_text j @ ?R) < m" using Cons.prems(4) n unfolding eq by simp
  have v: "parse_value m (json_text j @ ?R) = Value j ?R" using Cons.prems(1) [of k j ?R m] kv dR f by simp
  have s: "parse_str (esc_str k @ dquote # CHR '':'' # json_text j @ ?R) = Value k (CHR '':'' # json_text j @ ?R)"
    using uk by (rule parse_str_esc_str)
  show ?case
  proof (cases "kvs = []")
    case True
    with v s n kv show ?thesis unfolding eq by simp
  next
    case False
    have ih: "parse_members m (acc @ [(k, j)]) (members_text kvs @ CHR ''}'' # rest) = Value (JObject ((acc @ [(k, j)]) @ kvs)) rest"
    proof (rule Cons.IH)
      show "parse_value n' (json_text j' @ rest') = Value j' rest'"
        if "(k', j') \<in> set kvs" "delim rest'" "2 * length (json_text j' @ rest') < n'" for k' j' n' rest'
        using Cons.prems(1) [of k' j' rest' n'] that by simp
      show "members_ok kvs" using Cons.prems(2) by simp
      show "2 * length (members_text kvs @ CHR ''}'' # rest) + 1 < m" using Cons.prems(4) n False kv by simp
    qed (rule False)
    from v s ih n False kv show ?thesis unfolding eq by simp
  qed
qed simp

lemma members_ok_all: "members_ok kvs \<longleftrightarrow> (\<forall>(k, j) \<in> set kvs. utf8_valid k \<and> text_ok j)"
  by (induction kvs) auto

lemma elems_ok_all: "elems_ok js \<longleftrightarrow> (\<forall>j \<in> set js. text_ok j)"
  by (induction js) auto

lemma parse_json_text:
  "text_ok j \<Longrightarrow> delim rest \<or> closes_at_once j \<Longrightarrow> 2 * length (json_text j @ rest) < n \<Longrightarrow>
   parse_value n (json_text j @ rest) = Value j rest"
proof (induction j arbitrary: n rest)
  case (JString s)
  then obtain m where "n = Suc m" by (cases n) auto
  with JString show ?case by (simp add: string_text_def parse_str_esc_str)
next
  case (JNumber i)
  then obtain m where n: "n = Suc m" by (cases n) auto
  obtain c r where cr: "int_text i = c # r" and c: "c = CHR ''-'' \<or> is_digit c"
    using int_text_head by blast
  then have "\<not> is_ws c \<and> c \<noteq> CHR ''{'' \<and> c \<noteq> CHR ''['' \<and> c \<noteq> dquote"
    using digit_not_special by auto
  with c have "parse_value n (json_text (JNumber i) @ rest) = parse_number (int_text i @ rest)"
    using n cr by auto
  moreover have "delim rest" using JNumber.prems(2) by (simp add: closes_at_once_def)
  ultimately show ?case by (simp add: parse_number_int_text)
next
  case (JObject kvs)
  then obtain m where n: "n = Suc m" by (cases n) auto
  show ?case
  proof (cases kvs)
    case Nil
    with n show ?thesis by simp
  next
    case (Cons kv kvs')
    obtain X where X: "members_text kvs @ CHR ''}'' # rest = dquote # X"
      using Cons by (cases kv) (simp add: string_text_def)
    have ih: "parse_value n' (json_text j' @ rest') = Value j' rest'"
      if "(k', j') \<in> set kvs" "delim rest'" "2 * length (json_text j' @ rest') < n'" for k' j' n' rest'
      using JObject.IH [of "(k', j')" j'] JObject.prems(1) that by (fastforce simp: members_ok_all)
    have "parse_members m [] (members_text kvs @ CHR ''}'' # rest) = Value (JObject ([] @ kvs)) rest"
      using JObject.prems n Cons by (intro parse_members_text ih) simp_all
    with n X show ?thesis by simp
  qed
next
  case (JArray js)
  then obtain m where n: "n = Suc m" by (cases n) auto
  show ?case
  proof (cases js)
    case Nil
    with n show ?thesis by simp
  next
    case (Cons j js')
    obtain c X where X: "elems_text js @ CHR '']'' # rest = c # X" and c: "\<not> is_ws c \<and> c \<noteq> CHR '']''"
      using Cons JArray.prems(1) json_text_head [of j] by auto
    have ih: "parse_value n' (json_text j' @ rest') = Value j' rest'"
      if "j' \<in> set js" "delim rest'" "2 * length (json_text j' @ rest') < n'" for j' n' rest'
      using JArray.IH [of j'] JArray.prems(1) that by (fastforce simp: elems_ok_all)
    have "parse_elems m [] (elems_text js @ CHR '']'' # rest) = Value (JArray ([] @ js)) rest"
      using JArray.prems n Cons by (intro parse_elems_text ih) simp_all
    with n X c show ?thesis by simp
  qed
next
  case JNull
  then obtain m where "n = Suc m" by (cases n) auto
  then show ?case by (simp add: parse_lit_def is_digit_def match_lit_append [of "''null''", simplified])
next
  case (JBool b)
  then obtain m where "n = Suc m" by (cases n) auto
  then show ?case
    using match_lit_append [of "''true''" rest] match_lit_append [of "''false''" rest]
    by (simp add: parse_lit_def is_digit_def)
qed simp

lemma skip_ws_append: "list_all is_ws w \<Longrightarrow> skip_ws (w @ s) = skip_ws s"
  by (simp add: skip_ws_def dropWhile_append list_all_iff)

lemma parse_value_ws: "list_all is_ws w \<Longrightarrow> parse_value (Suc m) (w @ s) = parse_value (Suc m) s"
  by (simp add: after_ws_def skip_ws_append)

lemma skip_ws_all: "list_all is_ws w \<Longrightarrow> skip_ws w = []"
  by (simp add: skip_ws_def list_all_iff)

lemma decode_value_doc:
  assumes "list_all is_ws w" and "text_ok j"
  shows "decode_value (w @ json_text j @ CHR 0x0A # tl_bytes) eof = DValue j (CHR 0x0A # tl_bytes)"
proof -
  let ?buf = "w @ json_text j @ CHR 0x0A # tl_bytes"
  have "parse_value (Suc (2 * length ?buf)) ?buf = parse_value (Suc (2 * length ?buf)) (json_text j @ CHR 0x0A # tl_bytes)"
    using assms(1) by (rule parse_value_ws)
  also have "\<dots> = Value j (CHR 0x0A # tl_bytes)"
    using assms(2) by (intro parse_json_text) simp_all
  finally show ?thesis by (simp add: decode_value_def)
qed

lemma decode_value_ws:
  assumes "list_all is_ws w"
  shows "decode_value w eof = (if eof then DFail EOF else DBlock)"
proof -
  have "parse_value (Suc n) w = Incomplete" for n using assms by (simp add: after_ws_def skip_ws_all)
  moreover have "parse_value (Suc n) (w @ [CHR 0x20]) = Incomplete" for n
    using assms by (simp add: after_ws_def skip_ws_all is_ws_def)
  ultimately show ?thesis using assms by (simp add: decode_value_def)
qed

lemma decode_stream_docs:
  "list_all text_ok ds \<Longrightarrow> list_all is_ws w \<Longrightarrow>
   decode_stream (Suc (length ds)) (w @ concat (map encode_doc ds)) eof = (ds, if eof then DFail EOF else DBlock)"
proof (induction ds arbitrary: w)
  case Nil
  then show ?case by (simp add: decode_value_ws)
next
  case (Cons d ds)
  have "decode_value (w @ concat (map encode_doc (d # ds))) eof = DValue d (CHR 0x0A # concat (map encode_doc ds))"
    using decode_value_doc [of w d "concat (map encode_doc ds)" eof] Cons.prems by (simp add: encode_doc_def)
  moreover have "decode_stream (Suc (length ds)) ([CHR 0x0A] @ concat (map encode_doc ds)) eof
                 = (ds, if eof then DFail EOF else DBlock)"
    by (rule Cons.IH) (use Cons.prems in \<open>simp_all add: is_ws_def\<close>)
  ultimately show ?case by simp
qed

declare nat_text.simps [simp]

lemmas char_eval = char_of_def bit_0

lemma marshal_fields_ok:
  "(\<And>f v j. (f, v) \<in> set fs \<Longrightarrow> json_marshal v = Inr j \<Longrightarrow> val_utf8 v \<Longrightarrow> text_ok j) \<Longrightarrow>
   marshal_fields fs = Inr kvs \<Longrightarrow> fields_utf8 fs \<Longrightarrow> members_ok kvs"
proof (induction fs arbitrary: kvs)
  case (Cons fv fs)
  obtain f v where fv: "fv = (f, v)" by fastforce
  with Cons.prems(2) obtain j kvs' where "json_marshal v = Inr j" "marshal_fields fs = Inr kvs'"
    "kvs = (f, j) # kvs'"
    by (auto split: sum.splits)
  with Cons fv show ?case by auto
qed simp

lemma marshal_text_ok: "json_marshal v = Inr j \<Longrightarrow> val_utf8 v \<Longrightarrow> text_ok j"
proof (induction v arbitrary: j)
  case (VStruct n fs)
  then obtain kvs where "marshal_fields fs = Inr kvs" "j = JObject kvs" by (auto split: sum.splits)
  with VStruct show ?case by (auto intro!: marshal_fields_ok)
qed auto

lemma utf8_encode_fffd: "utf8_encode 0xFFFD = [CHR 0xEF, CHR 0xBF, CHR 0xBD]"
  by (simp add: utf8_encode_def char_eval)

lemma hex_fffd: "hex_digits 4 0 (''fffd'' @ t) = Value 0xFFFD t"
  by (simp add: hex_val_def is_digit_def)

subsection \<open>Properties of the text level\<close>

text \<open>C16: framing: the decoder reads back, in order, every document the encoder
  wrote to the stream (a JSON text and a newline each), and then reports
  \<open>io.EOF\<close> when the stream has ended, or waits for more bytes while it is open.\<close>

theorem decode_stream_roundtrip:
  "list_all text_ok ds \<Longrightarrow>
   decode_stream (Suc (length ds)) (concat (map encode_doc ds)) eof = (ds, if eof then DFail EOF else DBlock)"
  using decode_stream_docs [of ds "[]" eof] by simp

theorem decode_stream_roundtrip_witness:
  "list_all text_ok [JString ''string'', JString ''Hello''] \<and>
   decode_stream (Suc (length [JString ''string'', JString ''Hello'']))
     (concat (map encode_doc [JString ''string'', JString ''Hello''])) True
   = ([JString ''string'', JString ''Hello''], DFail EOF)"
proof -
  have h: "list_all text_ok [JString ''string'', JString ''Hello'']" by simp
  show ?thesis using decode_stream_roundtrip [OF h, of True] h by simp
qed

text \<open>C15: a value sent is the value received, at the level of bytes: every
  well-formed Go value whose strings are valid UTF-8 marshals to a document that
  the decoder reads back from the encoder's bytes and unmarshals, into the
  value's own type, to the value itself.\<close>

theorem send_text_roundtrip:
  assumes "wf_val v" and "val_utf8 v"
  shows "\<exists>j. json_marshal v = Inr j \<and> decode_value (encode_doc j) eof = DValue j [CHR 0x0A] \<and>
             json_unmarshal (gtype_of v) j = Inr v"
proof -
  obtain j where m: "json_marshal v = Inr j" and u: "json_unmarshal (gtype_of v) j = Inr v"
    using json_roundtrip [OF assms(1)] by blast
  have "text_ok j" using m assms(2) by (rule marshal_text_ok)
  then have "decode_value ([] @ json_text j @ CHR 0x0A # []) eof = DValue j [CHR 0x0A]"
    by (intro decode_value_doc) simp_all
  with m u show ?thesis by (auto simp: encode_doc_def)
qed

theorem send_text_roundtrip_witness:
  "wf_val test_value \<and> val_utf8 test_value \<and>
   (\<exists>j. json_marshal test_value = Inr j \<and> decode_value (encode_doc j) False = DValue j [CHR 0x0A] \<and>
        json_unmarshal (gtype_of test_value) j = Inr test_value)"
proof -
  have h: "wf_val test_value" "val_utf8 test_value" by (simp_all add: test_value_def)
  with send_text_roundtrip [OF h, of False] show ?thesis by blast
qed




end
