(* ===== verification/JsonPrefix.thy ===== *)
theory JsonPrefix
  imports JsonText
begin

text \<open>The decoder on a document that has not fully arrived.  \<open>Decoder.Decode\<close>
  (\<open>src/webchan.go\<close>, \<open>Recv\<close>, line 72) reads from a connection that delivers
  the bytes of a frame in pieces; this theory shows that every scanner of
  \<open>JsonText\<close> is online (it reads left to right and commits to nothing a later
  byte could change), that the fuel of \<open>parse_value\<close> only bounds the recursion,
  and from both that a strict prefix of an encoded document makes the decoder
  wait.  This is what \<open>Wire\<close>'s cut of a frame into pieces relies on.\<close>

text \<open>A scanner is online when, given a prefix of its input, it either waits for
  more bytes or returns the same value with the same remaining bytes.\<close>

definition online :: "(string \<Rightarrow> 'a scan) \<Rightarrow> bool" where
  "online A \<longleftrightarrow> (\<forall>p q a r. A (p @ q) = Value a r \<longrightarrow>
                     A p = Incomplete \<or> (\<exists>rp. A p = Value a rp \<and> r = rp @ q))"

subsection \<open>Leaves: literals, digits, numbers\<close>

lemma onlineI:
  "(\<And>p q a r. A (p @ q) = Value a r \<Longrightarrow> A p = Incomplete \<or> (\<exists>rp. A p = Value a rp \<and> r = rp @ q)) \<Longrightarrow>
   online A"
  by (simp add: online_def)

lemma onlineD:
  "online A \<Longrightarrow> A (p @ q) = Value a r \<Longrightarrow> A p = Incomplete \<or> (\<exists>rp. A p = Value a rp \<and> r = rp @ q)"
  by (simp add: online_def)

lemma match_lit_online: "online (match_lit l)"
proof (rule onlineI)
  fix p q a r
  show "match_lit l (p @ q) = Value a r \<Longrightarrow> match_lit l p = Incomplete \<or> (\<exists>rp. match_lit l p = Value a rp \<and> r = rp @ q)"
  proof (induction l p rule: match_lit.induct)
    case (2 l ls)
    then show ?case by simp
  qed (auto split: if_splits)
qed

lemma hex_digits_online: "online (hex_digits k acc)"
proof (rule onlineI)
  fix p q a r
  show "hex_digits k acc (p @ q) = Value a r \<Longrightarrow>
        hex_digits k acc p = Incomplete \<or> (\<exists>rp. hex_digits k acc p = Value a rp \<and> r = rp @ q)"
    by (induction k acc p rule: hex_digits.induct) (auto split: option.splits)
qed

lemma takeWhile_dropWhile_app:
  "takeWhile P (p @ q) = takeWhile P p @ (if list_all P p then takeWhile P q else [])"
  "dropWhile P (p @ q) = (if list_all P p then dropWhile P q else dropWhile P p @ q)"
  by (auto simp: takeWhile_append dropWhile_append list_all_iff takeWhile_eq_all_conv [THEN iffD2])

lemma dropWhile_all_Nil: "list_all P p \<Longrightarrow> dropWhile P p = []"
  by (simp add: list_all_iff)

lemma parse_digits_online: "online parse_digits"
proof (rule onlineI)
  fix p q a r
  assume v: "parse_digits (p @ q) = Value a r"
  show "parse_digits p = Incomplete \<or> (\<exists>rp. parse_digits p = Value a rp \<and> r = rp @ q)"
  proof (cases "list_all is_digit p")
    case True
    then show ?thesis by (cases "takeWhile is_digit p = []") (auto simp: parse_digits_def Let_def dropWhile_all_Nil)
  next
    case False
    then have "dropWhile is_digit p \<noteq> []" by (simp add: list_all_iff dropWhile_eq_Nil_conv)
    with v False show ?thesis
      by (auto simp: parse_digits_def Let_def takeWhile_dropWhile_app split: if_splits list.splits)
  qed
qed

lemma online_map:
  assumes "online A" and "scan_map f (A (p @ q)) = Value a r"
  shows "scan_map f (A p) = Incomplete \<or> (\<exists>rp. scan_map f (A p) = Value a rp \<and> r = rp @ q)"
proof -
  from assms(2) obtain b where "A (p @ q) = Value b r" and "a = f b" by (cases "A (p @ q)") auto
  with onlineD [OF assms(1)] show ?thesis by force
qed

lemma online_cons:
  assumes "online A" and "scan_cons xs (A (p @ q)) = Value a r"
  shows "scan_cons xs (A p) = Incomplete \<or> (\<exists>rp. scan_cons xs (A p) = Value a rp \<and> r = rp @ q)"
  using online_map [OF assms(1)] assms(2) by (simp add: scan_cons_def)

lemma parse_exp_opt_online: "online parse_exp_opt"
proof (rule onlineI)
  fix p q a r
  assume v: "parse_exp_opt (p @ q) = Value a r"
  show "parse_exp_opt p = Incomplete \<or> (\<exists>rp. parse_exp_opt p = Value a rp \<and> r = rp @ q)"
  proof (cases p)
    case (Cons c p')
    show ?thesis
    proof (cases "c = CHR ''e'' \<or> c = CHR ''E''")
      case True
      show ?thesis
      proof (cases p')
        case (Cons d p'')
        show ?thesis
        proof (cases "d = CHR ''+'' \<or> d = CHR ''-''")
          case True
          with v \<open>p = c # p'\<close> Cons \<open>c = CHR ''e'' \<or> c = CHR ''E''\<close>
          have "scan_cons [c, d] (parse_digits (p'' @ q)) = Value a r" by (auto simp: parse_exp_opt_def)
          from online_cons [OF parse_digits_online this] True \<open>p = c # p'\<close> Cons \<open>c = CHR ''e'' \<or> c = CHR ''E''\<close>
          show ?thesis by (auto simp: parse_exp_opt_def)
        next
          case False
          with v \<open>p = c # p'\<close> Cons \<open>c = CHR ''e'' \<or> c = CHR ''E''\<close>
          have "scan_cons [c] (parse_digits (p' @ q)) = Value a r" by (auto simp: parse_exp_opt_def)
          from online_cons [OF parse_digits_online this] False \<open>p = c # p'\<close> Cons \<open>c = CHR ''e'' \<or> c = CHR ''E''\<close>
          show ?thesis by (auto simp: parse_exp_opt_def)
        qed
      qed (use \<open>p = c # p'\<close> True in \<open>auto simp: parse_exp_opt_def\<close>)
    qed (use v Cons in \<open>auto simp: parse_exp_opt_def\<close>)
  qed (simp add: parse_exp_opt_def)
qed

lemma parse_frac_opt_online: "online parse_frac_opt"
proof (rule onlineI)
  fix p q a r
  assume v: "parse_frac_opt (p @ q) = Value a r"
  show "parse_frac_opt p = Incomplete \<or> (\<exists>rp. parse_frac_opt p = Value a rp \<and> r = rp @ q)"
  proof (cases p)
    case (Cons c p')
    show ?thesis
    proof (cases "c = CHR ''.''")
      case True
      with v Cons obtain ds rest where d: "parse_digits (p' @ q) = Value ds rest"
        and e: "scan_cons (c # ds) (parse_exp_opt rest) = Value a r"
        by (auto simp: parse_frac_opt_def split: scan.splits)
      from onlineD [OF parse_digits_online d] show ?thesis
      proof
        assume "parse_digits p' = Incomplete"
        with True Cons show ?thesis by (simp add: parse_frac_opt_def)
      next
        assume "\<exists>rp. parse_digits p' = Value ds rp \<and> rest = rp @ q"
        then obtain rp where "parse_digits p' = Value ds rp" and "rest = rp @ q" by blast
        with online_cons [OF parse_exp_opt_online, of "c # ds" rp q a r] e True Cons
        show ?thesis by (simp add: parse_frac_opt_def)
      qed
    next
      case False
      with v Cons have "parse_exp_opt (p @ q) = Value a r" by (simp add: parse_frac_opt_def)
      from onlineD [OF parse_exp_opt_online this] False Cons show ?thesis
        by (simp add: parse_frac_opt_def)
    qed
  qed (simp add: parse_frac_opt_def)
qed

lemma parse_lit_online: "online (parse_lit l j)"
  by (rule onlineI) (simp add: parse_lit_def online_map [OF match_lit_online])

lemma number_end_cut:
  assumes "number_end sg ds (p @ q) = Value a r"
  shows "number_end sg ds p = Incomplete \<or> (\<exists>rp. number_end sg ds p = Value a rp \<and> r = rp @ q)"
  using assms unfolding number_end_def by (rule online_map [OF parse_frac_opt_online])

lemma number_digits_cut:
  assumes "number_end sg (c # takeWhile is_digit (p @ q)) (dropWhile is_digit (p @ q)) = Value a r"
  shows "number_end sg (c # takeWhile is_digit p) (dropWhile is_digit p) = Incomplete \<or>
         (\<exists>rp. number_end sg (c # takeWhile is_digit p) (dropWhile is_digit p) = Value a rp \<and> r = rp @ q)"
proof (cases "list_all is_digit p")
  case True
  then show ?thesis
    by (simp add: dropWhile_all_Nil number_end_def parse_frac_opt_def)
next
  case False
  with assms have "number_end sg (c # takeWhile is_digit p) (dropWhile is_digit p @ q) = Value a r"
    by (simp add: takeWhile_dropWhile_app)
  then show ?thesis by (rule number_end_cut)
qed

lemma number_body_cut:
  assumes "(case s1 @ q of [] \<Rightarrow> Incomplete
         | c # r \<Rightarrow> (if c = CHR ''0'' then number_end sg ''0'' r
                     else if is_digit c then number_end sg (c # takeWhile is_digit r) (dropWhile is_digit r)
                     else Invalid c)) = Value a r0"
  shows "(case s1 of [] \<Rightarrow> Incomplete
              | c # r \<Rightarrow> (if c = CHR ''0'' then number_end sg ''0'' r
                          else if is_digit c then number_end sg (c # takeWhile is_digit r) (dropWhile is_digit r)
                          else Invalid c)) = Incomplete \<or>
        (\<exists>rp. (case s1 of [] \<Rightarrow> Incomplete
              | c # r \<Rightarrow> (if c = CHR ''0'' then number_end sg ''0'' r
                          else if is_digit c then number_end sg (c # takeWhile is_digit r) (dropWhile is_digit r)
                          else Invalid c)) = Value a rp \<and> r0 = rp @ q)"
  proof (cases s1)
  case (Cons c s2)
  show ?thesis
  proof (cases "c = CHR ''0''")
    case True
    with assms Cons have "number_end sg ''0'' (s2 @ q) = Value a r0" by simp
    from number_end_cut [OF this] True Cons show ?thesis by simp
  next
    case c0: False
    show ?thesis
    proof (cases "is_digit c")
      case True
      with c0 assms Cons
      have "number_end sg (c # takeWhile is_digit (s2 @ q)) (dropWhile is_digit (s2 @ q)) = Value a r0"
        by simp
      from number_digits_cut [OF this] True c0 Cons show ?thesis by simp
    qed (use c0 assms Cons in simp)
  qed
qed simp

lemma parse_number_online: "online parse_number"
proof (rule onlineI)
  fix p q a r
  assume v: "parse_number (p @ q) = Value a r"
  show "parse_number p = Incomplete \<or> (\<exists>rp. parse_number p = Value a rp \<and> r = rp @ q)"
  proof (cases p)
    case (Cons c p')
    show ?thesis
    proof (cases "c = CHR ''-''")
      case True
      with v Cons number_body_cut [of "''-''" p' q a r] show ?thesis by (simp add: parse_number_def)
    next
      case False
      with v Cons number_body_cut [of "[]" p q a r] show ?thesis by (simp add: parse_number_def)
    qed
  qed (simp add: parse_number_def)
qed

subsection \<open>Strings: runes and escapes cut short\<close>

lemma first_byte_range: "first_byte c = Some (lo, hi, k) \<Longrightarrow> 0x80 \<le> lo \<and> hi \<le> 0xBF"
  by (auto simp: first_byte_def split: if_splits)

lemma first_byte_cont: "in_range 0x80 0xBF c \<Longrightarrow> first_byte c = None"
  by (auto simp: first_byte_def in_range_def)

lemma rune_len_append: "rune_len xs = n \<Longrightarrow> 0 < n \<Longrightarrow> rune_len (xs @ t) = n"
  using rune_len_prefix [of xs n "drop n xs @ t"] rune_len_le [of xs]
  by (metis append_assoc append_take_drop_id)

lemma parse_str_cont: "list_all (in_range 0x80 0xBF) cs \<Longrightarrow> parse_str cs = Incomplete"
proof (induction cs)
  case (Cons c cs)
  then have "byte c \<ge> 0x80" "byte c \<le> 0xBF" by (simp_all add: in_range_def)
  moreover from Cons have "first_byte c = None" by (simp add: first_byte_cont)
  ultimately show ?case using Cons by (auto simp: scan_cons_def)
qed simp

lemma rune_truncated:
  assumes "rune_len (c # cs) = 0" and "rune_len (c # cs @ q) \<noteq> 0" and "\<not> byte c < 0x80"
  shows "list_all (in_range 0x80 0xBF) cs"
proof -
  from assms obtain lo hi k where f: "first_byte c = Some (lo, hi, k)"
    and t0: "tail_len lo hi k cs = 0" and t1: "tail_len lo hi k (cs @ q) \<noteq> 0"
    by (auto split: option.splits)
  have k: "0 < k" using first_byte_pos [OF f] .
  from t1 have c1: "k \<le> length (cs @ q)" "in_range lo hi (hd (cs @ q))"
    "list_all (in_range 0x80 0xBF) (take (k - 1) (tl (cs @ q)))"
    by (auto simp: tail_len_def split: if_splits)
  have short: "length cs < k"
  proof (rule ccontr)
    assume "\<not> length cs < k"
    then have "k \<le> length cs" by simp
    moreover have "cs \<noteq> []" using k \<open>k \<le> length cs\<close> by auto
    ultimately have "tail_len lo hi k cs = tail_len lo hi k (cs @ q)"
      by (cases cs) (auto simp: tail_len_def)
    with t0 t1 show False by simp
  qed
  show ?thesis
  proof (cases cs)
    case (Cons d ds)
    have "in_range lo hi d" using c1(2) Cons by simp
    then have "in_range 0x80 0xBF d" using first_byte_range [OF f] by (auto simp: in_range_def)
    moreover have "list_all (in_range 0x80 0xBF) ds"
    proof -
      have "take (k - 1) (ds @ q) = ds @ take (k - 1 - length ds) q" using short Cons by simp
      with c1(3) Cons show ?thesis by simp
    qed
    ultimately show ?thesis using Cons by simp
  qed simp
qed

lemma hex_digits_extend:
  "hex_digits k acc p = Value v r \<Longrightarrow> hex_digits k acc (p @ q) = Value v (r @ q)"
  by (induction k acc p rule: hex_digits.induct) (auto split: option.splits)

lemma simple_escape_u [simp]: "simple_escape (CHR ''u'') = None"
  by (simp add: simple_escape_def)

lemma unicode_escape_surrogate_cut:
  assumes sur: "0xD800 \<le> cp \<and> cp < (0xE000::nat)" and h: "\<forall>v w. hex_digits 4 0 (r' @ q) \<noteq> Value v w"
    and u: "unicode_escape cp ((bslash # CHR ''u'' # r') @ q) = (bs, r2f)"
  shows "bs = fffd \<and> r2f = bslash # CHR ''u'' # r' @ q"
  using sur h u by (auto simp: unicode_escape_def split: scan.splits)

lemma unicode_escape_other:
  "\<not> (b = bslash \<and> u = CHR ''u'') \<Longrightarrow> unicode_escape cp (b # u # r) =
     (if 0xD800 \<le> cp \<and> cp < 0xE000 then fffd else utf8_encode cp, b # u # r)"
  by (auto simp: unicode_escape_def)

lemma unicode_escape_cut:
  assumes "unicode_escape cp (r1 @ q) = (bs, r2f)"
  shows "(\<exists>r2. unicode_escape cp r1 = (bs, r2) \<and> r2f = r2 @ q) \<or>
         parse_str (snd (unicode_escape cp r1)) = Incomplete"
proof (cases "0xD800 \<le> cp \<and> cp < 0xE000")
  case False
  then show ?thesis using assms by (auto simp: unicode_escape_def)
next
  case sur: True
  consider (nil) "r1 = []" | (bs) "r1 = [bslash]" | (one) b where "r1 = [b]" "b \<noteq> bslash"
    | (other) b u r' where "r1 = b # u # r'" "\<not> (b = bslash \<and> u = CHR ''u'')"
    | (esc) r' where "r1 = bslash # CHR ''u'' # r'"
    by (metis list.exhaust)
  then show ?thesis
  proof cases
    case nil
    then show ?thesis using sur by (simp add: unicode_escape_def)
  next
    case bs
    then show ?thesis using sur by (simp add: unicode_escape_def)
  next
    case one
    then show ?thesis using sur assms by (auto simp: unicode_escape_def split: list.splits)
  next
    case other
    then show ?thesis using assms by (simp add: unicode_escape_other)
  next
    case esc
    show ?thesis
    proof (cases "hex_digits 4 0 r'")
      case (Value cp2 r'')
      then show ?thesis using sur esc assms hex_digits_extend [of 4 0 r' cp2 r'' q]
        by (auto simp: unicode_escape_def)
    next
      case Incomplete
      then show ?thesis using sur esc by (simp add: unicode_escape_def)
    next
      case (Invalid x)
      then have "\<forall>v w. hex_digits 4 0 (r' @ q) \<noteq> Value v w"
        using onlineD [OF hex_digits_online, of 4 0 r' q] by fastforce
      from unicode_escape_surrogate_cut [OF sur this] assms esc Invalid sur show ?thesis
        by (simp add: unicode_escape_def)
    next
      case Exhausted
      then have "\<forall>v w. hex_digits 4 0 (r' @ q) \<noteq> Value v w"
        using onlineD [OF hex_digits_online, of 4 0 r' q] by fastforce
      from unicode_escape_surrogate_cut [OF sur this] assms esc Exhausted sur show ?thesis
        by (simp add: unicode_escape_def)
    qed
  qed
qed

lemma scan_cons_cut:
  assumes "scan_cons bs (A (x @ q)) = Value a r"
    and "\<And>a r. A (x @ q) = Value a r \<Longrightarrow> A x = Incomplete \<or> (\<exists>rp. A x = Value a rp \<and> r = rp @ q)"
  shows "scan_cons bs (A x) = Incomplete \<or> (\<exists>rp. scan_cons bs (A x) = Value a rp \<and> r = rp @ q)"
  using assms by (cases "A (x @ q)") (auto simp: scan_cons_def)

lemma parse_str_cut:
  "parse_str (p @ q) = Value a r \<Longrightarrow> parse_str p = Incomplete \<or> (\<exists>rp. parse_str p = Value a rp \<and> r = rp @ q)"
proof (induction p arbitrary: a r rule: parse_str.induct)
  case (2 c cs)
  consider (quote) "c = dquote" | (esc) "c \<noteq> dquote" "c = bslash"
    | (ctl) "c \<noteq> dquote" "c \<noteq> bslash" "byte c < 0x20"
    | (ascii) "c \<noteq> dquote" "c \<noteq> bslash" "\<not> byte c < 0x20" "byte c < 0x80"
    | (bad) "c \<noteq> dquote" "c \<noteq> bslash" "\<not> byte c < 0x20" "\<not> byte c < 0x80" "rune_len (c # cs) = 0"
    | (rune) "c \<noteq> dquote" "c \<noteq> bslash" "\<not> byte c < 0x20" "\<not> byte c < 0x80" "rune_len (c # cs) \<noteq> 0"
    by blast
  then show ?case
  proof cases
    case quote
    then show ?thesis using 2(6) by simp
  next
    case ctl
    then show ?thesis using 2(6) by simp
  next
    case ascii
    have ih: "\<And>a r. parse_str (cs @ q) = Value a r \<Longrightarrow>
                parse_str cs = Incomplete \<or> (\<exists>rp. parse_str cs = Value a rp \<and> r = rp @ q)"
      using 2(3) ascii by blast
    show ?thesis using scan_cons_cut [of "[c]" parse_str cs q a r, OF _ ih] 2(6) ascii by simp
  next
    case bad
    show ?thesis
    proof (cases "rune_len (c # cs @ q) = 0")
      case True
      have ih: "\<And>a r. parse_str (cs @ q) = Value a r \<Longrightarrow>
                  parse_str cs = Incomplete \<or> (\<exists>rp. parse_str cs = Value a rp \<and> r = rp @ q)"
        using 2(4) bad by blast
      show ?thesis using scan_cons_cut [of fffd parse_str cs q a r, OF _ ih] 2(6) bad True by simp
    next
      case False
      have "parse_str cs = Incomplete"
        using parse_str_cont rune_truncated [OF bad(5) False bad(4)] by blast
      then show ?thesis using bad by (simp add: scan_cons_def)
    qed
  next
    case rune
    define n where "n = rune_len (c # cs)"
    have n: "rune_len (c # cs @ q) = n" "0 < n" "n \<le> length (c # cs)"
      using rune_len_append [of "c # cs" n q] rune_len_le [of "c # cs"] rune by (simp_all add: n_def)
    have td: "take n (c # cs @ q) = take n (c # cs)" "drop n (c # cs @ q) = drop n (c # cs) @ q"
      using n(3) by (metis append_Cons take_append diff_is_0_eq take0 append_Nil2,
                     metis append_Cons drop_append diff_is_0_eq drop0)
    have ih: "\<And>a r. parse_str (drop n (c # cs) @ q) = Value a r \<Longrightarrow>
                parse_str (drop n (c # cs)) = Incomplete \<or>
                (\<exists>rp. parse_str (drop n (c # cs)) = Value a rp \<and> r = rp @ q)"
      using 2(5) rune unfolding n_def by blast
    show ?thesis
      using scan_cons_cut [of "take n (c # cs)" parse_str "drop n (c # cs)" q a r, OF _ ih] 2(6) rune n td
      by (simp add: n_def)
  next
    case esc
    show ?thesis
    proof (cases cs)
      case Nil
      then show ?thesis using esc by simp
    next
      case (Cons e r0)
      show ?thesis
      proof (cases "simple_escape e")
        case (Some d)
        have ih: "\<And>a r. parse_str (r0 @ q) = Value a r \<Longrightarrow>
                    parse_str r0 = Incomplete \<or> (\<exists>rp. parse_str r0 = Value a rp \<and> r = rp @ q)"
          using 2(2) esc Cons Some by blast
        show ?thesis using scan_cons_cut [of "[d]" parse_str r0 q a r, OF _ ih] 2(6) esc Cons Some by simp
      next
        case None
        show ?thesis
        proof (cases "e = CHR ''u''")
          case False
          then show ?thesis using 2(6) esc Cons None by simp
        next
          case True
          show ?thesis
          proof (cases "hex_digits 4 0 r0")
            case (Value cp r1)
            obtain bs r2f where u: "unicode_escape cp (r1 @ q) = (bs, r2f)" by fastforce
            have full: "scan_cons bs (parse_str r2f) = Value a r"
              using 2(6) esc Cons None True hex_digits_extend [OF Value, of q] u by simp
            from unicode_escape_cut [OF u] show ?thesis
            proof
              assume "\<exists>r2. unicode_escape cp r1 = (bs, r2) \<and> r2f = r2 @ q"
              then obtain r2 where u2: "unicode_escape cp r1 = (bs, r2)" and r2f: "r2f = r2 @ q" by blast
              have ih: "\<And>a r. parse_str (r2 @ q) = Value a r \<Longrightarrow>
                          parse_str r2 = Incomplete \<or> (\<exists>rp. parse_str r2 = Value a rp \<and> r = rp @ q)"
                using 2(1) [OF esc Cons None True Value u2 [symmetric]] by blast
              show ?thesis using scan_cons_cut [of bs parse_str r2 q a r, OF _ ih] full r2f esc Cons None True Value u2
                by simp
            next
              assume inc: "parse_str (snd (unicode_escape cp r1)) = Incomplete"
              obtain bs' r2 where u2: "unicode_escape cp r1 = (bs', r2)" by fastforce
              show ?thesis using inc u2 esc Cons None True Value by (simp add: scan_cons_def)
            qed
          next
            case Incomplete
            then show ?thesis using esc Cons None True by simp
          next
            case (Invalid x)
            then have "\<forall>v w. hex_digits 4 0 (r0 @ q) \<noteq> Value v w"
              using onlineD [OF hex_digits_online, of 4 0 r0 q] by fastforce
            then show ?thesis using 2(6) esc Cons None True by (simp split: scan.splits)
          next
            case Exhausted
            then have "\<forall>v w. hex_digits 4 0 (r0 @ q) \<noteq> Value v w"
              using onlineD [OF hex_digits_online, of 4 0 r0 q] by fastforce
            then show ?thesis using 2(6) esc Cons None True by (simp split: scan.splits)
          qed
        qed
      qed
    qed
  qed
qed simp

lemma parse_str_online: "online parse_str"
  by (rule onlineI) (rule parse_str_cut)

subsection \<open>Values: combinators and fuel\<close>

lemma online_map_fun: "online A \<Longrightarrow> online (\<lambda>s. scan_map f (A s))"
  by (rule onlineI) (rule online_map)

lemma online_Value: "online (\<lambda>s. Value x s)"
  by (simp add: online_def)

lemma online_Invalid: "online (\<lambda>s. Invalid c)"
  by (simp add: online_def)

lemma online_if: "online A \<Longrightarrow> online B \<Longrightarrow> online (\<lambda>s. if P then A s else B s)"
  by (cases P) simp_all

lemma online_prepend: "online A \<Longrightarrow> online (\<lambda>s. A (c # s))"
  unfolding online_def by (metis append_Cons)

lemma online_bind:
  assumes "online A" and "\<And>b. online (f b)"
  shows "online (\<lambda>s. scan_bind (A s) f)"
proof (rule onlineI)
  fix p q a r
  assume v: "scan_bind (A (p @ q)) f = Value a r"
  then obtain b r1 where a: "A (p @ q) = Value b r1" and f: "f b r1 = Value a r"
    by (cases "A (p @ q)") (auto simp: scan_bind_def)
  from onlineD [OF assms(1) a] show "scan_bind (A p) f = Incomplete \<or> (\<exists>rp. scan_bind (A p) f = Value a rp \<and> r = rp @ q)"
  proof
    assume "A p = Incomplete"
    then show ?thesis by (simp add: scan_bind_def)
  next
    assume "\<exists>rp. A p = Value b rp \<and> r1 = rp @ q"
    then obtain rp where "A p = Value b rp" "r1 = rp @ q" by blast
    then show ?thesis using onlineD [OF assms(2), of b rp q a r] f by (simp add: scan_bind_def)
  qed
qed

lemma skip_ws_app:
  "skip_ws (p @ q) = (if list_all is_ws p then skip_ws q else skip_ws p @ q)"
  by (simp add: skip_ws_def takeWhile_dropWhile_app)

lemma skip_ws_not_all: "\<not> list_all is_ws p \<Longrightarrow> \<exists>c r. skip_ws p = c # r"
  by (cases "skip_ws p") (auto simp: skip_ws_def list_all_iff dropWhile_eq_Nil_conv)

lemma online_after_ws:
  assumes "\<And>c. online (f c)"
  shows "online (\<lambda>s. after_ws s f)"
proof (rule onlineI)
  fix p q a r
  assume v: "after_ws (p @ q) f = Value a r"
  show "after_ws p f = Incomplete \<or> (\<exists>rp. after_ws p f = Value a rp \<and> r = rp @ q)"
  proof (cases "list_all is_ws p")
    case True
    then show ?thesis by (simp add: after_ws_def skip_ws_all)
  next
    case False
    then obtain c r0 where sp: "skip_ws p = c # r0" using skip_ws_not_all by blast
    then have "f c (r0 @ q) = Value a r" using v False by (simp add: after_ws_def skip_ws_app)
    then show ?thesis using onlineD [OF assms, of c r0 q a r] sp by (simp add: after_ws_def)
  qed
qed

lemma parse_online:
  "online (parse_value n) \<and> (\<forall>acc. online (parse_elems n acc)) \<and> (\<forall>kvs. online (parse_members n kvs))"
proof (induction n)
  case 0
  then show ?case by (simp add: online_def)
next
  case (Suc n)
  then have v: "online (parse_value n)" and e: "\<And>acc. online (parse_elems n acc)"
    and m: "\<And>kvs. online (parse_members n kvs)" by blast+
  note rules = online_after_ws online_bind online_if online_Value online_Invalid online_map_fun
    parse_str_online
  have "online (parse_value (Suc n))"
    unfolding parse_value.simps(2) [abs_def]
    by (intro rules online_prepend [OF m] online_prepend [OF e] online_prepend [OF parse_number_online]
              online_prepend [OF parse_lit_online])
  moreover have "online (parse_elems (Suc n) acc)" for acc
    unfolding parse_elems.simps(2) [abs_def]
    by (intro rules v e)
  moreover have "online (parse_members (Suc n) kvs)" for kvs
    unfolding parse_members.simps(2) [abs_def]
    by (intro rules v m)
  ultimately show ?case by blast
qed

lemma after_ws_mono:
  "after_ws s f \<noteq> Exhausted \<Longrightarrow> (\<And>c r. f c r \<noteq> Exhausted \<Longrightarrow> g c r = f c r) \<Longrightarrow>
   after_ws s g = after_ws s f"
  by (simp add: after_ws_def split: list.splits)

lemma scan_bind_mono:
  "scan_bind A f \<noteq> Exhausted \<Longrightarrow> (A \<noteq> Exhausted \<Longrightarrow> B = A) \<Longrightarrow>
   (\<And>b r. f b r \<noteq> Exhausted \<Longrightarrow> g b r = f b r) \<Longrightarrow> scan_bind B g = scan_bind A f"
  by (cases A) (simp_all add: scan_bind_def)

lemma parse_mono:
  "(\<forall>m s. parse_value n s \<noteq> Exhausted \<longrightarrow> n \<le> m \<longrightarrow> parse_value m s = parse_value n s) \<and>
   (\<forall>m acc s. parse_elems n acc s \<noteq> Exhausted \<longrightarrow> n \<le> m \<longrightarrow> parse_elems m acc s = parse_elems n acc s) \<and>
   (\<forall>m kvs s. parse_members n kvs s \<noteq> Exhausted \<longrightarrow> n \<le> m \<longrightarrow> parse_members m kvs s = parse_members n kvs s)"
proof (induction n)
  case 0
  then show ?case by simp
next
  case (Suc n)
  then have v: "\<And>m s. parse_value n s \<noteq> Exhausted \<Longrightarrow> n \<le> m \<Longrightarrow> parse_value m s = parse_value n s"
    and e: "\<And>m acc s. parse_elems n acc s \<noteq> Exhausted \<Longrightarrow> n \<le> m \<Longrightarrow> parse_elems m acc s = parse_elems n acc s"
    and k: "\<And>m kvs s. parse_members n kvs s \<noteq> Exhausted \<Longrightarrow> n \<le> m \<Longrightarrow> parse_members m kvs s = parse_members n kvs s"
    by blast+
  have A: "parse_value (Suc m) s = parse_value (Suc n) s"
    if "parse_value (Suc n) s \<noteq> Exhausted" "n \<le> m" for m s
    using that(1) unfolding parse_value.simps
    by (intro after_ws_mono) (auto split: if_splits intro!: after_ws_mono k [OF _ that(2)] e [OF _ that(2)])
  have B: "parse_elems (Suc m) acc s = parse_elems (Suc n) acc s"
    if "parse_elems (Suc n) acc s \<noteq> Exhausted" "n \<le> m" for m acc s
    using that(1) unfolding parse_elems.simps
    by (intro scan_bind_mono v [OF _ that(2)]) (auto split: if_splits intro!: after_ws_mono e [OF _ that(2)])
  have C: "parse_members (Suc m) kvs s = parse_members (Suc n) kvs s"
    if "parse_members (Suc n) kvs s \<noteq> Exhausted" "n \<le> m" for m kvs s
    using that(1) unfolding parse_members.simps
    by (intro after_ws_mono) (auto split: if_splits intro!: after_ws_mono scan_bind_mono v [OF _ that(2)] k [OF _ that(2)])
  have "\<exists>m'. m = Suc m' \<and> n \<le> m'" if "Suc n \<le> m" for m
    using that by (cases m) auto
  then show ?case using A B C by metis
qed

lemma parse_value_prefix:
  assumes full: "parse_value n (p @ q) = Value a r" and fuel: "Suc (2 * length p) \<le> n"
  shows "parse_value (Suc (2 * length p)) p = Incomplete \<or>
         (\<exists>rp. parse_value (Suc (2 * length p)) p = Value a rp \<and> r = rp @ q)"
proof -
  have "parse_value (Suc (2 * length p)) p \<noteq> Exhausted"
    using parse_fuel(1) [of p "Suc (2 * length p)"] by (auto simp: consumes_def split: scan.splits)
  then have "parse_value n p = parse_value (Suc (2 * length p)) p"
    using parse_mono fuel by blast
  then show ?thesis using onlineD [OF parse_online [THEN conjunct1] full] by simp
qed

subsection \<open>Properties\<close>

text \<open>C20: a document cut anywhere before its last byte (the newline the encoder
  writes after it) makes the decoder wait while the stream is open: the bytes read
  so far are never an error and never a different value.  Only an object or
  array that is complete without its newline is returned at once.\<close>

theorem decode_value_prefix:
  assumes ok: "text_ok j" and k: "k < length (encode_doc j)"
  shows "decode_value (take k (encode_doc j)) False =
           (if k = length (json_text j) \<and> closes_at_once j then DValue j [] else DBlock)"
proof -
  define p where "p = take k (encode_doc j)"
  define q where "q = drop k (encode_doc j)"
  have pq: "p @ q = json_text j @ [CHR 0x0A]" and q: "q \<noteq> []"
    using k by (simp_all add: p_def q_def encode_doc_def)
  have "parse_value (Suc (2 * length (p @ q))) (p @ q) = Value j [CHR 0x0A]"
    unfolding pq by (rule parse_json_text) (simp_all add: ok)
  from parse_value_prefix [OF this] have cut: "parse_value (Suc (2 * length p)) p = Incomplete \<or>
      (\<exists>rp. parse_value (Suc (2 * length p)) p = Value j rp \<and> [CHR 0x0A] = rp @ q)"
    by simp
  show ?thesis
  proof (cases "parse_value (Suc (2 * length p)) p = Incomplete")
    case True
    have "\<not> (k = length (json_text j) \<and> closes_at_once j)"
    proof
      assume c: "k = length (json_text j) \<and> closes_at_once j"
      then have "p = json_text j" by (simp add: p_def encode_doc_def)
      then have "parse_value (Suc (2 * length p)) p = Value j []"
        using parse_json_text [of j "[]" "Suc (2 * length p)"] ok c by (simp del: parse_value.simps)
      with True show False by simp
    qed
    then show ?thesis using True by (simp add: decode_value_def p_def)
  next
    case False
    with cut obtain rp where v: "parse_value (Suc (2 * length p)) p = Value j rp" and r: "[CHR 0x0A] = rp @ q"
      by blast
    from r q have "rp = []" "q = [CHR 0x0A]" by (cases rp; simp)+
    then have "k = length (json_text j)" using k by (simp add: q_def encode_doc_def)
    then show ?thesis using v \<open>rp = []\<close> by (simp add: decode_value_def p_def)
  qed
qed

theorem decode_value_prefix_witness:
  "decode_value (take 2 (encode_doc (JArray []))) False = DValue (JArray []) [] \<and>
   decode_value (take 3 (encode_doc (JBool True))) False = DBlock"
  using decode_value_prefix [of "JArray []" 2] decode_value_prefix [of "JBool True" 3]
  by (simp add: encode_doc_def closes_at_once_def)

end
