(* ===== verification/Spec2Isabelle.thy ===== *)
theory Spec2Isabelle
  imports Example Typing JsonPrefix
begin

text \<open>
  Verification of the Go package webchan (\<open>src/webchan.go\<close>; the README and the
  test are \<open>src/unnamed/part_000\<close>).

  \<^bold>\<open>The program.\<close>  A \<open>WebChan\<close> wraps a \<open>net.Conn\<close> and exposes three Go
  channels: \<open>Send\<close> (the caller's values to transmit), \<open>Recv\<close> (decoded values
  from the peer) and \<open>Error\<close> (asynchronous \<open>sendError\<close>/\<open>recvError\<close> values,
  capacity 100, lossy).  \<open>NewWebChan\<close>/\<open>NewNamedWebChan\<close> build a registry of
  allowed types (name to \<open>reflect.Type\<close>) and start two goroutines: the send
  goroutine takes values from \<open>Send\<close>, looks up their type name
  (\<open>getAllowedTypeName\<close>, panicking on an unregistered type) and writes a frame,
  the name then the value, with a \<open>json.Encoder\<close>; the receive goroutine reads a
  name with a \<open>json.Decoder\<close>, looks up its type
  (\<open>createTypeInterfaceReflectPointer\<close>), decodes the payload into a fresh value
  and pushes it onto \<open>Recv\<close>; failures go to \<open>Error\<close> through \<open>tryPushError\<close>, and
  only \<open>io.EOF\<close>/\<open>net.ErrClosed\<close> or \<open>Close\<close> stop it.  \<open>Close\<close> closes the
  internal \<open>closeRecvChan\<close>, \<open>Send\<close> and the socket, once.

  \<^bold>\<open>The theories.\<close>
  \<^item> \<open>Prelude\<close>: buffered Go channels as lists with a capacity (\<open>chan_put\<close>
    blocks, \<open>chan_try_put\<close> drops), the named collections \<open>go_chan\<close> and
    \<open>wc_inv\<close>, association-list lemmas, and the decimal form of integers
    (\<open>nat_text\<close>, \<open>int_text\<close>) that \<open>fmt\<close> and \<open>encoding/json\<close> print.
  \<^item> \<open>Errors\<close>: \<open>sendError\<close>/\<open>recvError\<close> (\<open>wc_error\<close>, \<open>wc_error_text\<close> for
    \<open>Error()\<close>), the causes (\<open>io_error\<close>), Go panics (\<open>go_panic\<close>) and the
    closed-class test of the receive loop (\<open>closed_class\<close>).
  \<^item> \<open>Codec\<close>: the interface to \<open>reflect\<close> and \<open>encoding/json\<close> (a record of
    functions) and the laws the components need (\<open>names_roundtrip\<close>,
    \<open>sendable\<close>).  \<open>GoJson\<close>: a concrete codec of Go values, types and JSON
    documents (including \<open>null\<close>, booleans, arrays and non-integral numbers,
    which no type of the package decodes) that satisfies them for every
    well-formed value, with Go's 64-bit \<open>int\<close>, \<open>null\<close> leaving the zero value
    and the last of duplicate keys winning, and the fixtures of the README, the
    test and the spec's scenario.
  \<^item> \<open>JsonText\<close>: the bytes on the connection.  The encoder's printer
    \<open>json_text\<close> and \<open>encode_doc\<close> (compact text, Go's string escaping
    with HTML escapes, U+2028/U+2029 and U+FFFD for invalid UTF-8, a newline
    after each document); the decoder's scanner \<open>parse_value\<close> (values,
    incomplete input and the first invalid byte, Unicode escapes with
    surrogate pairs) and \<open>decode_value\<close>/\<open>decode_stream\<close>
    (\<open>Decoder.readValue\<close>: when a value ends, at the end of a buffer and at the
    end of the stream).  The parser takes fuel; \<open>parse_value_fuel\<close> shows that
    one more unit than twice the buffer's length is always enough, since each
    nested call consumes a byte and costs at most two units.
  \<^item> \<open>JsonPrefix\<close>: the decoder on a document that has not fully arrived.
    The predicate \<open>online\<close> (a scanner given a prefix of its input waits or
    returns the same value with the same rest) is proved of every scanner of
    \<open>JsonText\<close>, including UTF-8 runes and surrogate escapes cut in the middle,
    and for \<open>parse_value\<close> by combinator lemmas for \<open>after_ws\<close> and
    \<open>scan_bind\<close>; \<open>parse_mono\<close> shows that more fuel never changes a result.
  \<^item> \<open>Wire\<close>: one endpoint's view of its connection and the encoder/decoder
    semantics, both keeping the first transport error (as \<open>encoding/json\<close>
    does).  These are library behaviour, modelled from its documentation.
  \<^item> \<open>Registry\<close>: \<open>new_webchan_types\<close> (\<open>NewWebChan\<close>'s map),
    \<open>new_named_registry\<close>, \<open>get_allowed_type_name\<close>,
    \<open>create_type_interface_reflect_pointer\<close>; a Go map is an association list
    in one iteration order.
  \<^item> \<open>WebChan\<close>: the struct as a record, \<open>new_named_webchan\<close>, \<open>new_webchan\<close>,
    \<open>try_push_error\<close>, the bound predicate \<open>bounded\<close>.
  \<^item> \<open>Outbound\<close>: the send goroutine, one iteration \<open>send_step\<close> (with
    \<open>encode_frame\<close>) and the loop \<open>send_loop\<close>, which terminates by the length of
    \<open>Send\<close>'s buffer.
  \<^item> \<open>Inbound\<close>: the receive goroutine with a program counter at each point
    where it can block (\<open>recv_step\<close>) and the fuel-driven loop \<open>recv_run\<close>:
    the loop has no termination argument, so running out of fuel is \<open>None\<close>.
    Four steps per frame and two for the end of the stream are enough
    (\<open>recv_run_delivers\<close>); on any finished stream of complete documents
    two steps per document and four more are enough (\<open>recv_run_terminates\<close>,
    by the measure \<open>recv_potential\<close>); with a kept decoder error no fuel is
    enough (\<open>recv_kept_error_spins\<close>).
  \<^item> \<open>Lifecycle\<close>: \<open>Close\<close> (\<open>close_act\<close>, \<open>close_wc\<close>), the caller's
    channel operations, and the endpoint as a concurrent system: the inductive
    step relation \<open>sys_step\<close> interleaves the two goroutines, any number of
    \<open>Close\<close> callers (each a test step and a closing step), the caller's
    sends and receives and the peer; \<open>reach\<close> is reachability.
  \<^item> \<open>Typing\<close>: the values in \<open>Recv\<close> have registered types in every
    reachable state (\<open>pc_typed\<close>), for a codec whose decoding into a type
    yields values of that type (\<open>unmarshal_typed\<close>, proved of \<open>go_json\<close>).
  \<^item> \<open>FifoSpec\<close>: the abstract specification of one direction of a
    connection, an executable FIFO channel (\<open>fifo_step\<close>) of sent and
    delivered values.
  \<^item> \<open>Duplex\<close>: one direction of a connection between two endpoints under
    every interleaving of A's caller, A's send goroutine, B's receive goroutine
    and B's caller (\<open>duplex_step\<close>), the writes of A readable on B at once as
    with \<open>net.Pipe\<close>; the invariant \<open>duplex_inv\<close>, the progress measure
    \<open>duplex_measure\<close>, and the abstraction \<open>duplex_abs\<close> to \<open>FifoSpec\<close>.
  \<^item> \<open>Example\<close>: \<open>TestWebChan\<close> and the README example (\<open>example_run\<close>,
    the \<open>select\<close> as \<open>test_select\<close>, the type switch as \<open>type_switch\<close>),
    and the lemmas that run two endpoints to completion.
  \<^item> This theory: properties of the two endpoints of a connection run to
    completion, and the spec's scenario.

  \<^bold>\<open>What is shown.\<close>  Values sent on one endpoint arrive on the other in
  order and equal (\<open>channel_roundtrip_order\<close>, and the spec's scenario
  \<open>greeting_point_scenario\<close>); under every interleaving what the receiving
  caller has got is a prefix of what the sending caller has sent
  (\<open>duplex_fifo\<close>), everything sent can still be delivered
  (\<open>duplex_delivers\<close>), and the pair refines the abstract FIFO channel
  (\<open>duplex_refines_fifo\<close>); \<open>Recv\<close> only carries values of registered
  types (\<open>recv_values_typed\<close>); the receive loop terminates on every finished
  stream of complete documents (\<open>recv_run_terminates\<close>); the package's test
  and README example print \<open>Received string: Hello\<close>
  (\<open>test_web_chan_prints_hello\<close>); the registry's lookups are inverse and
  independent of map order; an unregistered value panics before any byte is
  written; every reachable state respects the channel bounds and the closing
  discipline; a single \<open>Close\<close> caller never panics and \<open>Close\<close> is idempotent
  when called in sequence; the send goroutine blocks only on an empty, open
  \<open>Send\<close> and the receive goroutine only on a read or a full \<open>Recv\<close>, never on
  \<open>Error\<close> (\<open>send_step_suspends\<close>, \<open>recv_step_suspends\<close>); after \<open>Close\<close>
  the receive goroutine closes \<open>Recv\<close> within two steps unless it is pushing onto
  a full \<open>Recv\<close> (\<open>recv_closes_after_close\<close>), and the values still buffered in
  \<open>Send\<close> are reported as send errors instead of being written
  (\<open>close_drains_send\<close>).  At the level of bytes, the text the encoder
  writes for a value is read back by the decoder and unmarshals to the value
  (\<open>send_text_roundtrip\<close>), and the documents of a stream are read back one
  by one, delimited by the codec alone as the spec's wire format requires
  (\<open>decode_stream_roundtrip\<close>); a document cut before its last byte makes
  the decoder wait while the stream is open (\<open>decode_value_prefix\<close>), so that
  a frame may arrive in pieces.  The modelling also shows where the code and its
  documentation part: two concurrent \<open>Close\<close> calls can panic; a payload that
  fails to marshal leaves its name on the wire; an unregistered incoming name
  leaves its payload unread; a kept decoder error makes the receive loop spin
  until \<open>Close\<close>; on a \<open>net.Pipe\<close>, \<open>Close\<close> reports a spurious
  \<open>recvError\<close>; a full \<open>Recv\<close> keeps the receive goroutine, and \<open>Recv\<close>, open
  after \<open>Close\<close>; a send after \<open>Close\<close> panics; \<open>NewNamedWebChan\<close> accepts a
  type under two names and \<open>NewWebChan\<close> merges duplicate prototypes silently;
  a string that is not valid UTF-8 arrives altered (\<open>invalid_utf8_altered\<close>);
  a stream that ends inside an integer payload delivers a shorter integer
  without error (\<open>truncated_number\<close>).
  The two-endpoint theorems connect the endpoints as \<open>net.Pipe\<close> does: the
  receiver's incoming documents are the sender's written documents, followed by
  end of stream once the sender's side is closed; the receiver is given the fuel
  of \<open>recv_run_delivers\<close>, four steps per value and two more.

  \<^bold>\<open>Not modelled.\<close>  The goroutines exchange whole documents (\<open>Wire\<close>); the
  byte level of \<open>JsonText\<close> is proved to deliver exactly those documents, but the
  decoder's read-ahead buffer is not modelled, so a locally closed connection
  fails every later read; floating-point values and the nesting limit of
  \<open>encoding/json\<close>; the \<open>fmt.Println\<close> when an error is
  dropped (output only); the case-insensitive field matching of
  \<open>encoding/json\<close>; Go's scheduler fairness (the step relation allows every
  interleaving, so liveness is stated for runs of one goroutine, or as the
  existence of a completing run); the \<open>reflect\<close> package beyond the dynamic type
  of a value; the test's timer, whose case is taken exactly when no other case
  of the \<open>select\<close> is ready.
\<close>

subsection \<open>Two endpoints\<close>

text \<open>The endpoint of the spec's scenario right after
  \<open>NewNamedWebChan(conn, 100, {"greeting": "", "point": point{}})\<close>.\<close>

definition point_wc :: "(gval, gtype, jval) webchan" where
  "point_wc = \<lparr>send_q = [], send_closed = False, recv_q = [], recv_closed = False, err_q = [],
     close_recv_chan = False, soc = pipe_conn,
     allowed_types = [(''greeting'', TString), (''point'', TStruct ''point'' [(''X'', TInt), (''Y'', TInt)])],
     buf_length = 100, enc_err = None, dec_err = None\<rparr>"

text \<open>Closing one end of a \<open>net.Pipe\<close>: the other end reads what was written
  before and then \<open>io.EOF\<close>, and its writes fail.\<close>

definition pipe_close :: "('v, 'ty, 'd) webchan \<Rightarrow> ('v, 'ty, 'd) webchan \<Rightarrow> ('v, 'ty, 'd) webchan" where
  "pipe_close a b =
     (if local_closed (soc a) then b\<lparr>soc := soc b\<lparr>rx_eof := True, peer_closed := True\<rparr>\<rparr> else b)"

lemma new_named_webchan_point: "new_named_webchan go_json pipe_conn 100 point_prototypes = Inr point_wc"
  by (simp add: new_named_webchan_def new_named_registry_def point_prototypes_def point_wc_def)

subsection \<open>Properties of the connection\<close>

text \<open>C1: values sent on one endpoint arrive on the other equal and in the order
  they were sent: when both endpoints registered the same types, every value is
  registered and sendable, the sender's socket is open and the sender then closes
  its end, the receiver pushes exactly the sent values onto \<open>Recv\<close>, reports no
  error and closes \<open>Recv\<close>, within four steps per value and two more.\<close>

theorem channel_roundtrip_order:
  assumes "names_roundtrip c" and "\<forall>v \<in> set vs. sendable c v"
    and "registry_ok (allowed_types a)" and "allowed_types b = allowed_types a"
    and "\<forall>v \<in> set vs. type_of c v \<in> snd ` set (allowed_types a)"
    and "send_q a = vs" and "enc_err a = None" and "conn_open (soc a)" and "tx (soc a) = []"
    and "rx (soc b) = tx (soc (snd (send_loop c a)))" and "rx_eof (soc b)"
    and "dec_err b = None" and "\<not> local_closed (soc b)" and "\<not> close_recv_chan b"
    and "length (recv_q b) + length vs \<le> buf_length b"
  shows "\<exists>b'. recv_run (4 * length vs + 2) c RLoop b = Some (RReturned, b') \<and>
           recv_q b' = recv_q b @ vs \<and> recv_closed b' \<and> err_q b' = err_q b"
  using endpoints_frames [OF assms] by simp

theorem channel_roundtrip_order_witness:
  "names_roundtrip go_json \<and> sendable go_json (VString ''Hello'') \<and> sendable go_json test_value \<and>
   registry_ok (allowed_types test_wc) \<and>
   tx (soc (snd (send_loop go_json (test_wc\<lparr>send_q := [VString ''Hello'', test_value]\<rparr>)))) =
     [Doc (JString ''string''), Doc (JString ''Hello''), Doc (JString ''webchan.testType''),
      Doc (JObject [(''A'', JNumber 42), (''B'', JString ''Hello'')])] \<and>
   (\<exists>b'. recv_run 10 go_json RLoop
      (test_wc\<lparr>soc := pipe_conn\<lparr>rx := [Doc (JString ''string''), Doc (JString ''Hello''),
         Doc (JString ''webchan.testType''), Doc (JObject [(''A'', JNumber 42), (''B'', JString ''Hello'')])],
         rx_eof := True\<rparr>\<rparr>) = Some (RReturned, b') \<and>
      recv_q b' = [VString ''Hello'', test_value] \<and> recv_closed b' \<and> err_q b' = [])"
proof -
  let ?vs = "[VString ''Hello'', test_value]"
  let ?a = "test_wc\<lparr>send_q := ?vs\<rparr>"
  let ?fr = "[(''string'', JString ''Hello''),
              (''webchan.testType'', JObject [(''A'', JNumber 42), (''B'', JString ''Hello'')])]"
  have sa: "list_all2 (\<lambda>v (n, d). get_allowed_type_name (type_of go_json) (allowed_types ?a) v = Some n \<and>
                                 marshal go_json v = Inr d) (send_q ?a) ?fr"
    by (simp add: test_wc_def test_value_def)
  have tx: "tx (soc (snd (send_loop go_json ?a))) = concat (map (wire_frame go_json) ?fr)"
    using send_loop_frames [OF sa] by (simp add: test_wc_def pipe_conn_def)
  let ?b = "test_wc\<lparr>soc := pipe_conn\<lparr>rx := tx (soc (snd (send_loop go_json ?a))), rx_eof := True\<rparr>\<rparr>"
  have h1: "names_roundtrip go_json" by (rule go_json_names_roundtrip)
  have h2: "\<forall>v \<in> set ?vs. sendable go_json v"
    by (auto intro: wf_val_sendable simp: test_value_def)
  have h3: "registry_ok (allowed_types ?a)" by (simp add: test_wc_def bijective_alist_def)
  have h4: "allowed_types ?b = allowed_types ?a" by simp
  have h5: "\<forall>v \<in> set ?vs. type_of go_json v \<in> snd ` set (allowed_types ?a)"
    by (simp add: test_wc_def test_value_def)
  have h6: "send_q ?a = ?vs" and h7: "enc_err ?a = None" and h8: "conn_open (soc ?a)" and h9: "tx (soc ?a) = []"
    by (simp_all add: test_wc_def pipe_conn_def)
  have h10: "rx (soc ?b) = tx (soc (snd (send_loop go_json ?a)))" and h11: "rx_eof (soc ?b)"
    and h12: "dec_err ?b = None" and h13: "\<not> local_closed (soc ?b)" and h14: "\<not> close_recv_chan ?b"
    and h15: "length (recv_q ?b) + length ?vs \<le> buf_length ?b"
    by (simp_all add: test_wc_def pipe_conn_def)
  have "\<exists>b'. recv_run (4 * length ?vs + 2) go_json RLoop ?b = Some (RReturned, b') \<and>
           recv_q b' = recv_q ?b @ ?vs \<and> recv_closed b' \<and> err_q b' = err_q ?b"
    by (rule channel_roundtrip_order [OF h1 h2 h3 h4 h5 h6 h7 h8 h9 h10 h11 h12 h13 h14 h15])
  then show ?thesis
    using h1 h2 h3 tx by (simp add: test_wc_def)
qed


text \<open>C14: the spec's closing scenario: endpoint A calls \<open>Close\<close> twice, with no
  panic and no error reported, and closes its socket once; the peer's receive
  goroutine, from any point of its loop with the documents A wrote still to read
  and room for them in \<open>Recv\<close>, then returns and closes \<open>Recv\<close>, within two steps
  per document and four more.\<close>

theorem close_twice_peer_closes:
  assumes "\<not> close_recv_chan a" and "\<not> send_closed a"
    and "set (rx (soc b)) \<subseteq> range Doc" and "dec_err b = None" and "\<not> local_closed (soc b)"
    and "pc \<noteq> RReturned"
    and "length (recv_q b) + (case pc of RPush v \<Rightarrow> 1 | _ \<Rightarrow> 0) + length (rx (soc b)) \<le> buf_length b"
  shows "\<exists>a1 b'. close_wc a = Inr a1 \<and> close_wc a1 = Inr a1 \<and> err_q a1 = err_q a \<and> local_closed (soc a1) \<and>
           recv_run (2 * length (rx (soc b)) + 4) c pc (pipe_close a1 b) = Some (RReturned, b') \<and>
           recv_closed b'"
proof -
  let ?a1 = "a\<lparr>close_recv_chan := True, send_closed := True, soc := soc a\<lparr>local_closed := True\<rparr>\<rparr>"
  have c1: "close_wc a = Inr ?a1" using assms(1,2) by (simp add: close_wc_def close_act_def)
  have c2: "close_wc ?a1 = Inr ?a1" by (simp add: close_wc_def)
  let ?b = "pipe_close ?a1 b"
  have "finished_stream pc ?b" using assms(3-7) by (simp add: finished_stream_def pipe_close_def)
  then obtain b' where r: "recv_run (Suc (recv_potential pc ?b)) c pc ?b = Some (RReturned, b')"
    and cl: "recv_closed b'"
    using recv_run_finished by blast
  have "Suc (recv_potential pc ?b) \<le> 2 * length (rx (soc b)) + 4"
    by (simp add: recv_potential_def pipe_close_def split: recv_pc.split)
  with r have "recv_run (2 * length (rx (soc b)) + 4) c pc ?b = Some (RReturned, b')"
    by (rule recv_run_mono)
  with c1 c2 cl show ?thesis by auto
qed

theorem close_twice_peer_closes_witness:
  "\<not> close_recv_chan test_wc \<and> \<not> send_closed test_wc \<and> set (rx (soc test_wc)) \<subseteq> range Doc \<and>
   dec_err test_wc = None \<and> \<not> local_closed (soc test_wc) \<and> (RLoop :: (gtype, gval) recv_pc) \<noteq> RReturned \<and>
   length (recv_q test_wc) + (case (RLoop :: (gtype, gval) recv_pc) of RPush v \<Rightarrow> 1 | _ \<Rightarrow> 0) +
     length (rx (soc test_wc)) \<le> buf_length test_wc \<and>
   (\<exists>a1 b'. close_wc test_wc = Inr a1 \<and> close_wc a1 = Inr a1 \<and> err_q a1 = err_q test_wc \<and>
      local_closed (soc a1) \<and>
      recv_run (2 * length (rx (soc test_wc)) + 4) go_json RLoop (pipe_close a1 test_wc) = Some (RReturned, b') \<and>
      recv_closed b')"
proof -
  have h: "\<not> close_recv_chan test_wc" "\<not> send_closed test_wc" "set (rx (soc test_wc)) \<subseteq> range Doc"
    "dec_err test_wc = None" "\<not> local_closed (soc test_wc)" "(RLoop :: (gtype, gval) recv_pc) \<noteq> RReturned"
    "length (recv_q test_wc) + (case (RLoop :: (gtype, gval) recv_pc) of RPush v \<Rightarrow> 1 | _ \<Rightarrow> 0) +
       length (rx (soc test_wc)) \<le> buf_length test_wc"
    by (simp_all add: test_wc_def pipe_conn_def)
  from close_twice_peer_closes [OF h, of go_json] h show ?thesis by blast
qed

end
